(* ===== verification/Prelude.thy ===== *)
theory Prelude
  imports Main "HOL-Library.Word" "HOL-Library.Monad_Syntax" "HOL-Library.Code_Target_Nat"
begin

unbundle bit_operations_syntax

text \<open>
  Shared vocabulary of the development: machine integers, checked memory, and the lemmas on
  lists that the components use.

  \<^item> \<open>size_t\<close> is a natural number below \<open>2 ^ 64\<close> (the 64-bit targets); the C
    operators on it are \<open>sz_add\<close>, \<open>sz_sub\<close> and \<open>sz_mul\<close>, which wrap around.
    Where an operation of the source cannot wrap (a guard of the code excludes it) the plain
    operator is used. Fixed-width integers are words.
  \<^item> A pointer that the code compares with \<open>NULL\<close> is an option, \<open>NULL\<close> being
    \<open>None\<close>.
  \<^item> A function that indexes memory returns \<open>'a exec\<close>, which is \<open>None\<close> exactly
    when some access was outside its object. Theorems with a \<open>Some\<close> on the right
    therefore state memory safety as well as the result.
\<close>

type_synonym u8 = "8 word"
type_synonym u32 = "32 word"
type_synonym u64 = "64 word"
type_synonym size_t = nat
type_synonym 'a ptr = "'a option"
type_synonym 'a exec = "'a option"

named_theorems mem_simps \<open>checked accesses that succeed\<close>
named_theorems sz_simps \<open>size_t arithmetic that does not wrap\<close>


section \<open>size_t arithmetic\<close>

definition SIZE_MAX :: nat where
  "SIZE_MAX = 18446744073709551615"

definition sz_add :: "size_t \<Rightarrow> size_t \<Rightarrow> size_t" where
  "sz_add a b = (a + b) mod (SIZE_MAX + 1)"

definition sz_mul :: "size_t \<Rightarrow> size_t \<Rightarrow> size_t" where
  "sz_mul a b = (a * b) mod (SIZE_MAX + 1)"

definition sz_sub :: "size_t \<Rightarrow> size_t \<Rightarrow> size_t" where
  "sz_sub a b = (a + (SIZE_MAX + 1 - b)) mod (SIZE_MAX + 1)"

lemma SIZE_MAX_eq: "SIZE_MAX + 1 = 2 ^ 64"
  by (simp add: SIZE_MAX_def)

lemma SIZE_MAX_pos [simp]: "0 < SIZE_MAX"
  by (simp add: SIZE_MAX_def)

lemma sz_add_exact [sz_simps]: "a + b \<le> SIZE_MAX \<Longrightarrow> sz_add a b = a + b"
  by (simp add: sz_add_def)

lemma sz_mul_exact [sz_simps]: "a * b \<le> SIZE_MAX \<Longrightarrow> sz_mul a b = a * b"
  by (simp add: sz_mul_def)

lemma sz_sub_exact [sz_simps]:
  assumes "b \<le> a" "a \<le> SIZE_MAX"
  shows "sz_sub a b = a - b"
proof -
  have "a + (SIZE_MAX + 1 - b) = (a - b) + (SIZE_MAX + 1)"
    using assms by simp
  then have "sz_sub a b = (a - b) mod (SIZE_MAX + 1)"
    unfolding sz_sub_def by (metis mod_add_self2)
  then show ?thesis
    using assms by simp
qed

lemma sz_sub_wrap:
  assumes "a < b" "b \<le> SIZE_MAX"
  shows "sz_sub a b = a + (SIZE_MAX + 1) - b"
  using assms by (simp add: sz_sub_def)

lemma sz_add_le [simp]: "sz_add a b \<le> SIZE_MAX"
  by (simp add: sz_add_def less_Suc_eq_le [symmetric])

lemma sz_mul_le [simp]: "sz_mul a b \<le> SIZE_MAX"
  by (simp add: sz_mul_def less_Suc_eq_le [symmetric])

lemma sz_sub_le [simp]: "sz_sub a b \<le> SIZE_MAX"
  by (simp add: sz_sub_def less_Suc_eq_le [symmetric])

lemma div_le_guard:
  assumes "0 < (e::nat)" "c \<le> m div e"
  shows "c * e \<le> m"
  using assms by (metis le_trans mult_le_mono1 div_times_less_eq_dividend)

lemma and_mask_mod: "(x::nat) AND (2 ^ k - 1) = x mod 2 ^ k"
  by (metis mask_eq_exp_minus_1 take_bit_eq_mask take_bit_eq_mod)


section \<open>Checked memory\<close>

definition load :: "'a list \<Rightarrow> nat \<Rightarrow> 'a exec" where
  "load xs i = (if i < length xs then Some (xs ! i) else None)"

definition store :: "'a list \<Rightarrow> nat \<Rightarrow> 'a \<Rightarrow> 'a list exec" where
  "store xs i v = (if i < length xs then Some (xs[i := v]) else None)"

text \<open>
  \<open>memcpy dst d src s n\<close> copies \<open>n\<close> cells of \<open>src\<close> from offset \<open>s\<close> to
  offset \<open>d\<close> of \<open>dst\<close>; \<open>memset dst d v n\<close> fills \<open>n\<close> cells.
\<close>

definition memcpy :: "'a list \<Rightarrow> nat \<Rightarrow> 'a list \<Rightarrow> nat \<Rightarrow> nat \<Rightarrow> 'a list exec" where
  "memcpy dst d src s n =
     (if d + n \<le> length dst \<and> s + n \<le> length src
      then Some (take d dst @ take n (drop s src) @ drop (d + n) dst) else None)"

definition memset :: "'a list \<Rightarrow> nat \<Rightarrow> 'a \<Rightarrow> nat \<Rightarrow> 'a list exec" where
  "memset dst d v n =
     (if d + n \<le> length dst then Some (take d dst @ replicate n v @ drop (d + n) dst) else None)"

text \<open>\<open>memmove\<close> within one buffer; the source range is read before it is overwritten.\<close>

definition memmove :: "'a list \<Rightarrow> nat \<Rightarrow> nat \<Rightarrow> nat \<Rightarrow> 'a list exec" where
  "memmove buf d s n =
     (if d + n \<le> length buf \<and> s + n \<le> length buf
      then Some (take d buf @ take n (drop s buf) @ drop (d + n) buf) else None)"

lemma load_ok [mem_simps]: "i < length xs \<Longrightarrow> load xs i = Some (xs ! i)"
  by (simp add: load_def)

lemma store_ok [mem_simps]: "i < length xs \<Longrightarrow> store xs i v = Some (xs[i := v])"
  by (simp add: store_def)

lemma load_SomeD: "load xs i = Some v \<Longrightarrow> i < length xs \<and> v = xs ! i"
  by (simp add: load_def split: if_splits)

lemma store_SomeD: "store xs i v = Some ys \<Longrightarrow> i < length xs \<and> ys = xs[i := v]"
  by (auto simp: store_def split: if_splits)

lemma memcpy_ok [mem_simps]:
  "d + n \<le> length dst \<Longrightarrow> s + n \<le> length src \<Longrightarrow>
   memcpy dst d src s n = Some (take d dst @ take n (drop s src) @ drop (d + n) dst)"
  by (simp add: memcpy_def)

lemma memset_ok [mem_simps]:
  "d + n \<le> length dst \<Longrightarrow>
   memset dst d v n = Some (take d dst @ replicate n v @ drop (d + n) dst)"
  by (simp add: memset_def)

lemma splice_length [simp]:
  "d + n \<le> length dst \<Longrightarrow> length ys = n \<Longrightarrow> length (take d dst @ ys @ drop (d + n) dst) = length dst"
  by simp

lemma splice_nth:
  assumes "d + n \<le> length dst" "length ys = n" "i < length dst"
  shows "(take d dst @ ys @ drop (d + n) dst) ! i =
           (if d \<le> i \<and> i < d + n then ys ! (i - d) else dst ! i)"
  using assms by (auto simp: nth_append)


section \<open>Element slots of a byte buffer\<close>

text \<open>
  The containers of \<open>libs/data\<close> keep elements of \<open>elem_size\<close> bytes one after
  another in a byte buffer. \<open>slot es buf i\<close> is the \<open>i\<close>-th element and
  \<open>put_slot\<close> overwrites it.
\<close>

definition slot :: "nat \<Rightarrow> 'a list \<Rightarrow> nat \<Rightarrow> 'a list" where
  "slot es buf i = take es (drop (i * es) buf)"

definition put_slot :: "nat \<Rightarrow> 'a list \<Rightarrow> nat \<Rightarrow> 'a list \<Rightarrow> 'a list" where
  "put_slot es buf i v = take (i * es) buf @ v @ drop (i * es + es) buf"

lemma slot_end: "i < n \<Longrightarrow> n * es \<le> length buf \<Longrightarrow> i * es + es \<le> length (buf :: 'a list)"
  by (metis Suc_leI add.commute le_trans mult_Suc mult_le_mono1)

lemma length_slot [simp]: "i < n \<Longrightarrow> n * es \<le> length buf \<Longrightarrow> length (slot es buf i) = es"
  using slot_end [of i n es buf] by (simp add: slot_def)

lemma length_put_slot [simp]:
  "i < n \<Longrightarrow> n * es \<le> length buf \<Longrightarrow> length v = es \<Longrightarrow> length (put_slot es buf i v) = length buf"
  using slot_end [of i n es buf] by (simp add: put_slot_def)

lemma slot_put_slot_same:
  "i < n \<Longrightarrow> n * es \<le> length buf \<Longrightarrow> length v = es \<Longrightarrow> slot es (put_slot es buf i v) i = v"
  using slot_end [of i n es buf] by (simp add: put_slot_def slot_def)

lemma slot_put_slot_other:
  assumes "i < n" "j < n" "n * es \<le> length buf" "length v = es" "i \<noteq> j"
  shows "slot es (put_slot es buf i v) j = slot es buf j"
proof (rule nth_equalityI)
  show "length (slot es (put_slot es buf i v) j) = length (slot es buf j)"
    using assms by (simp add: length_slot [of j n])
next
  fix k
  assume "k < length (slot es (put_slot es buf i v) j)"
  then have k: "k < es"
    using assms by (simp add: length_slot [of j n])
  have ie: "i * es + es \<le> length buf" and je: "j * es + es \<le> length buf"
    using assms slot_end by blast+
  have ne: "\<not> (i * es \<le> j * es + k \<and> j * es + k < i * es + es)"
  proof (cases "i < j")
    case True
    then have "i * es + es \<le> j * es"
      by (metis Suc_leI add.commute mult_Suc mult_le_mono1)
    then show ?thesis by simp
  next
    case False
    with assms have "j * es + es \<le> i * es"
      by (metis Suc_leI add.commute mult_Suc mult_le_mono1 nat_neq_iff)
    with k show ?thesis by simp
  qed
  have "put_slot es buf i v ! (j * es + k) = buf ! (j * es + k)"
    unfolding put_slot_def
    using ie je k assms by (subst splice_nth) (simp_all add: ne)
  moreover have "length (put_slot es buf i v) = length buf"
    using assms by simp
  ultimately show "slot es (put_slot es buf i v) j ! k = slot es buf j ! k"
    using k je by (simp add: slot_def)
qed

lemma memcpy_slot [mem_simps]:
  assumes "i < n" "n * es \<le> length buf" "length v = es"
  shows "memcpy buf (i * es) v 0 es = Some (put_slot es buf i v)"
  using assms slot_end [of i n es buf] by (simp add: memcpy_def put_slot_def)

text \<open>A buffer of \<open>n\<close> slots as the list of its elements; writing a slot updates that list.\<close>

definition slots :: "nat \<Rightarrow> 'a list \<Rightarrow> nat \<Rightarrow> 'a list list" where
  "slots es buf n = map (slot es buf) [0..<n]"

lemma length_slots [simp]: "length (slots es buf n) = n"
  by (simp add: slots_def)

lemma nth_slots [simp]: "i < n \<Longrightarrow> slots es buf n ! i = slot es buf i"
  by (simp add: slots_def)

lemma slots_put_slot:
  assumes "i < n" "n * es \<le> length buf" "length v = es"
  shows "slots es (put_slot es buf i v) n = (slots es buf n)[i := v]"
  using assms slot_put_slot_same [OF assms] slot_put_slot_other [OF assms(1) _ assms(2,3)]
  by (intro nth_equalityI) (auto simp: nth_list_update)

lemma take_slots: "m \<le> n \<Longrightarrow> take m (slots es buf n) = slots es buf m"
  by (simp add: slots_def take_map)

text \<open>Ranges that are aligned to slots, as sublists of the list of elements.\<close>

lemma slot_take: "i < m \<Longrightarrow> slot es (take (m * es) d) i = slot es d i"
proof -
  assume "i < m"
  then have "i * es + es \<le> m * es" by (metis Suc_leI add.commute mult_Suc mult_le_mono1)
  then show ?thesis by (simp add: slot_def drop_take min_def)
qed

lemma slots_take: "m \<le> n \<Longrightarrow> slots es (take (m * es) d) m = take m (slots es d n)"
  by (simp add: take_slots) (simp add: slots_def slot_take)

lemma slots_drop: "slots es (drop (m * es) d) n = drop m (slots es d (m + n))"
  by (rule nth_equalityI) (simp_all add: slot_def add.commute distrib_right)

lemma slots_append:
  assumes "length x = m * es"
  shows "slots es (x @ y) (m + n) = slots es x m @ slots es y n"
proof -
  have "slots es (x @ y) (m + n) = take m (slots es (x @ y) (m + n)) @ drop m (slots es (x @ y) (m + n))"
    by simp
  also have "\<dots> = slots es (take (m * es) (x @ y)) m @ slots es (drop (m * es) (x @ y)) n"
    by (simp only: slots_drop slots_take [of m "m + n", OF le_add1])
  finally show ?thesis using assms by simp
qed

lemma slots_replicate: "slots es (replicate (n * es) x) n = replicate n (replicate es x)"
proof (rule nth_equalityI)
  fix i assume "i < length (slots es (replicate (n * es) x) n)"
  then have i: "i < n" by simp
  then have "es \<le> n * es - i * es"
    by (metis Suc_leI add_le_imp_le_diff diff_mult_distrib mult_Suc mult_le_mono1 plus_1_eq_Suc le_diff_conv2 add.commute less_or_eq_imp_le mult.commute)
  then show "slots es (replicate (n * es) x) n ! i = replicate n (replicate es x) ! i"
    using i by (simp add: slot_def min_def)
qed simp

lemma slots_splice:
  assumes "length x = n * es" "i + n \<le> c" "length d = c * es"
  shows "slots es (take (i * es) d @ x @ drop (i * es + n * es) d) c =
         take i (slots es d c) @ slots es x n @ drop (i + n) (slots es d c)"
proof -
  have l: "length (take (i * es) d) = i * es" using assms by (simp add: mult_le_mono1)
  have c: "c = i + (n + (c - (i + n)))" using assms(2) by simp
  have "slots es (take (i * es) d @ x @ drop ((i + n) * es) d) (i + (n + (c - (i + n))))
        = take i (slots es d c) @ slots es x n @ drop (i + n) (slots es d ((i + n) + (c - (i + n))))"
    using assms by (simp only: slots_append [OF l] slots_append [OF assms(1)] slots_drop)
      (simp add: slots_take [of i c])
  then show ?thesis using c assms(2) by (simp add: distrib_right)
qed

lemma memmove_slots:
  assumes "i + n \<le> c" "j + n \<le> c" "length d = c * es"
  shows "\<exists>d'. memmove d (i * es) (j * es) (n * es) = Some d' \<and> length d' = length d \<and>
           slots es d' c = take i (slots es d c) @ take n (drop j (slots es d c)) @ drop (i + n) (slots es d c)"
proof -
  let ?x = "take (n * es) (drop (j * es) d)"
  have b: "i * es + n * es \<le> length d" "j * es + n * es \<le> length d"
    using assms by (simp_all add: mult_le_mono1 flip: add_mult_distrib)
  then have lx: "length ?x = n * es" by simp
  have "slots es ?x n = take n (drop j (slots es d (j + n)))"
    using slots_take [of n n es "drop (j * es) d"] by (simp only: slots_drop le_refl)
  also have "slots es d (j + n) = take (j + n) (slots es d c)" using assms(2) by (simp add: take_slots)
  finally have "slots es ?x n = take n (drop j (slots es d c))" by (simp add: drop_take)
  then show ?thesis
    using slots_splice [OF lx assms(1,3)] b by (simp add: memmove_def)
qed

lemma memset_slots:
  assumes "i + n \<le> c" "length d = c * es"
  shows "\<exists>d'. memset d (i * es) v (n * es) = Some d' \<and> length d' = length d \<and>
           slots es d' c = take i (slots es d c) @ replicate n (replicate es v) @ drop (i + n) (slots es d c)"
proof -
  have b: "i * es + n * es \<le> length d"
    using assms by (simp add: mult_le_mono1 flip: add_mult_distrib)
  then show ?thesis
    using slots_splice [of "replicate (n * es) v" n es i c d] assms by (simp add: memset_ok slots_replicate)
qed

lemma memcpy_slot_slot [mem_simps]:
  assumes "i < n" "n * es \<le> length dst" "j < m" "m * es \<le> length src"
  shows "memcpy dst (i * es) src (j * es) es = Some (put_slot es dst i (slot es src j))"
  using assms slot_end [of i n es dst] slot_end [of j m es src]
  by (simp add: memcpy_def put_slot_def slot_def)

lemma map_slot_eqI:
  assumes "length xs = n" "\<And>i. i < n \<Longrightarrow> f i = xs ! i"
  shows "map f [0..<n] = xs"
  using assms by (auto intro: nth_equalityI)


text \<open>A pointer into a buffer that may also be NULL: the buffer with an offset.\<close>

type_synonym 'a cursor = "('a list \<times> size_t) ptr"

text \<open>
  \<open>calloc\<close> of \<open>libs/libc/stdlib.c\<close> over an allocator \<open>malloc\<close>, which returns the block for a size
  or None.
\<close>

definition calloc :: "(size_t \<Rightarrow> u8 list ptr) \<Rightarrow> size_t \<Rightarrow> size_t \<Rightarrow> u8 list ptr" where
  "calloc malloc num sz =
     (if num = 0 \<or> sz = 0 then None
      else if SIZE_MAX div sz < num then None
      else let total = sz * num in
        case malloc total of
          None \<Rightarrow> None
        | Some memory \<Rightarrow> memset memory 0 0 total)"

text \<open>What the code relies on: a successful allocation is a block of the size asked for.\<close>

definition malloc_ok :: "(size_t \<Rightarrow> u8 list ptr) \<Rightarrow> bool" where
  "malloc_ok malloc \<longleftrightarrow> (\<forall>n b. malloc n = Some b \<longrightarrow> length b = n)"

lemma calloc_SomeD:
  assumes "malloc_ok malloc" "calloc malloc n sz = Some b"
  shows "b = replicate (n * sz) 0" "n * sz \<le> SIZE_MAX" "0 < n"
proof -
  obtain m where m: "malloc (sz * n) = Some m" "memset m 0 0 (sz * n) = Some b" "n \<le> SIZE_MAX div sz" "0 < sz" "0 < n"
    using assms(2) by (auto simp: calloc_def Let_def split: if_splits option.splits)
  then have "length m = sz * n" using assms(1) by (simp add: malloc_ok_def)
  then show "b = replicate (n * sz) 0" using m(2) by (simp add: memset_ok mult.commute)
  show "n * sz \<le> SIZE_MAX" using div_le_guard [OF m(4,3)] .
  show "0 < n" by (rule m(5))
qed


section \<open>Lists, options and modular positions\<close>

lemma mod_add_wrap: "(a::nat) < c \<Longrightarrow> b \<le> c \<Longrightarrow> (a + b) mod c = (if a + b < c then a + b else a + b - c)"
  by (simp add: mod_if)

lemma mod_pos_inj:
  assumes "(i::nat) < c" "j < c" "(h + i) mod c = (h + j) mod c"
  shows "i = j"
proof -
  have "int ((h + i) mod c) = int ((h + j) mod c)"
    using assms by simp
  then have "(int h + int i) mod int c = (int h + int j) mod int c"
    by (simp add: zmod_int)
  then have "int c dvd (int h + int i - (int h + int j))"
    by (metis mod_eq_dvd_iff)
  then have "int c dvd (int i - int j)" by simp
  moreover have "\<bar>int i - int j\<bar> < int c"
    using assms by linarith
  ultimately show ?thesis
    by (metis abs_eq_0 dvd_abs_iff dvd_imp_le_int eq_iff_diff_eq_0 int_ops(1) linorder_not_less nat_int_comparison(1) abs_of_nat)
qed

lemma bind_eq_Some_iff:
  "(Option.bind m f = Some y) \<longleftrightarrow> (\<exists>x. m = Some x \<and> f x = Some y)"
  by (cases m) auto

text \<open>The test \<open>x & (x - 1)\<close> recognises the powers of two.\<close>

lemma and_pred_zero_power2:
  assumes "0 < (x::nat)" "x AND (x - 1) = 0"
  shows "\<exists>k. x = 2 ^ k"
  using assms
proof (induction x rule: less_induct)
  case (less x)
  show ?case
  proof (cases "even x")
    case True
    then obtain y where y: "x = 2 * y" by (elim evenE)
    with less.prems(1) have "0 < y" by simp
    then have "(x - 1) div 2 = y - 1" using y by simp
    moreover have "x AND (x - 1) = 2 * ((x div 2) AND ((x - 1) div 2))"
      using True by (subst and_rec) simp
    ultimately have "y AND (y - 1) = 0" using less.prems(2) y by simp
    then obtain k where "y = 2 ^ k" using less.IH [of y] y \<open>0 < y\<close> by auto
    then have "x = 2 ^ Suc k" using y by simp
    then show ?thesis by blast
  next
    case False
    then obtain y where y: "x = 2 * y + 1" by (elim oddE)
    have "x AND (x - 1) = 2 * ((x div 2) AND ((x - 1) div 2))"
      using y by (subst and_rec) simp
    then have "y = 0" using less.prems(2) y by simp
    then have "x = 2 ^ 0" using y by simp
    then show ?thesis by blast
  qed
qed

end
