(* ===== verification/Bitmap.thy ===== *)
theory Bitmap
  imports Prelude
begin

text \<open>
  The bitmap primitives of \<open>libs/data/bitmap.c\<close>. A bitmap is an array of 32-bit words;
  \<open>bitmap_bit\<close> reads it as a predicate on block numbers, and the lemmas say what each
  routine does to that predicate. \<open>write_region\<close> is the optimised region writer (a
  partial first word, whole words, a partial last word) behind \<open>bitmap_set_region\<close> and
  \<open>bitmap_clear_region\<close>.
\<close>

type_synonym bitmap = "u32 list"

definition BITMAP_WORD_SIZE :: size_t where
  "BITMAP_WORD_SIZE = 32"

definition bitmap_set :: "bitmap \<Rightarrow> size_t \<Rightarrow> bitmap exec" where
  "bitmap_set bitmap index =
     (let word = index div BITMAP_WORD_SIZE; b = index mod BITMAP_WORD_SIZE in
      do { w \<leftarrow> load bitmap word; store bitmap word (w OR push_bit b 1) })"

definition bitmap_clear :: "bitmap \<Rightarrow> size_t \<Rightarrow> bitmap exec" where
  "bitmap_clear bitmap index =
     (let word = index div BITMAP_WORD_SIZE; b = index mod BITMAP_WORD_SIZE in
      do { w \<leftarrow> load bitmap word; store bitmap word (w AND NOT (push_bit b 1)) })"

definition low_mask :: "size_t \<Rightarrow> u32" where
  "low_mask bits = (if BITMAP_WORD_SIZE \<le> bits then - 1 else push_bit bits 1 - 1)"

text \<open>The read-modify-write of one word that both partial ends of a region use.\<close>

definition write_masked :: "bitmap \<Rightarrow> size_t \<Rightarrow> u32 \<Rightarrow> bool \<Rightarrow> bitmap exec" where
  "write_masked bitmap word m st =
     do { w \<leftarrow> load bitmap word; store bitmap word (if st then w OR m else w AND NOT m) }"

fun write_words :: "bitmap \<Rightarrow> size_t \<Rightarrow> size_t \<Rightarrow> u32 \<Rightarrow> (bitmap \<times> size_t \<times> size_t) exec" where
  "write_words bitmap word blocks fill =
     (if BITMAP_WORD_SIZE \<le> blocks \<and> 0 < BITMAP_WORD_SIZE
      then do { bitmap' \<leftarrow> store bitmap word fill;
                write_words bitmap' (word + 1) (blocks - BITMAP_WORD_SIZE) fill }
      else Some (bitmap, word, blocks))"

declare write_words.simps [simp del]

definition write_region :: "bitmap \<Rightarrow> size_t \<Rightarrow> size_t \<Rightarrow> bool \<Rightarrow> bitmap exec" where
  "write_region bitmap index blocks st =
     (if blocks = 0 then Some bitmap
      else let word = index div BITMAP_WORD_SIZE; b = index mod BITMAP_WORD_SIZE in
        do { (bitmap, word, blocks) \<leftarrow>
               (if b \<noteq> 0
                then let count = BITMAP_WORD_SIZE - b;
                         count = (if blocks < count then blocks else count);
                         m = push_bit b (low_mask count) in
                  do { bitmap \<leftarrow> write_masked bitmap word m st;
                       Some (bitmap, word + 1, blocks - count) }
                else Some (bitmap, word, blocks));
             (bitmap, word, blocks) \<leftarrow> write_words bitmap word blocks (if st then - 1 else 0);
             (if blocks \<noteq> 0 then write_masked bitmap word (low_mask blocks) st
              else Some bitmap) })"

definition bitmap_set_region :: "bitmap \<Rightarrow> size_t \<Rightarrow> size_t \<Rightarrow> bitmap exec" where
  "bitmap_set_region bitmap index blocks = write_region bitmap index blocks True"

definition bitmap_clear_region :: "bitmap \<Rightarrow> size_t \<Rightarrow> size_t \<Rightarrow> bitmap exec" where
  "bitmap_clear_region bitmap index blocks = write_region bitmap index blocks False"

definition bitmap_get :: "bitmap \<Rightarrow> size_t \<Rightarrow> bool exec" where
  "bitmap_get bitmap index =
     (let word = index div BITMAP_WORD_SIZE; b = index mod BITMAP_WORD_SIZE in
      do { w \<leftarrow> load bitmap word; Some (drop_bit b w AND 1 \<noteq> 0) })"

text \<open>
  \<open>bitmap_find_first_clear\<close>: the inner loop over the bits of one word, the outer loop over
  the whole words, and the tail word.
\<close>

function scan_bits :: "u32 \<Rightarrow> size_t \<Rightarrow> size_t \<Rightarrow> size_t option" where
  "scan_bits bits b limit =
     (if b < limit
      then if bits AND push_bit b 1 = 0 then Some b else scan_bits bits (b + 1) limit
      else None)"
  by pat_completeness auto
termination
  by (relation "measure (\<lambda>(bits, b, limit). limit - b)") auto

declare scan_bits.simps [simp del]

function scan_words :: "bitmap \<Rightarrow> size_t \<Rightarrow> size_t \<Rightarrow> size_t option exec" where
  "scan_words bitmap w words =
     (if w < words
      then do { bits \<leftarrow> load bitmap w;
                if bits = - 1 then scan_words bitmap (w + 1) words
                else (case scan_bits bits 0 BITMAP_WORD_SIZE of
                        Some b \<Rightarrow> Some (Some (w * BITMAP_WORD_SIZE + b))
                      | None \<Rightarrow> scan_words bitmap (w + 1) words) }
      else Some None)"
  by pat_completeness auto
termination
  by (relation "measure (\<lambda>(bitmap, w, words). words - w)") auto

declare scan_words.simps [simp del]

definition bitmap_find_first_clear ::
  "bitmap ptr \<Rightarrow> size_t \<Rightarrow> size_t ptr \<Rightarrow> (bool \<times> size_t ptr) exec" where
  "bitmap_find_first_clear bitmap bit_count index_out =
     (case (bitmap, index_out) of
        (Some bitmap, Some old) \<Rightarrow>
          (let words = bit_count div BITMAP_WORD_SIZE; rem = bit_count mod BITMAP_WORD_SIZE in
           do { found \<leftarrow> scan_words bitmap 0 words;
                case found of
                  Some i \<Rightarrow> Some (True, Some i)
                | None \<Rightarrow>
                    if rem = 0 then Some (False, index_out)
                    else do { tail \<leftarrow> load bitmap words;
                              case scan_bits tail 0 rem of
                                Some b \<Rightarrow> Some (True, Some (words * BITMAP_WORD_SIZE + b))
                              | None \<Rightarrow> Some (False, index_out) } })
      | _ \<Rightarrow> Some (False, index_out))"


section \<open>Reading a bitmap as a set of blocks\<close>

definition bitmap_bit :: "bitmap \<Rightarrow> nat \<Rightarrow> bool" where
  "bitmap_bit bitmap i = bit (bitmap ! (i div 32)) (i mod 32)"

definition bitmap_bits :: "bitmap \<Rightarrow> nat" where
  "bitmap_bits bitmap = 32 * length bitmap"

lemma word_index [simp]: "i < bitmap_bits bm \<Longrightarrow> i div 32 < length bm"
  by (simp add: bitmap_bits_def less_mult_imp_div_less mult.commute)

lemma bitmap_bits_list_update [simp]: "bitmap_bits (bm[i := w]) = bitmap_bits bm"
  by (simp add: bitmap_bits_def)

lemma bit_set_single:
  "b < 32 \<Longrightarrow> k < 32 \<Longrightarrow> bit ((w :: u32) OR push_bit b 1) k \<longleftrightarrow> k = b \<or> bit w k"
  by (auto simp: bit_or_iff bit_exp_iff)

lemma bit_clear_single:
  "b < 32 \<Longrightarrow> k < 32 \<Longrightarrow> bit ((w :: u32) AND NOT (push_bit b 1)) k \<longleftrightarrow> k \<noteq> b \<and> bit w k"
  by (auto simp: bit_and_iff bit_not_iff bit_exp_iff)

lemma and_single_zero: "b < 32 \<Longrightarrow> (w :: u32) AND push_bit b 1 = 0 \<longleftrightarrow> \<not> bit w b"
  by (simp add: and_exp_eq_0_iff_not_bit)

lemma low_mask_mask: "c \<le> 32 \<Longrightarrow> low_mask c = mask c"
  by (cases "c = 32") (auto simp: low_mask_def BITMAP_WORD_SIZE_def mask_eq_exp_minus_1 push_bit_eq_mult)

lemma bit_low_mask_shifted:
  assumes "c \<le> 32" "b < 32" "k < 32"
  shows "bit (push_bit b (low_mask c)) k \<longleftrightarrow> b \<le> k \<and> k < b + c"
  using assms by (auto simp: low_mask_mask bit_push_bit_iff bit_mask_iff)

lemma bitmap_bit_update:
  assumes "w < length bm"
  shows "bitmap_bit (bm[w := v]) j = (if j div 32 = w then bit v (j mod 32) else bitmap_bit bm j)"
  using assms by (simp add: bitmap_bit_def)

lemma write_masked_spec:
  assumes "w < length bm" "b < 32" "c \<le> 32" "b + c \<le> 32"
  shows "\<exists>bm'. write_masked bm w (push_bit b (low_mask c)) s = Some bm' \<and> length bm' = length bm \<and>
           (\<forall>j. bitmap_bit bm' j =
              (if 32 * w + b \<le> j \<and> j < 32 * w + b + c then s else bitmap_bit bm j))"
proof -
  let ?m = "push_bit b (low_mask c)"
  let ?bm = "bm[w := (if s then bm ! w OR ?m else bm ! w AND NOT ?m)]"
  have "bitmap_bit ?bm j = (if 32 * w + b \<le> j \<and> j < 32 * w + b + c then s else bitmap_bit bm j)" for j
  proof (cases "j div 32 = w")
    case True
    then have j: "j = 32 * w + j mod 32" by (metis mult_div_mod_eq)
    have "bit ?m (j mod 32) \<longleftrightarrow> 32 * w + b \<le> j \<and> j < 32 * w + b + c"
      using assms bit_low_mask_shifted [of c b "j mod 32"] j by auto
    with True assms show ?thesis
      by (auto simp: bitmap_bit_update bitmap_bit_def bit_or_iff bit_and_iff bit_not_iff)
  next
    case False
    then have "\<not> (32 * w + b \<le> j \<and> j < 32 * w + b + c)"
      using assms by (auto simp: div_eq_0_iff)
    with False assms show ?thesis by (auto simp: bitmap_bit_update)
  qed
  with assms show ?thesis
    by (intro exI [of _ ?bm]) (simp add: write_masked_def mem_simps)
qed

lemma write_words_spec:
  assumes "w + n div 32 \<le> length bm" and "fill = (if s then - 1 else 0)"
  shows "\<exists>bm'. write_words bm w n fill = Some (bm', w + n div 32, n mod 32) \<and> length bm' = length bm \<and>
           (\<forall>j. bitmap_bit bm' j =
              (if 32 * w \<le> j \<and> j < 32 * (w + n div 32) then s else bitmap_bit bm j))"
  using assms(1)
proof (induction n arbitrary: bm w rule: less_induct)
  case (less n)
  show ?case
  proof (cases "32 \<le> n")
    case False
    then show ?thesis
      by (intro exI [of _ bm]) (auto simp: write_words.simps [of bm w n] BITMAP_WORD_SIZE_def)
  next
    case True
    then have n: "n div 32 = Suc ((n - 32) div 32)" "(n - 32) mod 32 = n mod 32"
      by (simp_all add: le_div_geq le_mod_geq)
    have w: "w < length bm" using less.prems n by simp
    let ?bm = "bm[w := fill]"
    obtain bm' where bm': "write_words ?bm (w + 1) (n - 32) fill =
        Some (bm', w + 1 + (n - 32) div 32, (n - 32) mod 32)" "length bm' = length ?bm"
      "\<forall>j. bitmap_bit bm' j = (if 32 * (w + 1) \<le> j \<and> j < 32 * (w + 1 + (n - 32) div 32)
                                then s else bitmap_bit ?bm j)"
      using less.IH [of "n - 32" "w + 1" ?bm] less.prems n True by auto
    have "write_words bm w n fill = Some (bm', w + n div 32, n mod 32)"
      using True w bm'(1) n by (simp add: write_words.simps [of bm w n] BITMAP_WORD_SIZE_def mem_simps)
    moreover have "bitmap_bit bm' j = (if 32 * w \<le> j \<and> j < 32 * (w + n div 32) then s else bitmap_bit bm j)" for j
    proof (cases "j div 32 = w")
      case True
      then have "32 * w \<le> j" "j < 32 * (w + 1)" by auto
      with True w bm'(3) n assms(2) show ?thesis
        by (simp add: bitmap_bit_update)
    next
      case False
      then have "32 * w \<le> j \<longleftrightarrow> 32 * (w + 1) \<le> j" by auto
      with False w bm'(3) n show ?thesis
        by (simp add: bitmap_bit_update)
    qed
    ultimately show ?thesis using bm'(2) by auto
  qed
qed

text \<open>
  The region writer sets exactly the bits of the region to \<open>s\<close>, touches no other bit, and
  stays inside the bitmap.
\<close>

definition region_written :: "bitmap \<Rightarrow> nat \<Rightarrow> nat \<Rightarrow> bool \<Rightarrow> bitmap \<Rightarrow> bool" where
  "region_written bm i n s bm' \<longleftrightarrow> length bm' = length bm \<and>
     (\<forall>j. bitmap_bit bm' j = (if i \<le> j \<and> j < i + n then s else bitmap_bit bm j))"

lemma region_written_trans:
  assumes "region_written bm i m s bm1" "region_written bm1 (i + m) n s bm2"
  shows "region_written bm i (m + n) s bm2"
  using assms by (simp add: region_written_def)

lemma write_region_aligned:
  assumes "32 * w + n \<le> bitmap_bits bm"
  shows "\<exists>bm'. do { (bitmap, word, blocks) \<leftarrow> write_words bm w n (if s then - 1 else 0);
                     (if blocks \<noteq> 0 then write_masked bitmap word (low_mask blocks) s
                      else Some bitmap) } = Some bm' \<and> region_written bm (32 * w) n s bm'"
proof -
  obtain q r where qr: "n = 32 * q + r" "r < 32"
    by (metis mod_less_divisor mult_div_mod_eq zero_less_numeral)
  then have dm: "n div 32 = q" "n mod 32 = r" by simp_all
  have b: "w + q \<le> length bm" "r \<noteq> 0 \<Longrightarrow> w + q < length bm"
    using assms qr by (simp_all add: bitmap_bits_def)
  obtain bm1 where bm1: "write_words bm w n (if s then - 1 else 0) = Some (bm1, w + q, r)"
    "region_written bm (32 * w) (32 * q) s bm1"
    using write_words_spec [of w n bm _ s] b(1) dm by (auto simp: region_written_def distrib_left)
  show ?thesis
  proof (cases "r = 0")
    case True
    with bm1 qr show ?thesis by simp
  next
    case False
    then have "w + q < length bm1" using b(2) bm1(2) by (simp add: region_written_def)
    then obtain bm2 where bm2: "write_masked bm1 (w + q) (low_mask r) s = Some bm2"
      "region_written bm1 (32 * w + 32 * q) r s bm2"
      using write_masked_spec [of "w + q" bm1 0 r s] qr(2)
      by (auto simp: region_written_def distrib_left)
    have "region_written bm (32 * w) n s bm2"
      using region_written_trans [OF bm1(2) bm2(2)] qr(1) by simp
    with False bm1(1) bm2(1) show ?thesis by simp
  qed
qed

lemma next_word: "32 * ((i::nat) div 32 + 1) = i + (32 - i mod 32)"
proof -
  obtain q r where "i = 32 * q + r" "r < 32"
    by (metis mod_less_divisor mult_div_mod_eq zero_less_numeral)
  then show ?thesis by simp
qed

lemma write_region_spec:
  assumes "i + n \<le> bitmap_bits bm"
  shows "\<exists>bm'. write_region bm i n s = Some bm' \<and> region_written bm i n s bm'"
proof (cases "n = 0")
  case True
  then show ?thesis by (auto simp: write_region_def region_written_def)
next
  case n: False
  let ?w = "i div 32" and ?b = "i mod 32"
  show ?thesis
  proof (cases "?b = 0")
    case True
    then have "32 * ?w = i" by auto
    with True n write_region_aligned [of ?w n bm s] assms show ?thesis
      by (simp add: write_region_def BITMAP_WORD_SIZE_def)
  next
    case b: False
    define c where "c = (if n < 32 - ?b then n else 32 - ?b)"
    have ib: "32 * ?w + ?b = i" by simp
    have c: "c \<le> 32" "?b + c \<le> 32" "c \<le> n" by (auto simp: c_def)
    have "?w < length bm" using assms n by simp
    then obtain bm1 where bm1: "write_masked bm ?w (push_bit ?b (low_mask c)) s = Some bm1"
      "region_written bm i c s bm1"
      using write_masked_spec [of ?w bm ?b c s] c ib by (auto simp: region_written_def)
    have len: "length bm1 = length bm" using bm1(2) by (simp add: region_written_def)
    have rest: "n - c \<noteq> 0 \<Longrightarrow> 32 * (?w + 1) = i + c"
    proof -
      assume "n - c \<noteq> 0"
      then have "c = 32 - ?b" by (simp add: c_def split: if_splits)
      then show "32 * (?w + 1) = i + c" by (simp only: next_word)
    qed
    have "\<exists>bm'. do { (bitmap, word, blocks) \<leftarrow> write_words bm1 (?w + 1) (n - c) (if s then - 1 else 0);
                     (if blocks \<noteq> 0 then write_masked bitmap word (low_mask blocks) s
                      else Some bitmap) } = Some bm' \<and> region_written bm1 (i + c) (n - c) s bm'"
    proof (cases "n - c = 0")
      case True
      then show ?thesis
        by (subst write_words.simps) (auto simp: BITMAP_WORD_SIZE_def region_written_def)
    next
      case False
      with rest write_region_aligned [of "?w + 1" "n - c" bm1 s] assms c len show ?thesis
        by (simp add: bitmap_bits_def)
    qed
    then obtain bm2 where bm2: "do { (bitmap, word, blocks) \<leftarrow> write_words bm1 (?w + 1) (n - c) (if s then - 1 else 0);
                     (if blocks \<noteq> 0 then write_masked bitmap word (low_mask blocks) s
                      else Some bitmap) } = Some bm2" "region_written bm1 (i + c) (n - c) s bm2"
      by blast
    have "region_written bm i n s bm2"
      using region_written_trans [OF bm1(2) bm2(2)] c by simp
    moreover have "write_region bm i n s = Some bm2"
      using n b bm1(1) bm2(1) by (simp add: write_region_def BITMAP_WORD_SIZE_def Let_def c_def)
    ultimately show ?thesis by blast
  qed
qed

lemma bitmap_get_spec:
  "i < bitmap_bits bm \<Longrightarrow> bitmap_get bm i = Some (bitmap_bit bm i)"
  by (simp add: bitmap_get_def BITMAP_WORD_SIZE_def mem_simps bitmap_bit_def and_one_eq mod_2_eq_odd
      bit_iff_odd_drop_bit [symmetric] Let_def)

lemma bitmap_set_masked: "bitmap_set bm i = write_masked bm (i div 32) (push_bit (i mod 32) (low_mask 1)) True"
  by (simp add: bitmap_set_def write_masked_def low_mask_def BITMAP_WORD_SIZE_def Let_def)

lemma bitmap_clear_masked: "bitmap_clear bm i = write_masked bm (i div 32) (push_bit (i mod 32) (low_mask 1)) False"
  by (simp add: bitmap_clear_def write_masked_def low_mask_def BITMAP_WORD_SIZE_def Let_def)

lemma bitmap_set_spec:
  "i < bitmap_bits bm \<Longrightarrow> \<exists>bm'. bitmap_set bm i = Some bm' \<and> region_written bm i 1 True bm'"
  using write_masked_spec [of "i div 32" bm "i mod 32" 1 True]
  by (simp add: bitmap_set_masked region_written_def)

lemma bitmap_clear_spec:
  "i < bitmap_bits bm \<Longrightarrow> \<exists>bm'. bitmap_clear bm i = Some bm' \<and> region_written bm i 1 False bm'"
  using write_masked_spec [of "i div 32" bm "i mod 32" 1 False]
  by (simp add: bitmap_clear_masked region_written_def)


section \<open>Searching for a clear bit\<close>

lemma scan_bits_spec:
  assumes "limit \<le> 32"
  shows "case scan_bits bits b limit of
           Some k \<Rightarrow> b \<le> k \<and> k < limit \<and> \<not> bit bits k \<and> (\<forall>j. b \<le> j \<and> j < k \<longrightarrow> bit bits j)
         | None \<Rightarrow> \<forall>j. b \<le> j \<and> j < limit \<longrightarrow> bit bits j"
  using assms
proof (induction bits b limit rule: scan_bits.induct)
  case (1 bits b limit)
  show ?case
  proof (cases "b < limit \<and> bit bits b")
    case True
    then have "bits AND push_bit b 1 \<noteq> 0" using 1 and_single_zero [of b bits] by simp
    with True 1 have "case scan_bits bits (b + 1) limit of
           Some k \<Rightarrow> b + 1 \<le> k \<and> k < limit \<and> \<not> bit bits k \<and> (\<forall>j. b + 1 \<le> j \<and> j < k \<longrightarrow> bit bits j)
         | None \<Rightarrow> \<forall>j. b + 1 \<le> j \<and> j < limit \<longrightarrow> bit bits j" by blast
    moreover have "scan_bits bits b limit = scan_bits bits (b + 1) limit"
      using True \<open>bits AND push_bit b 1 \<noteq> 0\<close> by (subst scan_bits.simps) simp
    ultimately show ?thesis using True
      by (auto split: option.splits) (metis Suc_leI le_neq_implies_less)+
  next
    case False
    with 1 show ?thesis by (subst scan_bits.simps) (auto simp: and_exp_eq_0_iff_not_bit)
  qed
qed

definition first_clear :: "bitmap \<Rightarrow> nat \<Rightarrow> nat \<Rightarrow> nat option \<Rightarrow> bool" where
  "first_clear bm lo hi r \<longleftrightarrow> (case r of
       Some k \<Rightarrow> lo \<le> k \<and> k < hi \<and> \<not> bitmap_bit bm k \<and> (\<forall>j. lo \<le> j \<and> j < k \<longrightarrow> bitmap_bit bm j)
     | None \<Rightarrow> \<forall>j. lo \<le> j \<and> j < hi \<longrightarrow> bitmap_bit bm j)"

lemma first_clear_word:
  assumes "limit \<le> 32"
  shows "first_clear bm (w * 32) (w * 32 + limit) (map_option (\<lambda>b. w * 32 + b) (scan_bits (bm ! w) 0 limit))"
proof -
  have B: "bitmap_bit bm (w * 32 + k) = bit (bm ! w) k" if "k < 32" for k
    using that by (simp add: bitmap_bit_def)
  have W: "\<exists>k. j = w * 32 + k \<and> k < n" if "w * 32 \<le> j" "j < w * 32 + n" for j n
    using that by (intro exI [of _ "j - w * 32"]) auto
  show ?thesis
  proof (cases "scan_bits (bm ! w) 0 limit")
    case None
    then show ?thesis
      using scan_bits_spec [OF assms, where bits = "bm ! w" and b = 0] assms B
      by (auto simp: first_clear_def dest!: W)
  next
    case (Some k)
    then have k: "k < limit" "\<not> bit (bm ! w) k" "\<forall>j<k. bit (bm ! w) j"
      using scan_bits_spec [OF assms, where bits = "bm ! w" and b = 0] by simp_all
    then have "\<not> bitmap_bit bm (w * 32 + k)"
      using assms B by simp
    moreover have "\<forall>j. w * 32 \<le> j \<and> j < w * 32 + k \<longrightarrow> bitmap_bit bm j"
      using k assms B by (auto dest!: W)
    ultimately show ?thesis using Some k by (simp add: first_clear_def)
  qed
qed

lemma first_clear_None_trans:
  assumes "first_clear bm lo mid None" "first_clear bm mid hi r" "lo \<le> mid" "mid \<le> hi"
  shows "first_clear bm lo hi r"
proof -
  have low: "bitmap_bit bm j" if "lo \<le> j" "j < mid" for j
    using assms(1) that by (simp add: first_clear_def)
  show ?thesis
  proof (cases r)
    case None
    with assms(2) low show ?thesis by (force simp: first_clear_def not_less)
  next
    case (Some k)
    with assms(2) have "bitmap_bit bm j" if "mid \<le> j" "j < k" for j
      using that by (simp add: first_clear_def)
    with low have "bitmap_bit bm j" if "lo \<le> j" "j < k" for j
      using that by (cases "j < mid") auto
    with Some assms show ?thesis by (simp add: first_clear_def)
  qed
qed

lemma first_clear_widen:
  "first_clear bm lo mid (Some k) \<Longrightarrow> mid \<le> hi \<Longrightarrow> first_clear bm lo hi (Some k)"
  by (auto simp: first_clear_def)

lemma first_clear_full_word:
  assumes "bm ! w = - 1"
  shows "first_clear bm (w * 32) (w * 32 + 32) None"
proof -
  have "bitmap_bit bm j" if "w * 32 \<le> j" "j < w * 32 + 32" for j
  proof -
    have "j div 32 = w" using that by (intro div_nat_eqI) simp_all
    with assms show ?thesis by (simp add: bitmap_bit_def)
  qed
  then show ?thesis by (simp add: first_clear_def)
qed

lemma scan_words_spec:
  assumes "words \<le> length bm"
  shows "\<exists>r. scan_words bm w words = Some r \<and> first_clear bm (w * 32) (words * 32) r"
  using assms
proof (induction bm w words rule: scan_words.induct)
  case (1 bm w words)
  show ?case
  proof (cases "w < words")
    case False
    then show ?thesis by (subst scan_words.simps) (auto simp: first_clear_def)
  next
    case True
    with 1 have w: "load bm w = Some (bm ! w)" by (simp add: mem_simps)
    have word: "first_clear bm (w * 32) (w * 32 + 32) (map_option (\<lambda>b. w * 32 + b) (scan_bits (bm ! w) 0 32))"
      by (rule first_clear_word) simp
    have hi: "w * 32 + 32 \<le> words * 32" using True by simp
    show ?thesis
    proof (cases "bm ! w = - 1 \<or> scan_bits (bm ! w) 0 32 = None")
      case skip: True
      then have here: "first_clear bm (w * 32) (w * 32 + 32) None"
        using word first_clear_full_word by auto
      obtain r where r: "scan_words bm (w + 1) words = Some r" "first_clear bm ((w + 1) * 32) (words * 32) r"
        using 1 True w skip BITMAP_WORD_SIZE_def by auto
      have "scan_words bm w words = Some r"
        using True w skip r(1) by (subst scan_words.simps) (auto simp: BITMAP_WORD_SIZE_def)
      moreover have "first_clear bm (w * 32) (words * 32) r"
        by (rule first_clear_None_trans [OF here _ _ hi]) (use r(2) in \<open>simp_all add: add.commute\<close>)
      ultimately show ?thesis by blast
    next
      case False
      then obtain b where b: "scan_bits (bm ! w) 0 32 = Some b" "bm ! w \<noteq> - 1" by blast
      have "scan_words bm w words = Some (Some (w * 32 + b))"
        using True w b by (subst scan_words.simps) (simp add: BITMAP_WORD_SIZE_def)
      moreover have "first_clear bm (w * 32) (words * 32) (Some (w * 32 + b))"
        using word b by (intro first_clear_widen [OF _ hi]) simp
      ultimately show ?thesis by blast
    qed
  qed
qed

lemma tail_word_index:
  assumes "(n::nat) \<le> 32 * l" "n mod 32 \<noteq> 0"
  shows "n div 32 < l"
proof -
  obtain q r where "n = 32 * q + r" "r < 32"
    by (metis mod_less_divisor mult_div_mod_eq zero_less_numeral)
  with assms show ?thesis by simp
qed

lemma bitmap_find_first_clear_spec:
  assumes "n \<le> bitmap_bits bm"
  shows "\<exists>r. bitmap_find_first_clear (Some bm) n (Some old) =
             Some (case r of Some k \<Rightarrow> (True, Some k) | None \<Rightarrow> (False, Some old)) \<and> first_clear bm 0 n r"
proof -
  let ?q = "n div 32" and ?m = "n mod 32"
  have n: "?q * 32 + ?m = n" by simp
  have le: "?q \<le> length bm" using assms by (simp add: bitmap_bits_def)
  obtain r where r: "scan_words bm 0 ?q = Some r" "first_clear bm 0 (?q * 32) r"
    using scan_words_spec [OF le, of 0] by auto
  consider (found) k where "r = Some k" | (aligned) "r = None" "?m = 0" | (tail) "r = None" "?m \<noteq> 0"
    by (cases r) auto
  then show ?thesis
  proof cases
    case found
    with r first_clear_widen [of bm 0 "?q * 32" k n] show ?thesis
      by (intro exI [of _ r]) (simp add: bitmap_find_first_clear_def BITMAP_WORD_SIZE_def)
  next
    case aligned
    with r n show ?thesis
      by (intro exI [of _ r]) (simp add: bitmap_find_first_clear_def BITMAP_WORD_SIZE_def)
  next
    case tail
    let ?t = "map_option (\<lambda>b. ?q * 32 + b) (scan_bits (bm ! ?q) 0 ?m)"
    have "?q < length bm" using tail_word_index assms tail by (simp add: bitmap_bits_def)
    then have "bitmap_find_first_clear (Some bm) n (Some old) =
               Some (case ?t of Some k \<Rightarrow> (True, Some k) | None \<Rightarrow> (False, Some old))"
      using r(1) tail
      by (simp add: bitmap_find_first_clear_def BITMAP_WORD_SIZE_def mem_simps split: option.split)
    moreover have "first_clear bm (?q * 32) n ?t"
      using first_clear_word [of ?m bm ?q] by simp
    then have "first_clear bm 0 n ?t"
      using r(2) tail(1) by (auto intro: first_clear_None_trans)
    ultimately show ?thesis by blast
  qed
qed


section \<open>Properties\<close>

text \<open>The region writer one bit at a time, over the single-bit operations.\<close>

fun write_each :: "bitmap \<Rightarrow> nat \<Rightarrow> nat \<Rightarrow> bool \<Rightarrow> bitmap exec" where
  "write_each bm i 0 s = Some bm"
| "write_each bm i (Suc n) s =
     do { bm \<leftarrow> (if s then bitmap_set bm i else bitmap_clear bm i); write_each bm (i + 1) n s }"

lemma bitmap_eqI:
  assumes "length bm = length bm'" "\<And>j. bitmap_bit bm j = bitmap_bit bm' j"
  shows "bm = bm'"
proof (rule nth_equalityI)
  fix k assume "k < length bm"
  show "bm ! k = bm' ! k"
  proof (rule bit_word_eqI)
    fix b assume "b < LENGTH(32)"
    then show "bit (bm ! k) b = bit (bm' ! k) b"
      using assms(2) [of "32 * k + b"] by (simp add: bitmap_bit_def)
  qed
qed (rule assms(1))

lemma region_written_unique:
  "region_written bm i n s bm1 \<Longrightarrow> region_written bm i n s bm2 \<Longrightarrow> bm1 = bm2"
  by (rule bitmap_eqI) (simp_all add: region_written_def)

lemma write_each_spec:
  assumes "i + n \<le> bitmap_bits bm"
  shows "\<exists>bm'. write_each bm i n s = Some bm' \<and> region_written bm i n s bm'"
  using assms
proof (induction n arbitrary: bm i)
  case 0
  then show ?case by (auto simp: region_written_def)
next
  case (Suc n)
  obtain bm1 where bm1: "(if s then bitmap_set bm i else bitmap_clear bm i) = Some bm1" "region_written bm i 1 s bm1"
    using Suc.prems bitmap_set_spec [of i bm] bitmap_clear_spec [of i bm] by (cases s) auto
  then have "(i + 1) + n \<le> bitmap_bits bm1"
    using Suc.prems by (simp add: region_written_def bitmap_bits_def)
  then obtain bm2 where "write_each bm1 (i + 1) n s = Some bm2" "region_written bm1 (i + 1) n s bm2"
    using Suc.IH by blast
  then show ?case using bm1 region_written_trans [OF bm1(2)] by auto
qed

text \<open>
  (C29) The word-at-a-time region writer \<open>write_region\<close> behind \<open>bitmap_set_region\<close> and
  \<open>bitmap_clear_region\<close> stays inside the bitmap and produces exactly the bitmap that setting (or
  clearing) the bits of the region one by one with \<open>bitmap_set\<close> (\<open>bitmap_clear\<close>) produces.
\<close>

theorem write_region_eq_write_each:
  assumes "i + n \<le> bitmap_bits bm"
  shows "\<exists>bm'. write_region bm i n s = Some bm' \<and> write_each bm i n s = Some bm'"
  using write_region_spec [OF assms, of s] write_each_spec [OF assms, of s] region_written_unique by blast

theorem write_region_eq_write_each_witness:
  "5 + 40 \<le> bitmap_bits [0, 0xF0, 0] \<and>
   (\<exists>bm'. write_region [0, 0xF0, 0] 5 40 True = Some bm' \<and> write_each [0, 0xF0, 0] 5 40 True = Some bm')"
  using write_region_eq_write_each [of 5 40 "[0, 0xF0, 0]" True] by (simp add: bitmap_bits_def)

text \<open>
  (C30) \<open>bitmap_find_first_clear\<close> over \<open>n\<close> bits reads only the bitmap's words and returns the
  least clear index below \<open>n\<close>; it returns false, leaving the output untouched, exactly when all
  \<open>n\<close> bits are set.
\<close>

theorem bitmap_find_first_clear_correct:
  assumes "n \<le> bitmap_bits bm"
  shows "bitmap_find_first_clear (Some bm) n (Some old) =
           (if \<exists>k<n. \<not> bitmap_bit bm k then Some (True, Some (LEAST k. \<not> bitmap_bit bm k))
            else Some (False, Some old))"
proof -
  obtain r where r: "bitmap_find_first_clear (Some bm) n (Some old) =
      Some (case r of Some k \<Rightarrow> (True, Some k) | None \<Rightarrow> (False, Some old))" "first_clear bm 0 n r"
    using bitmap_find_first_clear_spec [OF assms] by blast
  show ?thesis
  proof (cases r)
    case None
    then show ?thesis using r by (auto simp: first_clear_def)
  next
    case (Some k)
    then have k: "k < n" "\<not> bitmap_bit bm k" "\<And>j. j < k \<Longrightarrow> bitmap_bit bm j"
      using r(2) by (auto simp: first_clear_def)
    then have "(LEAST k. \<not> bitmap_bit bm k) = k"
      by (intro Least_equality) (auto simp: not_less [symmetric])
    then show ?thesis using Some r(1) k by auto
  qed
qed

theorem bitmap_find_first_clear_witness:
  "40 \<le> bitmap_bits [- 1, 7] \<and>
   bitmap_find_first_clear (Some [- 1, 7]) 40 (Some 0) = Some (True, Some 35) \<and>
   (LEAST k. \<not> bitmap_bit [- 1, 7] k) = 35"
proof -
  have le: "40 \<le> bitmap_bits [- 1, 7]" by (simp add: bitmap_bits_def)
  have "bitmap_find_first_clear (Some [- 1, 7]) 40 (Some 0) = Some (True, Some 35)" by code_simp
  then show ?thesis
    using le bitmap_find_first_clear_correct [OF le, of 0] by (simp split: if_splits)
qed

end
