(* ===== verification/Bitmap_Alloc.thy ===== *)
theory Bitmap_Alloc
  imports Bitmap
begin

text \<open>
  The bitmap block allocator of \<open>libs/alloc/bitmap.c\<close>, which backs the kernel heap and the
  physical memory allocators. An address is a number, \<open>0\<close> being \<open>NULL\<close>; the field
  \<open>ba_bitmap\<close> is the content of the words at \<open>chunk_start\<close>, where the code keeps the
  bitmap.
\<close>

record bitmap_allocator =
  ba_chunk_start :: nat
  ba_chunk_size :: size_t
  ba_block_size :: size_t
  ba_block_count :: size_t
  ba_usable_blocks :: size_t
  ba_free_blocks :: size_t
  ba_word_count :: size_t
  ba_bitmap :: bitmap
  ba_next_fit_block :: size_t

definition DIV_ROUND_UP :: "size_t \<Rightarrow> size_t \<Rightarrow> size_t" where
  "DIV_ROUND_UP a b = sz_sub (sz_add a b) 1 div b"

definition bitmap_alloc_to_block :: "bitmap_allocator \<Rightarrow> nat \<Rightarrow> size_t" where
  "bitmap_alloc_to_block alloc ptr = sz_sub ptr (ba_chunk_start alloc) div ba_block_size alloc"

definition bitmap_alloc_to_ptr :: "bitmap_allocator \<Rightarrow> size_t \<Rightarrow> nat" where
  "bitmap_alloc_to_ptr alloc block =
     sz_add (ba_chunk_start alloc) (sz_mul block (ba_block_size alloc))"

definition bitmap_alloc_init ::
  "bitmap_allocator ptr \<Rightarrow> nat \<Rightarrow> size_t \<Rightarrow> size_t \<Rightarrow> (bool \<times> bitmap_allocator ptr) exec" where
  "bitmap_alloc_init alloc chunk_start chunk_size block_size =
     (case alloc of
        None \<Rightarrow> Some (False, alloc)
      | Some a \<Rightarrow>
          if chunk_start = 0 \<or> chunk_size = 0 \<or> block_size = 0 then Some (False, alloc)
          else let block_count = chunk_size div block_size in
          if block_count = 0 then Some (False, alloc)
          else let word_count = DIV_ROUND_UP block_count BITMAP_WORD_SIZE in
          if SIZE_MAX div 4 < word_count then Some (False, alloc)
          else let bitmap_bytes = word_count * 4;
                   bitmap_blocks = DIV_ROUND_UP bitmap_bytes block_size in
          if bitmap_blocks = 0 \<or> block_count \<le> bitmap_blocks then Some (False, alloc)
          else let free_blocks = block_count - bitmap_blocks in
          do { bitmap \<leftarrow> bitmap_set_region (replicate word_count 0) 0 bitmap_blocks;
               Some (True, Some (a\<lparr>ba_chunk_start := chunk_start, ba_chunk_size := chunk_size,
                 ba_block_size := block_size, ba_block_count := block_count,
                 ba_word_count := word_count, ba_bitmap := bitmap,
                 ba_free_blocks := free_blocks, ba_usable_blocks := free_blocks,
                 ba_next_fit_block := bitmap_blocks\<rparr>)) })"

text \<open>
  \<open>first_fit_in_range\<close>: the loop over blocks. A fully used word that lies inside the
  range is skipped in one step (\<open>block += 31\<close> and the loop's \<open>block++\<close>).
\<close>

function first_fit_loop ::
  "bitmap \<Rightarrow> size_t \<Rightarrow> size_t \<Rightarrow> size_t \<Rightarrow> size_t \<Rightarrow> size_t \<Rightarrow> size_t option exec" where
  "first_fit_loop bitmap blocks end block region_bottom region_size =
     (if block < end
      then let b = block mod BITMAP_WORD_SIZE; word = block div BITMAP_WORD_SIZE in
        do { bits \<leftarrow> load bitmap word;
             if b = 0 \<and> bits = - 1 \<and> BITMAP_WORD_SIZE \<le> end - block
             then first_fit_loop bitmap blocks end (block + (BITMAP_WORD_SIZE - 1) + 1) region_bottom 0
             else if bits AND push_bit b 1 \<noteq> 0
             then first_fit_loop bitmap blocks end (block + 1) region_bottom 0
             else let region_bottom = (if region_size = 0 then block else region_bottom);
                      region_size = region_size + 1 in
               if region_size = blocks then Some (Some region_bottom)
               else first_fit_loop bitmap blocks end (block + 1) region_bottom region_size }
      else Some None)"
  by pat_completeness auto
termination
  by (relation "measure (\<lambda>(bitmap, blocks, end, block, region_bottom, region_size). end - block)") auto

declare first_fit_loop.simps [simp del]

definition first_fit_in_range ::
  "bitmap_allocator ptr \<Rightarrow> size_t \<Rightarrow> size_t \<Rightarrow> size_t \<Rightarrow> size_t ptr \<Rightarrow> (bool \<times> size_t ptr) exec" where
  "first_fit_in_range alloc blocks begin end out_block =
     (case (alloc, out_block) of
        (Some a, Some old) \<Rightarrow>
          if blocks = 0 \<or> end \<le> begin then Some (False, out_block)
          else do { r \<leftarrow> first_fit_loop (ba_bitmap a) blocks end begin 0 0;
                    case r of Some k \<Rightarrow> Some (True, Some k) | None \<Rightarrow> Some (False, out_block) }
      | _ \<Rightarrow> Some (False, out_block))"

definition first_fit :: "bitmap_allocator ptr \<Rightarrow> size_t \<Rightarrow> size_t ptr \<Rightarrow> (bool \<times> size_t ptr) exec" where
  "first_fit alloc blocks out_block =
     (case (alloc, out_block) of
        (Some a, Some old) \<Rightarrow>
          if blocks = 0 then Some (False, out_block)
          else let start = (if ba_block_count a \<le> ba_next_fit_block a then 0 else ba_next_fit_block a) in
          do { (found, out_block) \<leftarrow> first_fit_in_range alloc blocks start (ba_block_count a) out_block;
               if found then Some (True, out_block)
               else do { (found, out_block) \<leftarrow>
                           (if start \<noteq> 0 then first_fit_in_range alloc blocks 0 start out_block
                            else Some (False, out_block));
                         if found then Some (True, out_block)
                         else first_fit_in_range alloc blocks 0 (ba_block_count a) out_block } }
      | _ \<Rightarrow> Some (False, out_block))"

text \<open>
  \<open>last_fit\<close>: the loop over the bits of one word, from high to low, and the loop over the
  words. Both carry \<open>region_size\<close> and \<open>region_top\<close>.
\<close>

fun last_fit_bits ::
  "bitmap \<Rightarrow> size_t \<Rightarrow> size_t \<Rightarrow> size_t \<Rightarrow> nat \<Rightarrow> size_t \<Rightarrow> size_t \<Rightarrow> (size_t option \<times> size_t \<times> size_t) exec" where
  "last_fit_bits bitmap block_count blocks word_index 0 region_size region_top =
     Some (None, region_size, region_top)"
| "last_fit_bits bitmap block_count blocks word_index (Suc bit_index) region_size region_top =
     (let block = word_index * BITMAP_WORD_SIZE + bit_index in
      if block_count \<le> block
      then last_fit_bits bitmap block_count blocks word_index bit_index 0 block
      else do { bits \<leftarrow> load bitmap word_index;
                if bits AND push_bit bit_index 1 \<noteq> 0
                then last_fit_bits bitmap block_count blocks word_index bit_index 0 block
                else if region_size + 1 = blocks
                then Some (Some (sz_sub region_top blocks), region_size + 1, region_top)
                else last_fit_bits bitmap block_count blocks word_index bit_index (region_size + 1) region_top })"

fun last_fit_words ::
  "bitmap \<Rightarrow> size_t \<Rightarrow> size_t \<Rightarrow> nat \<Rightarrow> size_t \<Rightarrow> size_t \<Rightarrow> size_t option exec" where
  "last_fit_words bitmap block_count blocks 0 region_size region_top = Some None"
| "last_fit_words bitmap block_count blocks (Suc word_index) region_size region_top =
     do { bits \<leftarrow> load bitmap word_index;
          if bits = - 1
          then last_fit_words bitmap block_count blocks word_index 0 (word_index * BITMAP_WORD_SIZE)
          else do { (found, region_size, region_top) \<leftarrow>
                      last_fit_bits bitmap block_count blocks word_index BITMAP_WORD_SIZE region_size region_top;
                    case found of
                      Some k \<Rightarrow> Some (Some k)
                    | None \<Rightarrow> last_fit_words bitmap block_count blocks word_index region_size region_top } }"

definition last_fit :: "bitmap_allocator ptr \<Rightarrow> size_t \<Rightarrow> size_t ptr \<Rightarrow> (bool \<times> size_t ptr) exec" where
  "last_fit alloc blocks out_block =
     (case (alloc, out_block) of
        (Some a, Some old) \<Rightarrow>
          if blocks = 0 then Some (False, out_block)
          else do { r \<leftarrow> last_fit_words (ba_bitmap a) (ba_block_count a) blocks (ba_word_count a) 0 (ba_block_count a);
                    case r of Some k \<Rightarrow> Some (True, Some k) | None \<Rightarrow> Some (False, out_block) }
      | _ \<Rightarrow> Some (False, out_block))"

definition bitmap_alloc_reserve :: "bitmap_allocator ptr \<Rightarrow> size_t \<Rightarrow> (nat \<times> bitmap_allocator ptr) exec" where
  "bitmap_alloc_reserve alloc blocks =
     (case alloc of
        None \<Rightarrow> Some (0, alloc)
      | Some a \<Rightarrow>
          if blocks = 0 \<or> ba_free_blocks a < blocks then Some (0, alloc)
          else do { (found, out) \<leftarrow> first_fit alloc blocks (Some 0);
                    if \<not> found then Some (0, alloc)
                    else do { first_block \<leftarrow> out;
                      bitmap \<leftarrow> bitmap_set_region (ba_bitmap a) first_block blocks;
                      let next = first_block + blocks;
                          next = (if ba_block_count a \<le> next then 0 else next);
                          a = a\<lparr>ba_bitmap := bitmap, ba_next_fit_block := next,
                                ba_free_blocks := ba_free_blocks a - blocks\<rparr> in
                      Some (bitmap_alloc_to_ptr a first_block, Some a) } })"

definition bitmap_alloc_high :: "bitmap_allocator ptr \<Rightarrow> size_t \<Rightarrow> (nat \<times> bitmap_allocator ptr) exec" where
  "bitmap_alloc_high alloc blocks =
     (case alloc of
        None \<Rightarrow> Some (0, alloc)
      | Some a \<Rightarrow>
          if blocks = 0 \<or> ba_free_blocks a < blocks then Some (0, alloc)
          else do { (found, out) \<leftarrow> last_fit alloc blocks (Some 0);
                    if \<not> found then Some (0, alloc)
                    else do { first_block \<leftarrow> out;
                      bitmap \<leftarrow> bitmap_set_region (ba_bitmap a) first_block blocks;
                      let a = a\<lparr>ba_bitmap := bitmap, ba_free_blocks := ba_free_blocks a - blocks\<rparr> in
                      Some (bitmap_alloc_to_ptr a first_block, Some a) } })"

text \<open>The double-free check: every block of the range must still be marked used.\<close>

fun all_used :: "bitmap \<Rightarrow> size_t \<Rightarrow> nat \<Rightarrow> bool exec" where
  "all_used bitmap block 0 = Some True"
| "all_used bitmap block (Suc n) =
     do { used \<leftarrow> bitmap_get bitmap block;
          if \<not> used then Some False else all_used bitmap (block + 1) n }"

definition bitmap_alloc_free ::
  "bitmap_allocator ptr \<Rightarrow> nat \<Rightarrow> size_t \<Rightarrow> (bool \<times> bitmap_allocator ptr) exec" where
  "bitmap_alloc_free alloc ptr blocks =
     (case alloc of
        None \<Rightarrow> Some (False, alloc)
      | Some a \<Rightarrow>
          if ptr = 0 \<or> blocks = 0
             \<or> ba_block_size a = 0 \<or> ba_block_count a = 0 \<or> ba_chunk_size a = 0 then Some (False, alloc)
          else let start = ba_chunk_start a; end = sz_add start (ba_chunk_size a) in
          if end \<le> start \<or> ptr < start \<or> end \<le> ptr
             \<or> ba_chunk_size a div ba_block_size a < ba_block_count a then Some (False, alloc)
          else if (ptr - start) mod ba_block_size a \<noteq> 0 then Some (False, alloc)
          else let first_block = bitmap_alloc_to_block a ptr in
          if ba_block_count a \<le> first_block \<or> ba_block_count a - first_block < blocks then Some (False, alloc)
          else do { used \<leftarrow> all_used (ba_bitmap a) first_block blocks;
                    if \<not> used then Some (False, alloc)
                    else do { bitmap \<leftarrow> bitmap_clear_region (ba_bitmap a) first_block blocks;
                      let next = (if first_block < ba_next_fit_block a then first_block else ba_next_fit_block a);
                          free = (if sz_sub (ba_block_count a) (ba_free_blocks a) < blocks
                                  then ba_block_count a else ba_free_blocks a + blocks) in
                      Some (True, Some (a\<lparr>ba_bitmap := bitmap, ba_next_fit_block := next,
                                          ba_free_blocks := free\<rparr>)) } })"


section \<open>Runs of free blocks\<close>

definition free_run :: "bitmap \<Rightarrow> nat \<Rightarrow> nat \<Rightarrow> bool" where
  "free_run bm b n \<longleftrightarrow> (\<forall>j. b \<le> j \<and> j < b + n \<longrightarrow> \<not> bitmap_bit bm j)"

definition used_run :: "bitmap \<Rightarrow> nat \<Rightarrow> nat \<Rightarrow> bool" where
  "used_run bm b n \<longleftrightarrow> (\<forall>j. b \<le> j \<and> j < b + n \<longrightarrow> bitmap_bit bm j)"

text \<open>The lowest fit in \<open>[lo, hi)\<close>, or none exists; and the highest fit below \<open>hi\<close>.\<close>

definition lowest_fit :: "bitmap \<Rightarrow> nat \<Rightarrow> nat \<Rightarrow> nat \<Rightarrow> nat option \<Rightarrow> bool" where
  "lowest_fit bm n lo hi r \<longleftrightarrow> (case r of
       Some k \<Rightarrow> lo \<le> k \<and> k + n \<le> hi \<and> free_run bm k n \<and> (\<forall>s. lo \<le> s \<and> s < k \<longrightarrow> \<not> free_run bm s n)
     | None \<Rightarrow> \<forall>s. lo \<le> s \<and> s + n \<le> hi \<longrightarrow> \<not> free_run bm s n)"

definition highest_fit :: "bitmap \<Rightarrow> nat \<Rightarrow> nat \<Rightarrow> nat option \<Rightarrow> bool" where
  "highest_fit bm n hi r \<longleftrightarrow> (case r of
       Some k \<Rightarrow> k + n \<le> hi \<and> free_run bm k n \<and> (\<forall>s. k < s \<and> s + n \<le> hi \<longrightarrow> \<not> free_run bm s n)
     | None \<Rightarrow> \<forall>s. s + n \<le> hi \<longrightarrow> \<not> free_run bm s n)"

lemma free_run_0 [simp]: "free_run bm b 0"
  by (auto simp: free_run_def)

lemma free_run_Suc_end: "free_run bm b n \<Longrightarrow> \<not> bitmap_bit bm (b + n) \<Longrightarrow> free_run bm b (n + 1)"
  by (auto simp: free_run_def less_Suc_eq)

lemma free_run_Suc_start: "free_run bm (Suc b) n \<Longrightarrow> \<not> bitmap_bit bm b \<Longrightarrow> free_run bm b (n + 1)"
  by (auto simp: free_run_def) (metis le_neq_implies_less Suc_leI)

lemma not_free_run: "bitmap_bit bm j \<Longrightarrow> s \<le> j \<Longrightarrow> j < s + n \<Longrightarrow> \<not> free_run bm s n"
  by (auto simp: free_run_def)

text \<open>State of the forward scan at \<open>block\<close>: a free run of \<open>sz\<close> blocks ends there, and no
  earlier start fits.\<close>

definition scan_state :: "bitmap \<Rightarrow> nat \<Rightarrow> nat \<Rightarrow> nat \<Rightarrow> nat \<Rightarrow> nat \<Rightarrow> bool" where
  "scan_state bm n lo block bottom sz \<longleftrightarrow>
     lo + sz \<le> block \<and> sz < n \<and> (0 < sz \<longrightarrow> bottom + sz = block) \<and>
     free_run bm (block - sz) sz \<and> (\<forall>s. lo \<le> s \<and> s + sz < block \<longrightarrow> \<not> free_run bm s n)"

lemma scan_state_used:
  assumes "scan_state bm n lo block bottom sz" "block < k"
    and "\<And>j. block \<le> j \<Longrightarrow> j < k \<Longrightarrow> bitmap_bit bm j"
  shows "scan_state bm n lo k bottom 0"
proof -
  have "\<not> free_run bm s n" if s: "lo \<le> s" "s < k" for s
  proof (cases "s + sz < block")
    case True
    with assms s show ?thesis by (simp add: scan_state_def)
  next
    case False
    then have "max s block < s + n" "max s block < k"
      using assms s by (auto simp: scan_state_def)
    then show ?thesis
      using not_free_run [of bm "max s block" s n] assms(3) by simp
  qed
  then show ?thesis using assms by (simp add: scan_state_def)
qed

lemma scan_state_free:
  assumes "scan_state bm n lo block bottom sz" "\<not> bitmap_bit bm block" "sz + 1 < n"
  shows "scan_state bm n lo (block + 1) (if sz = 0 then block else bottom) (sz + 1)"
  using assms free_run_Suc_end [of bm "block - sz" sz] by (auto simp: scan_state_def)

lemma scan_state_found:
  assumes "scan_state bm n lo block bottom sz" "\<not> bitmap_bit bm block" "sz + 1 = n" "block < hi"
  shows "lowest_fit bm n lo hi (Some (if sz = 0 then block else bottom))"
  using assms free_run_Suc_end [of bm "block - sz" sz] by (auto simp: scan_state_def lowest_fit_def)

lemma full_word_used:
  assumes "block mod 32 = 0" "bm ! (block div 32) = - 1" "block \<le> j" "j < block + 32"
  shows "bitmap_bit bm j"
proof -
  obtain q where q: "block = 32 * q" using assms(1) by (metis mult_div_mod_eq add_0_right)
  then have "j div 32 = q" using assms by (intro div_nat_eqI) simp_all
  with q assms show ?thesis by (simp add: bitmap_bit_def)
qed

lemma first_fit_loop_spec:
  assumes "scan_state bm n lo block bottom sz" "block \<le> hi" "hi \<le> bitmap_bits bm"
  shows "\<exists>r. first_fit_loop bm n hi block bottom sz = Some r \<and> lowest_fit bm n lo hi r"
  using assms
proof (induction bm n hi block bottom sz rule: first_fit_loop.induct)
  case (1 bm n hi block bottom sz)
  note step = first_fit_loop.simps [of bm n hi block bottom sz]
  show ?case
  proof (cases "block < hi")
    case False
    with 1 have "block = hi" by simp
    then have "lowest_fit bm n lo hi None"
      using 1 by (auto simp: lowest_fit_def scan_state_def)
    with False show ?thesis by (subst step) simp
  next
    case lt: True
    let ?bits = "bm ! (block div 32)"
    have ld: "load bm (block div 32) = Some ?bits"
      using lt 1 by (intro load_ok word_index) simp
    then have ldw: "load bm (block div BITMAP_WORD_SIZE) = Some ?bits"
      by (simp add: BITMAP_WORD_SIZE_def)
    have bit: "?bits AND push_bit (block mod 32) 1 \<noteq> 0 \<longleftrightarrow> bitmap_bit bm block"
      by (simp add: and_exp_eq_0_iff_not_bit bitmap_bit_def)
    let ?full = "block mod 32 = 0 \<and> ?bits = - 1 \<and> 32 \<le> hi - block"
    consider (full) "block mod 32 = 0" "?bits = - 1" "32 \<le> hi - block" | (used) "\<not> ?full" "bitmap_bit bm block" | (free) "\<not> ?full" "\<not> bitmap_bit bm block"
      by satx
    then show ?thesis
    proof cases
      case full
      then have "bitmap_bit bm j" if "block \<le> j" "j < block + 31 + 1" for j
        using that by (intro full_word_used) (assumption | linarith)+
      then have "scan_state bm n lo (block + 31 + 1) bottom 0"
        by (intro scan_state_used [OF 1(4)]) simp_all
      then have "\<exists>r. first_fit_loop bm n hi (block + 31 + 1) bottom 0 = Some r \<and> lowest_fit bm n lo hi r"
        using 1(1) [OF lt refl refl ldw] 1(5,6) full lt by (simp add: BITMAP_WORD_SIZE_def)
      with lt ld full show ?thesis by (subst step) (auto simp: BITMAP_WORD_SIZE_def Let_def)
    next
      case used
      then have "scan_state bm n lo (block + 1) bottom 0"
        using 1 by (intro scan_state_used [OF 1(4)]) (auto simp: less_Suc_eq)
      then have "\<exists>r. first_fit_loop bm n hi (block + 1) bottom 0 = Some r \<and> lowest_fit bm n lo hi r"
        using 1(2) [OF lt refl refl ldw] 1(5,6) used bit lt by (simp add: BITMAP_WORD_SIZE_def)
      moreover have "first_fit_loop bm n hi block bottom sz = first_fit_loop bm n hi (block + 1) bottom 0"
        using lt ld used bit by (subst step) (auto simp: BITMAP_WORD_SIZE_def Let_def)
      ultimately show ?thesis by simp
    next
      case free
      let ?bot = "if sz = 0 then block else bottom"
      show ?thesis
      proof (cases "sz + 1 = n")
        case True
        then have "first_fit_loop bm n hi block bottom sz = Some (Some ?bot)"
          using lt ld free bit by (subst step) (auto simp: BITMAP_WORD_SIZE_def Let_def)
        with scan_state_found [OF 1(4) free(2) True lt] show ?thesis by blast
      next
        case False
        then have "scan_state bm n lo (block + 1) ?bot (sz + 1)"
          using 1 free by (intro scan_state_free) (auto simp: scan_state_def)
        then have "\<exists>r. first_fit_loop bm n hi (block + 1) ?bot (sz + 1) = Some r \<and> lowest_fit bm n lo hi r"
          using 1(3) [OF lt refl refl ldw] 1(5,6) free bit lt False by (simp add: BITMAP_WORD_SIZE_def)
        moreover have "first_fit_loop bm n hi block bottom sz = first_fit_loop bm n hi (block + 1) ?bot (sz + 1)"
          using lt ld free bit False by (subst step) (auto simp: BITMAP_WORD_SIZE_def Let_def)
        ultimately show ?thesis by simp
      qed
    qed
  qed
qed

text \<open>
  State of the backward scan with every block at or above \<open>p\<close> seen: a free run of
  \<open>sz\<close> blocks starts at \<open>p\<close>, its tp is \<open>tp\<close>, and no run that ends above
  \<open>tp\<close> fits.
\<close>

definition down_state :: "bitmap \<Rightarrow> nat \<Rightarrow> nat \<Rightarrow> nat \<Rightarrow> nat \<Rightarrow> nat \<Rightarrow> bool" where
  "down_state bm n hi p sz tp \<longleftrightarrow> sz < n \<and>
     (p \<le> hi \<longrightarrow> tp = p + sz \<and> tp \<le> hi \<and> free_run bm p sz) \<and> (hi < p \<longrightarrow> sz = 0) \<and>
     (\<forall>s. p + sz < s + n \<and> s + n \<le> hi \<longrightarrow> \<not> free_run bm s n)"

lemma down_state_beyond: "0 < n \<Longrightarrow> hi \<le> p \<Longrightarrow> down_state bm n hi p 0 p"
  by (auto simp: down_state_def)

lemma down_state_used:
  assumes "down_state bm n hi q sz tp" "p < q" "\<And>j. p \<le> j \<Longrightarrow> j < q \<Longrightarrow> j < hi \<Longrightarrow> bitmap_bit bm j"
  shows "down_state bm n hi p 0 p"
proof -
  have "\<not> free_run bm s n" if s: "p < s + n" "s + n \<le> hi" for s
  proof (cases "q + sz < s + n")
    case True
    with assms s show ?thesis by (simp add: down_state_def)
  next
    case False
    then have "s < q" "0 < n" using assms(1) by (auto simp: down_state_def)
    then have "max s p < s + n" "max s p < q" "max s p < hi" using s assms(2) by auto
    then show ?thesis using not_free_run [of bm "max s p" s n] assms(3) by simp
  qed
  then show ?thesis using assms(1) by (auto simp: down_state_def)
qed

lemma down_state_free:
  assumes "down_state bm n hi (Suc p) sz tp" "\<not> bitmap_bit bm p" "p < hi" "sz + 1 < n"
  shows "down_state bm n hi p (sz + 1) tp"
  using assms free_run_Suc_start [of bm p sz] by (auto simp: down_state_def)

lemma down_state_found:
  assumes "down_state bm n hi (Suc p) sz tp" "\<not> bitmap_bit bm p" "p < hi" "sz + 1 = n" "hi \<le> SIZE_MAX"
  shows "sz_sub tp n = p \<and> highest_fit bm n hi (Some p)"
proof -
  have "tp = Suc p + sz" "tp \<le> hi" using assms by (auto simp: down_state_def)
  then have "sz_sub tp n = p" using assms by (simp add: sz_simps)
  moreover have "highest_fit bm n hi (Some p)"
    using assms free_run_Suc_start [of bm p sz] \<open>tp \<le> hi\<close> \<open>tp = Suc p + sz\<close>
    by (auto simp: down_state_def highest_fit_def)
  ultimately show ?thesis ..
qed

lemma last_fit_bits_spec:
  assumes "down_state bm n hi (w * 32 + k) sz tp" "w < length bm" "k \<le> 32" "hi \<le> SIZE_MAX"
  shows "\<exists>r sz' tp'. last_fit_bits bm hi n w k sz tp = Some (r, sz', tp') \<and>
           (case r of Some b \<Rightarrow> highest_fit bm n hi (Some b)
            | None \<Rightarrow> down_state bm n hi (w * 32) sz' tp')"
  using assms
proof (induction k arbitrary: sz tp)
  case 0
  then show ?case by simp
next
  case (Suc k)
  let ?p = "w * 32 + k"
  have k: "k < 32" using Suc.prems by simp
  have n: "0 < n" using Suc.prems(1) by (simp add: down_state_def)
  have bit: "bm ! w AND push_bit k 1 \<noteq> 0 \<longleftrightarrow> bitmap_bit bm ?p"
    using k by (simp add: and_exp_eq_0_iff_not_bit bitmap_bit_def)
  have ld: "load bm w = Some (bm ! w)" using Suc.prems by (simp add: mem_simps)
  consider (out) "hi \<le> ?p" | (used) "?p < hi" "bitmap_bit bm ?p"
    | (found) "?p < hi" "\<not> bitmap_bit bm ?p" "sz + 1 = n" | (free) "?p < hi" "\<not> bitmap_bit bm ?p" "sz + 1 < n"
    using Suc.prems(1) by (fastforce simp: down_state_def)
  then show ?case
  proof cases
    case out
    with Suc.IH [of 0 ?p] Suc.prems n down_state_beyond [of n hi ?p bm] show ?thesis
      by (simp add: BITMAP_WORD_SIZE_def Let_def)
  next
    case used
    have "down_state bm n hi ?p 0 ?p"
      by (rule down_state_used [OF Suc.prems(1)]) (use used in \<open>auto simp: less_Suc_eq\<close>)
    with Suc.IH [of 0 ?p] Suc.prems used ld bit show ?thesis
      by (simp add: BITMAP_WORD_SIZE_def Let_def)
  next
    case found
    then have "sz_sub tp n = ?p \<and> highest_fit bm n hi (Some ?p)"
      using Suc.prems by (intro down_state_found [of bm n hi ?p sz]) simp_all
    with found ld bit show ?thesis
      by (simp add: BITMAP_WORD_SIZE_def Let_def)
  next
    case free
    then have "down_state bm n hi ?p (sz + 1) tp"
      using Suc.prems by (intro down_state_free) simp_all
    with Suc.IH [of "sz + 1" tp] Suc.prems free ld bit show ?thesis
      by (simp add: BITMAP_WORD_SIZE_def Let_def)
  qed
qed

lemma last_fit_words_spec:
  assumes "down_state bm n hi (w * 32) sz tp" "w \<le> length bm" "hi \<le> SIZE_MAX"
  shows "\<exists>r. last_fit_words bm hi n w sz tp = Some r \<and> highest_fit bm n hi r"
  using assms
proof (induction w arbitrary: sz tp)
  case 0
  then show ?case by (auto simp: down_state_def highest_fit_def)
next
  case (Suc w)
  have ld: "load bm w = Some (bm ! w)" using Suc.prems by (simp add: mem_simps)
  show ?case
  proof (cases "bm ! w = - 1")
    case True
    have "bitmap_bit bm j" if "w * 32 \<le> j" "j < Suc w * 32" for j
      using first_clear_full_word [OF True] that by (simp add: first_clear_def)
    then have "down_state bm n hi (w * 32) 0 (w * 32)"
      by (intro down_state_used [OF Suc.prems(1)]) simp_all
    with Suc.IH [of 0 "w * 32"] Suc.prems True ld show ?thesis
      by (simp add: BITMAP_WORD_SIZE_def)
  next
    case False
    have "down_state bm n hi (w * 32 + 32) sz tp" using Suc.prems(1) by (simp add: add.commute)
    then obtain r sz' tp' where r: "last_fit_bits bm hi n w 32 sz tp = Some (r, sz', tp')"
      "case r of Some b \<Rightarrow> highest_fit bm n hi (Some b) | None \<Rightarrow> down_state bm n hi (w * 32) sz' tp'"
      using last_fit_bits_spec [of bm n hi w 32 sz tp] Suc.prems by auto
    show ?thesis
    proof (cases r)
      case None
      with r Suc.IH [of sz' tp'] Suc.prems False ld show ?thesis
        by (simp add: BITMAP_WORD_SIZE_def)
    next
      case (Some b)
      with r False ld show ?thesis by (simp add: BITMAP_WORD_SIZE_def)
    qed
  qed
qed


section \<open>The allocator's invariant\<close>

definition free_count :: "bitmap \<Rightarrow> nat \<Rightarrow> nat" where
  "free_count bm n = card {i. i < n \<and> \<not> bitmap_bit bm i}"

definition alloc_inv :: "bitmap_allocator \<Rightarrow> bool" where
  "alloc_inv a \<longleftrightarrow>
     0 < ba_chunk_start a \<and> 0 < ba_block_size a \<and> 0 < ba_block_count a \<and>
     ba_block_count a = ba_chunk_size a div ba_block_size a \<and>
     ba_chunk_start a + ba_chunk_size a \<le> SIZE_MAX \<and>
     ba_word_count a = length (ba_bitmap a) \<and> ba_block_count a \<le> bitmap_bits (ba_bitmap a) \<and>
     ba_free_blocks a = free_count (ba_bitmap a) (ba_block_count a)"

definition same_geometry :: "bitmap_allocator \<Rightarrow> bitmap_allocator \<Rightarrow> bool" where
  "same_geometry a a' \<longleftrightarrow>
     ba_chunk_start a' = ba_chunk_start a \<and> ba_chunk_size a' = ba_chunk_size a \<and>
     ba_block_size a' = ba_block_size a \<and> ba_block_count a' = ba_block_count a \<and>
     ba_usable_blocks a' = ba_usable_blocks a \<and> ba_word_count a' = ba_word_count a"

definition block_addr :: "bitmap_allocator \<Rightarrow> nat \<Rightarrow> nat" where
  "block_addr a f = ba_chunk_start a + f * ba_block_size a"

lemma alloc_inv_bounds:
  assumes "alloc_inv a"
  shows "ba_block_count a * ba_block_size a \<le> ba_chunk_size a" "ba_block_count a \<le> SIZE_MAX"
    "ba_chunk_size a \<le> SIZE_MAX"
proof -
  show 1: "ba_block_count a * ba_block_size a \<le> ba_chunk_size a"
    using assms by (simp add: alloc_inv_def)
  show 2: "ba_chunk_size a \<le> SIZE_MAX" using assms by (simp add: alloc_inv_def)
  show "ba_block_count a \<le> SIZE_MAX"
    using 2 assms by (metis alloc_inv_def div_le_dividend le_trans)
qed

lemma block_offset_le:
  assumes "alloc_inv a" "f < ba_block_count a"
  shows "f * ba_block_size a + ba_block_size a \<le> ba_chunk_size a"
proof -
  have "Suc f * ba_block_size a \<le> ba_block_count a * ba_block_size a"
    using assms(2) by (intro mult_le_mono1) simp
  with alloc_inv_bounds(1) [OF assms(1)] show ?thesis by simp
qed

lemma to_ptr_eq:
  assumes "alloc_inv a" "f < ba_block_count a"
  shows "bitmap_alloc_to_ptr a f = block_addr a f" "block_addr a f \<noteq> 0"
    "block_addr a f + ba_block_size a \<le> ba_chunk_start a + ba_chunk_size a"
  using block_offset_le [OF assms] assms(1)
  by (simp_all add: bitmap_alloc_to_ptr_def block_addr_def alloc_inv_def sz_simps)

lemma free_count_take:
  assumes "region_written bm f n True bm'" "free_run bm f n" "f + n \<le> c"
  shows "free_count bm' c = free_count bm c - n" "n \<le> free_count bm c"
proof -
  let ?F = "{i. i < c \<and> \<not> bitmap_bit bm i}" and ?R = "{f..<f + n}"
  have sub: "?R \<subseteq> ?F" using assms by (auto simp: free_run_def)
  have "{i. i < c \<and> \<not> bitmap_bit bm' i} = ?F - ?R"
    using assms(1) by (auto simp: region_written_def)
  then show "free_count bm' c = free_count bm c - n"
    using card_Diff_subset [of ?R ?F] sub by (simp add: free_count_def)
  show "n \<le> free_count bm c"
    using card_mono [of ?F ?R] sub by (simp add: free_count_def)
qed

lemma free_count_give:
  assumes "region_written bm f n False bm'" "used_run bm f n" "f + n \<le> c"
  shows "free_count bm' c = free_count bm c + n"
proof -
  let ?F = "{i. i < c \<and> \<not> bitmap_bit bm i}" and ?R = "{f..<f + n}"
  have "{i. i < c \<and> \<not> bitmap_bit bm' i} = ?F \<union> ?R"
    using assms by (auto simp: region_written_def)
  moreover have "?F \<inter> ?R = {}" using assms(2) by (auto simp: used_run_def)
  ultimately show ?thesis by (simp add: free_count_def card_Un_disjoint)
qed

lemma free_run_count:
  assumes "free_run bm s n" "s + n \<le> c"
  shows "n \<le> free_count bm c"
proof -
  have "{s..<s + n} \<subseteq> {i. i < c \<and> \<not> bitmap_bit bm i}"
    using assms by (auto simp: free_run_def)
  from card_mono [OF _ this] show ?thesis by (simp add: free_count_def)
qed

lemma free_count_le: "free_count bm c \<le> c"
  using card_mono [of "{..<c}" "{i. i < c \<and> \<not> bitmap_bit bm i}"] by (auto simp: free_count_def)

lemma first_fit_in_range_spec:
  assumes "hi \<le> bitmap_bits (ba_bitmap a)" "0 < n"
  shows "\<exists>r. first_fit_in_range (Some a) n lo hi (Some old) =
             Some (case r of Some k \<Rightarrow> (True, Some k) | None \<Rightarrow> (False, Some old)) \<and>
           lowest_fit (ba_bitmap a) n lo hi r"
proof (cases "hi \<le> lo")
  case True
  then show ?thesis using assms
    by (intro exI [of _ None]) (auto simp: first_fit_in_range_def lowest_fit_def)
next
  case False
  then have "scan_state (ba_bitmap a) n lo lo 0 0" using assms by (auto simp: scan_state_def)
  then obtain r where "first_fit_loop (ba_bitmap a) n hi lo 0 0 = Some r" "lowest_fit (ba_bitmap a) n lo hi r"
    using first_fit_loop_spec [of _ n lo lo 0 0 hi] False assms by auto
  then show ?thesis using False assms
    by (intro exI [of _ r]) (simp add: first_fit_in_range_def split: option.split)
qed

text \<open>The next-fit search finds a run whenever one exists anywhere in the chunk.\<close>

definition some_fit :: "bitmap \<Rightarrow> nat \<Rightarrow> nat \<Rightarrow> nat option \<Rightarrow> bool" where
  "some_fit bm n hi r \<longleftrightarrow> (case r of
       Some k \<Rightarrow> k + n \<le> hi \<and> free_run bm k n
     | None \<Rightarrow> \<forall>s. s + n \<le> hi \<longrightarrow> \<not> free_run bm s n)"

lemma lowest_fit_some: "lowest_fit bm n lo hi (Some k) \<Longrightarrow> hi \<le> c \<Longrightarrow> some_fit bm n c (Some k)"
  by (auto simp: lowest_fit_def some_fit_def)

lemma first_fit_spec:
  assumes "ba_block_count a \<le> bitmap_bits (ba_bitmap a)" "0 < n"
  shows "\<exists>r. first_fit (Some a) n (Some old) =
             Some (case r of Some k \<Rightarrow> (True, Some k) | None \<Rightarrow> (False, Some old)) \<and>
           some_fit (ba_bitmap a) n (ba_block_count a) r"
proof -
  let ?c = "ba_block_count a" and ?bm = "ba_bitmap a"
  define start where "start = (if ?c \<le> ba_next_fit_block a then 0 else ba_next_fit_block a)"
  have st: "start \<le> ?c" by (simp add: start_def)
  obtain r1 where r1: "first_fit_in_range (Some a) n start ?c (Some old) =
      Some (case r1 of Some k \<Rightarrow> (True, Some k) | None \<Rightarrow> (False, Some old))" "lowest_fit ?bm n start ?c r1"
    using first_fit_in_range_spec [of ?c a n start old] assms by blast
  obtain r2 where r2: "first_fit_in_range (Some a) n 0 start (Some old) =
      Some (case r2 of Some k \<Rightarrow> (True, Some k) | None \<Rightarrow> (False, Some old))" "lowest_fit ?bm n 0 start r2"
    using first_fit_in_range_spec [of start a n 0 old] assms st by auto
  obtain r3 where r3: "first_fit_in_range (Some a) n 0 ?c (Some old) =
      Some (case r3 of Some k \<Rightarrow> (True, Some k) | None \<Rightarrow> (False, Some old))" "lowest_fit ?bm n 0 ?c r3"
    using first_fit_in_range_spec [of ?c a n 0 old] assms by blast
  have r3': "some_fit ?bm n ?c r3"
    using r3(2) by (auto simp: lowest_fit_def some_fit_def split: option.splits)
  consider (first) k where "r1 = Some k" | (second) k where "r1 = None" "start \<noteq> 0" "r2 = Some k"
    | (third) "r1 = None" "start \<noteq> 0 \<longrightarrow> r2 = None"
    by (cases r1; cases r2) auto
  then show ?thesis
  proof cases
    case first
    with r1 assms lowest_fit_some show ?thesis
      by (intro exI [of _ r1]) (auto simp: first_fit_def start_def [symmetric])
  next
    case second
    with r1 r2 assms st lowest_fit_some show ?thesis
      by (intro exI [of _ r2]) (auto simp: first_fit_def start_def [symmetric])
  next
    case third
    with r1 r2 r3 r3' assms show ?thesis
      by (intro exI [of _ r3]) (auto simp: first_fit_def start_def [symmetric])
  qed
qed

lemma last_fit_spec:
  assumes "alloc_inv a" "0 < n"
  shows "\<exists>r. last_fit (Some a) n (Some old) =
             Some (case r of Some k \<Rightarrow> (True, Some k) | None \<Rightarrow> (False, Some old)) \<and>
           highest_fit (ba_bitmap a) n (ba_block_count a) r"
proof -
  let ?c = "ba_block_count a" and ?bm = "ba_bitmap a"
  have wc: "ba_word_count a = length ?bm" "?c \<le> length ?bm * 32"
    using assms(1) by (simp_all add: alloc_inv_def bitmap_bits_def)
  have "down_state ?bm n ?c (length ?bm * 32) 0 ?c"
    using wc(2) assms(2) by (auto simp: down_state_def)
  then obtain r where "last_fit_words ?bm ?c n (length ?bm) 0 ?c = Some r" "highest_fit ?bm n ?c r"
    using last_fit_words_spec [of ?bm n ?c "length ?bm" 0 ?c] alloc_inv_bounds(2) [OF assms(1)] by auto
  then show ?thesis using assms(2) wc(1)
    by (intro exI [of _ r]) (simp add: last_fit_def split: option.split)
qed


section \<open>What the operations do\<close>

text \<open>
  \<open>taken a n f a'\<close>: the \<open>n\<close> blocks from \<open>f\<close> were free in \<open>a\<close> and are the only
  ones whose state differs in \<open>a'\<close>, where they are used; \<open>given\<close> is the converse for
  a release.
\<close>

definition taken :: "bitmap_allocator \<Rightarrow> nat \<Rightarrow> nat \<Rightarrow> bitmap_allocator \<Rightarrow> bool" where
  "taken a n f a' \<longleftrightarrow> 0 < n \<and> f + n \<le> ba_block_count a \<and> free_run (ba_bitmap a) f n \<and>
     region_written (ba_bitmap a) f n True (ba_bitmap a') \<and>
     ba_free_blocks a' = ba_free_blocks a - n \<and> same_geometry a a'"

definition given :: "bitmap_allocator \<Rightarrow> nat \<Rightarrow> nat \<Rightarrow> bitmap_allocator \<Rightarrow> bool" where
  "given a n f a' \<longleftrightarrow> 0 < n \<and> f + n \<le> ba_block_count a \<and> used_run (ba_bitmap a) f n \<and>
     region_written (ba_bitmap a) f n False (ba_bitmap a') \<and>
     ba_free_blocks a' = ba_free_blocks a + n \<and> same_geometry a a'"

lemma taken_inv:
  assumes "alloc_inv a" "taken a n f a'"
  shows "alloc_inv a'"
  using assms free_count_take(1) [of "ba_bitmap a" f n "ba_bitmap a'" "ba_block_count a"]
  by (simp add: alloc_inv_def taken_def same_geometry_def region_written_def bitmap_bits_def)

lemma taken_addr: "alloc_inv a \<Longrightarrow> taken a n f a' \<Longrightarrow> block_addr a f \<noteq> 0"
  using to_ptr_eq(2) [of a f] by (simp add: taken_def)

lemma given_inv:
  assumes "alloc_inv a" "given a n f a'"
  shows "alloc_inv a'"
  using assms free_count_give [of "ba_bitmap a" f n "ba_bitmap a'" "ba_block_count a"]
  by (simp add: alloc_inv_def given_def same_geometry_def region_written_def bitmap_bits_def)

lemma set_region_ok:
  assumes "alloc_inv a" "f + n \<le> ba_block_count a"
  obtains bm' where "bitmap_set_region (ba_bitmap a) f n = Some bm'" "region_written (ba_bitmap a) f n True bm'"
  using write_region_spec [of f n "ba_bitmap a" True] assms
  by (auto simp: bitmap_set_region_def alloc_inv_def)

lemma no_room_no_run:
  assumes "alloc_inv a" "ba_free_blocks a < n" "s + n \<le> ba_block_count a"
  shows "\<not> free_run (ba_bitmap a) s n"
  using assms free_run_count [of "ba_bitmap a" s n "ba_block_count a"] by (auto simp: alloc_inv_def)

definition no_fit :: "bitmap_allocator \<Rightarrow> nat \<Rightarrow> bool" where
  "no_fit a n \<longleftrightarrow> n = 0 \<or> (\<forall>s. s + n \<le> ba_block_count a \<longrightarrow> \<not> free_run (ba_bitmap a) s n)"

lemma reserve_cases:
  assumes inv: "alloc_inv a"
  shows "(bitmap_alloc_reserve (Some a) n = Some (0, Some a) \<and> no_fit a n) \<or>
         (\<exists>f a'. bitmap_alloc_reserve (Some a) n = Some (block_addr a f, Some a') \<and> taken a n f a')"
proof (cases "n = 0 \<or> ba_free_blocks a < n")
  case True
  then show ?thesis using no_room_no_run [OF inv]
    by (auto simp: bitmap_alloc_reserve_def no_fit_def)
next
  case False
  then obtain r where r: "first_fit (Some a) n (Some 0) =
      Some (case r of Some k \<Rightarrow> (True, Some k) | None \<Rightarrow> (False, Some 0))"
      "some_fit (ba_bitmap a) n (ba_block_count a) r"
    using first_fit_spec [of a n 0] inv by (auto simp: alloc_inv_def)
  show ?thesis
  proof (cases r)
    case None
    with r False show ?thesis by (auto simp: bitmap_alloc_reserve_def no_fit_def some_fit_def)
  next
    case (Some f)
    then have f: "f + n \<le> ba_block_count a" "free_run (ba_bitmap a) f n"
      using r(2) by (simp_all add: some_fit_def)
    obtain bm' where bm': "bitmap_set_region (ba_bitmap a) f n = Some bm'"
        "region_written (ba_bitmap a) f n True bm'"
      using set_region_ok [OF inv f(1)] .
    define nx where "nx = (if ba_block_count a \<le> f + n then 0 else f + n)"
    let ?a = "a\<lparr>ba_bitmap := bm', ba_next_fit_block := nx, ba_free_blocks := ba_free_blocks a - n\<rparr>"
    have "bitmap_alloc_reserve (Some a) n = Some (bitmap_alloc_to_ptr ?a f, Some ?a)"
      using False r(1) Some bm'(1) by (simp add: bitmap_alloc_reserve_def Let_def nx_def)
    moreover have "bitmap_alloc_to_ptr ?a f = block_addr a f"
      using to_ptr_eq(1) [OF inv, of f] f False by (simp add: bitmap_alloc_to_ptr_def)
    moreover have "taken a n f ?a"
      using f bm'(2) False by (simp add: taken_def same_geometry_def)
    ultimately show ?thesis by auto
  qed
qed

lemma high_cases:
  assumes inv: "alloc_inv a"
  shows "(bitmap_alloc_high (Some a) n = Some (0, Some a) \<and> no_fit a n) \<or>
         (\<exists>f a'. bitmap_alloc_high (Some a) n = Some (block_addr a f, Some a') \<and> taken a n f a' \<and>
                 (\<forall>s. f < s \<and> s + n \<le> ba_block_count a \<longrightarrow> \<not> free_run (ba_bitmap a) s n))"
proof (cases "n = 0 \<or> ba_free_blocks a < n")
  case True
  then show ?thesis using no_room_no_run [OF inv]
    by (auto simp: bitmap_alloc_high_def no_fit_def)
next
  case False
  then obtain r where r: "last_fit (Some a) n (Some 0) =
      Some (case r of Some k \<Rightarrow> (True, Some k) | None \<Rightarrow> (False, Some 0))"
      "highest_fit (ba_bitmap a) n (ba_block_count a) r"
    using last_fit_spec [OF inv, of n 0] by auto
  show ?thesis
  proof (cases r)
    case None
    with r False show ?thesis by (auto simp: bitmap_alloc_high_def no_fit_def highest_fit_def)
  next
    case (Some f)
    then have f: "f + n \<le> ba_block_count a" "free_run (ba_bitmap a) f n"
      using r(2) by (simp_all add: highest_fit_def)
    obtain bm' where bm': "bitmap_set_region (ba_bitmap a) f n = Some bm'"
        "region_written (ba_bitmap a) f n True bm'"
      using set_region_ok [OF inv f(1)] .
    let ?a = "a\<lparr>ba_bitmap := bm', ba_free_blocks := ba_free_blocks a - n\<rparr>"
    have "bitmap_alloc_high (Some a) n = Some (bitmap_alloc_to_ptr ?a f, Some ?a)"
      using False r(1) Some bm'(1) by (simp add: bitmap_alloc_high_def Let_def)
    moreover have "bitmap_alloc_to_ptr ?a f = block_addr a f"
      using to_ptr_eq(1) [OF inv, of f] f False by (simp add: bitmap_alloc_to_ptr_def)
    moreover have "taken a n f ?a"
      using f bm'(2) False by (simp add: taken_def same_geometry_def)
    ultimately show ?thesis using r(2) Some by (auto simp: highest_fit_def)
  qed
qed

lemma all_used_spec:
  assumes "b + n \<le> bitmap_bits bm"
  shows "all_used bm b n = Some (used_run bm b n)"
  using assms
proof (induction n arbitrary: b)
  case 0
  then show ?case by (auto simp: used_run_def)
next
  case (Suc n)
  have "used_run bm b (Suc n) \<longleftrightarrow> bitmap_bit bm b \<and> used_run bm (Suc b) n"
    by (auto simp: used_run_def) (metis le_neq_implies_less Suc_leI)
  then show ?case using Suc by (simp add: bitmap_get_spec)
qed

text \<open>A release is accepted exactly for a block address inside the chunk whose blocks are all used.\<close>

lemma free_accepts:
  assumes inv: "alloc_inv a" and n: "0 < n" "f + n \<le> ba_block_count a" and used: "used_run (ba_bitmap a) f n"
  shows "\<exists>a'. bitmap_alloc_free (Some a) (block_addr a f) n = Some (True, Some a') \<and> given a n f a'"
proof -
  let ?p = "block_addr a f"
  have bs: "0 < ba_block_size a" and e: "sz_add (ba_chunk_start a) (ba_chunk_size a) = ba_chunk_start a + ba_chunk_size a"
    using inv by (simp_all add: alloc_inv_def sz_simps)
  have p: "?p \<noteq> 0" "?p + ba_block_size a \<le> ba_chunk_start a + ba_chunk_size a"
    using to_ptr_eq [OF inv, of f] n by simp_all
  have off: "?p - ba_chunk_start a = f * ba_block_size a" by (simp add: block_addr_def)
  have blk: "bitmap_alloc_to_block a ?p = f"
    using p inv bs by (simp add: bitmap_alloc_to_block_def sz_simps block_addr_def alloc_inv_def)
  obtain bm' where bm': "bitmap_clear_region (ba_bitmap a) f n = Some bm'"
      "region_written (ba_bitmap a) f n False bm'"
    using write_region_spec [of f n "ba_bitmap a" False] inv n
    by (auto simp: bitmap_clear_region_def alloc_inv_def)
  have cnt: "ba_free_blocks a + n \<le> ba_block_count a"
    using free_count_give [OF bm'(2) used n(2)] free_count_le [of bm' "ba_block_count a"] inv
    by (simp add: alloc_inv_def)
  then have sub: "\<not> sz_sub (ba_block_count a) (ba_free_blocks a) < n"
    using alloc_inv_bounds(2) [OF inv] by (simp add: sz_simps)
  have au: "all_used (ba_bitmap a) f n = Some True"
    using all_used_spec [of f n "ba_bitmap a"] inv n used by (simp add: alloc_inv_def)
  define nx where "nx = (if f < ba_next_fit_block a then f else ba_next_fit_block a)"
  let ?a = "a\<lparr>ba_bitmap := bm', ba_next_fit_block := nx, ba_free_blocks := ba_free_blocks a + n\<rparr>"
  have "bitmap_alloc_free (Some a) ?p n = Some (True, Some ?a)"
    using inv n p bs e off blk au sub bm'(1)
    by (simp add: bitmap_alloc_free_def Let_def alloc_inv_def block_addr_def nx_def [symmetric])
  moreover have "given a n f ?a"
    using n used bm'(2) by (simp add: given_def same_geometry_def)
  ultimately show ?thesis by blast
qed

lemma free_rejects:
  assumes inv: "alloc_inv a"
    and bad: "\<not> (\<exists>f. p = block_addr a f \<and> 0 < n \<and> f + n \<le> ba_block_count a \<and> used_run (ba_bitmap a) f n)"
  shows "bitmap_alloc_free (Some a) p n = Some (False, Some a)"
proof -
  let ?s = "ba_chunk_start a" and ?f = "bitmap_alloc_to_block a p"
  have e: "sz_add ?s (ba_chunk_size a) = ?s + ba_chunk_size a"
    using inv by (simp add: alloc_inv_def sz_simps)
  show ?thesis
  proof (cases "p \<noteq> 0 \<and> n \<noteq> 0 \<and> ?s \<le> p \<and> p < ?s + ba_chunk_size a \<and> (p - ?s) mod ba_block_size a = 0 \<and>
                ?f < ba_block_count a \<and> n \<le> ba_block_count a - ?f")
    case False
    then show ?thesis using inv e
      by (auto simp: bitmap_alloc_free_def Let_def alloc_inv_def not_less not_le)
  next
    case True
    have "p \<le> SIZE_MAX" using True inv by (simp add: alloc_inv_def)
    then have "?f = (p - ?s) div ba_block_size a"
      using True by (simp add: bitmap_alloc_to_block_def sz_simps)
    then have "p - ?s = ?f * ba_block_size a"
      using True by (metis add.right_neutral div_mult_mod_eq)
    moreover have "?s \<le> p" using True by blast
    ultimately have "p = block_addr a ?f" by (simp add: block_addr_def)
    then have "\<not> used_run (ba_bitmap a) ?f n"
      using bad True by (metis le_add_diff_inverse less_or_eq_imp_le nat_add_left_cancel_le neq0_conv)
    moreover have "?f + n \<le> bitmap_bits (ba_bitmap a)"
    proof -
      have "?f < ba_block_count a" "n \<le> ba_block_count a - ?f" using True by blast+
      moreover have "ba_block_count a \<le> bitmap_bits (ba_bitmap a)" using inv by (simp add: alloc_inv_def)
      ultimately show ?thesis by linarith
    qed
    ultimately have "all_used (ba_bitmap a) ?f n = Some False"
      by (simp add: all_used_spec)
    with True inv e show ?thesis
      by (auto simp: bitmap_alloc_free_def Let_def alloc_inv_def)
  qed
qed


section \<open>Initialisation\<close>

lemma DIV_ROUND_UP_eq:
  assumes "0 < b" "a + b \<le> SIZE_MAX"
  shows "DIV_ROUND_UP a b = (a + b - 1) div b"
  using assms by (simp add: DIV_ROUND_UP_def sz_simps)

lemma round_up_covers:
  assumes "0 < (b::nat)"
  shows "a \<le> (a + b - 1) div b * b"
proof -
  have "(a + b - 1) mod b < b" using assms by simp
  then have "a + b - 1 < (a + b - 1) div b * b + b"
    by (metis add.commute add_less_cancel_right div_mult_mod_eq)
  then show ?thesis using assms by linarith
qed

lemma free_count_initial:
  assumes "region_written (replicate w 0) 0 m True bm" "m \<le> c" "c \<le> 32 * w"
  shows "free_count bm c = c - m"
proof -
  have "\<not> bitmap_bit (replicate w 0) i" if "i < c" for i
  proof -
    have "i div 32 < w" using that assms(3) by (simp add: less_mult_imp_div_less mult.commute)
    then show ?thesis by (simp add: bitmap_bit_def)
  qed
  then have "{i. i < c \<and> \<not> bitmap_bit bm i} = {m..<c}"
    using assms by (auto simp: region_written_def)
  then show ?thesis by (simp add: free_count_def)
qed

text \<open>
  The bound on the chunk size holds for every object of a C program (no object is larger than
  half the address space); without it the rounding in the code could wrap.
\<close>

lemma init_ok:
  assumes init: "bitmap_alloc_init (Some a) start sz bs = Some (True, Some a')"
    and lim: "start + sz \<le> SIZE_MAX" "sz \<le> SIZE_MAX div 2"
  shows "alloc_inv a'"
    and "ba_usable_blocks a' = ba_free_blocks a'"
    and "used_run (ba_bitmap a') 0 (ba_block_count a' - ba_usable_blocks a')"
    and "ba_usable_blocks a' < ba_block_count a'"
    and "4 * ba_word_count a' \<le> (ba_block_count a' - ba_usable_blocks a') * ba_block_size a'"
proof -
  define bc where "bc = sz div bs"
  define wc where "wc = DIV_ROUND_UP bc BITMAP_WORD_SIZE"
  define mb where "mb = DIV_ROUND_UP (wc * 4) bs"
  from init obtain bm where pos: "start \<noteq> 0" "sz \<noteq> 0" "bs \<noteq> 0" "bc \<noteq> 0" "mb \<noteq> 0" "mb < bc"
    and bm: "bitmap_set_region (replicate wc 0) 0 mb = Some bm"
    and a': "a' = a\<lparr>ba_chunk_start := start, ba_chunk_size := sz, ba_block_size := bs,
               ba_block_count := bc, ba_word_count := wc, ba_bitmap := bm,
               ba_free_blocks := bc - mb, ba_usable_blocks := bc - mb, ba_next_fit_block := mb\<rparr>"
    unfolding bitmap_alloc_init_def bc_def [symmetric] wc_def [symmetric] mb_def [symmetric] Let_def
    by (auto simp: bc_def [symmetric] wc_def [symmetric] mb_def [symmetric] bind_eq_Some_iff split: if_splits)
  have "bc \<le> sz" by (simp add: bc_def)
  moreover have "bs \<le> sz" using pos(4) by (metis bc_def div_less not_le)
  moreover have "2 * sz \<le> SIZE_MAX" "40 \<le> SIZE_MAX" using lim by (simp_all add: SIZE_MAX_def)
  ultimately have wc: "wc = (bc + 32 - 1) div 32" and "bc + 32 \<le> SIZE_MAX"
    by (simp_all add: wc_def BITMAP_WORD_SIZE_def DIV_ROUND_UP_eq SIZE_MAX_def)
  have "wc * 32 \<le> bc + 31" using wc by simp
  then have "wc * 4 + bs \<le> SIZE_MAX"
    using \<open>bc \<le> sz\<close> \<open>bs \<le> sz\<close> \<open>2 * sz \<le> SIZE_MAX\<close> \<open>40 \<le> SIZE_MAX\<close> by linarith
  then have mb: "mb = (wc * 4 + bs - 1) div bs" using pos by (simp add: mb_def DIV_ROUND_UP_eq)
  have cover: "bc \<le> 32 * wc" using round_up_covers [of 32 bc] wc by simp
  then obtain bm2 where "bitmap_set_region (replicate wc 0) 0 mb = Some bm2"
      "region_written (replicate wc 0) 0 mb True bm2"
    using write_region_spec [of 0 mb "replicate wc 0" True] pos
    by (auto simp: bitmap_set_region_def bitmap_bits_def)
  with bm have rw: "region_written (replicate wc 0) 0 mb True bm" by simp
  have "free_count bm bc = bc - mb" using free_count_initial [OF rw] pos cover by simp
  then show "alloc_inv a'"
    using a' pos lim rw cover by (simp add: alloc_inv_def bc_def region_written_def bitmap_bits_def)
  show "ba_usable_blocks a' = ba_free_blocks a'" "ba_usable_blocks a' < ba_block_count a'"
    using a' pos by simp_all
  show "used_run (ba_bitmap a') 0 (ba_block_count a' - ba_usable_blocks a')"
    using a' rw pos by (simp add: used_run_def region_written_def)
  show "4 * ba_word_count a' \<le> (ba_block_count a' - ba_usable_blocks a') * ba_block_size a'"
    using a' mb pos round_up_covers [of bs "wc * 4"] by (simp add: mult.commute)
qed


section \<open>A heap of live regions\<close>

text \<open>
  A client of the allocator: the pair of the allocator and the set of regions (address and
  number of blocks) it has handed out and that were not released. A client releases only what
  it holds. \<open>heap_inv\<close> says that the used blocks are exactly the bitmap's own blocks and the
  live regions, all disjoint.
\<close>

type_synonym heap = "bitmap_allocator \<times> (nat \<times> nat) set"

inductive heap_step :: "heap \<Rightarrow> heap \<Rightarrow> bool" where
  reserve: "bitmap_alloc_reserve (Some a) n = Some (p, Some a') \<Longrightarrow> p \<noteq> 0 \<Longrightarrow>
     heap_step (a, L) (a', insert (p, n) L)"
| reserve_fails: "bitmap_alloc_reserve (Some a) n = Some (0, Some a') \<Longrightarrow> heap_step (a, L) (a', L)"
| high: "bitmap_alloc_high (Some a) n = Some (p, Some a') \<Longrightarrow> p \<noteq> 0 \<Longrightarrow>
     heap_step (a, L) (a', insert (p, n) L)"
| high_fails: "bitmap_alloc_high (Some a) n = Some (0, Some a') \<Longrightarrow> heap_step (a, L) (a', L)"
| release: "(p, n) \<in> L \<Longrightarrow> bitmap_alloc_free (Some a) p n = Some (True, Some a') \<Longrightarrow>
     heap_step (a, L) (a', L - {(p, n)})"

inductive heap_reachable :: "bitmap_allocator \<Rightarrow> heap \<Rightarrow> bool" for a0 where
  start: "heap_reachable a0 (a0, {})"
| step: "heap_reachable a0 h \<Longrightarrow> heap_step h h' \<Longrightarrow> heap_reachable a0 h'"

definition own_blocks :: "bitmap_allocator \<Rightarrow> nat" where
  "own_blocks a = ba_block_count a - ba_usable_blocks a"

definition region_blocks :: "bitmap_allocator \<Rightarrow> nat \<times> nat \<Rightarrow> nat set" where
  "region_blocks a r = {i. \<exists>f. fst r = block_addr a f \<and> f \<le> i \<and> i < f + snd r}"

definition used_blocks :: "bitmap_allocator \<Rightarrow> nat set" where
  "used_blocks a = {i. i < ba_block_count a \<and> bitmap_bit (ba_bitmap a) i}"

definition region_ok :: "bitmap_allocator \<Rightarrow> nat \<times> nat \<Rightarrow> bool" where
  "region_ok a r \<longleftrightarrow> (\<exists>f. fst r = block_addr a f \<and> 0 < snd r \<and> f + snd r \<le> ba_block_count a)"

definition heap_inv :: "heap \<Rightarrow> bool" where
  "heap_inv h \<longleftrightarrow> (case h of (a, L) \<Rightarrow>
     alloc_inv a \<and> ba_usable_blocks a \<le> ba_block_count a \<and> finite L \<and> (\<forall>r \<in> L. region_ok a r) \<and>
     (\<forall>r \<in> L. \<forall>r' \<in> L. r \<noteq> r' \<longrightarrow> region_blocks a r \<inter> region_blocks a r' = {}) \<and>
     (\<forall>r \<in> L. region_blocks a r \<inter> {..<own_blocks a} = {}) \<and>
     used_blocks a = {..<own_blocks a} \<union> (\<Union>r \<in> L. region_blocks a r))"

lemma block_addr_eq [simp]: "alloc_inv a \<Longrightarrow> block_addr a f = block_addr a g \<longleftrightarrow> f = g"
  by (simp add: block_addr_def alloc_inv_def)

lemma region_blocks_at [simp]: "alloc_inv a \<Longrightarrow> region_blocks a (block_addr a f, n) = {f..<f + n}"
  by (auto simp: region_blocks_def)

lemma geometry_simps:
  assumes "same_geometry a a'"
  shows "ba_block_count a' = ba_block_count a" "ba_usable_blocks a' = ba_usable_blocks a"
    "own_blocks a' = own_blocks a" "block_addr a' = block_addr a"
    "region_blocks a' = region_blocks a" "region_ok a' = region_ok a"
proof -
  show c: "ba_block_count a' = ba_block_count a" and u: "ba_usable_blocks a' = ba_usable_blocks a"
    using assms by (simp_all add: same_geometry_def)
  show "own_blocks a' = own_blocks a" by (simp add: own_blocks_def c u)
  have b: "block_addr a' f = block_addr a f" for f
    using assms by (simp add: block_addr_def same_geometry_def)
  then show "block_addr a' = block_addr a" by (rule ext)
  show "region_blocks a' = region_blocks a" by (rule ext) (simp add: region_blocks_def b)
  show "region_ok a' = region_ok a" by (rule ext) (simp add: region_ok_def b c)
qed

lemma taken_used:
  "taken a n f a' \<Longrightarrow> used_blocks a' = used_blocks a \<union> {f..<f + n} \<and> used_blocks a \<inter> {f..<f + n} = {}"
  by (auto simp: taken_def used_blocks_def region_written_def free_run_def same_geometry_def)

lemma given_used:
  "given a n f a' \<Longrightarrow> used_blocks a' = used_blocks a - {f..<f + n}"
  by (auto simp: given_def used_blocks_def region_written_def same_geometry_def)

lemma Un_Diff_disjoint: "R \<inter> A = {} \<Longrightarrow> B \<inter> R = {} \<Longrightarrow> (A \<union> B \<union> R) - R = A \<union> B"
  by blast

lemma heap_inv_take:
  assumes "heap_inv (a, L)" "taken a n f a'"
  shows "heap_inv (a', insert (block_addr a f, n) L)"
proof -
  have inv: "alloc_inv a" and geo: "same_geometry a a'"
    using assms by (simp_all add: heap_inv_def taken_def)
  have new: "region_ok a (block_addr a f, n)"
    using assms(2) by (auto simp: region_ok_def taken_def)
  have fresh: "region_blocks a r \<inter> {f..<f + n} = {}" if "r \<in> L" for r
    using assms(1) taken_used [OF assms(2)] that by (auto simp: heap_inv_def)
  have own: "{f..<f + n} \<inter> {..<own_blocks a} = {}"
    using assms(1) taken_used [OF assms(2)] by (auto simp: heap_inv_def)
  have used: "used_blocks a' = {..<own_blocks a} \<union> (\<Union>r \<in> insert (block_addr a f, n) L. region_blocks a r)"
    using assms(1) taken_used [OF assms(2)] inv by (auto simp: heap_inv_def)
  show ?thesis
    unfolding heap_inv_def prod.case geometry_simps [OF geo]
    using assms(1) new fresh own used inv taken_inv [OF inv assms(2)]
    by (simp add: heap_inv_def) (metis Int_commute)
qed

lemma heap_inv_give:
  assumes "heap_inv (a, L)" "(block_addr a f, n) \<in> L" "given a n f a'"
  shows "heap_inv (a', L - {(block_addr a f, n)})"
proof -
  have inv: "alloc_inv a" and geo: "same_geometry a a'"
    using assms by (simp_all add: heap_inv_def given_def)
  have disj: "region_blocks a r \<inter> {f..<f + n} = {}" if "r \<in> L - {(block_addr a f, n)}" for r
    using assms(1,2) inv that by (auto simp: heap_inv_def) (metis disjoint_iff region_blocks_at atLeastLessThan_iff)
  have own: "{f..<f + n} \<inter> {..<own_blocks a} = {}"
    using assms(1,2) inv by (auto simp: heap_inv_def) (metis disjoint_iff region_blocks_at atLeastLessThan_iff lessThan_iff)
  have "used_blocks a' = {..<own_blocks a} \<union> (\<Union>r \<in> L - {(block_addr a f, n)}. region_blocks a r)"
  proof -
    have "used_blocks a = {..<own_blocks a} \<union> (\<Union>r \<in> L - {(block_addr a f, n)}. region_blocks a r) \<union> {f..<f + n}"
      using assms(1,2) inv by (auto simp: heap_inv_def)
    moreover have "(\<Union>r \<in> L - {(block_addr a f, n)}. region_blocks a r) \<inter> {f..<f + n} = {}"
      using disj by blast
    ultimately show ?thesis
      using given_used [OF assms(3)] own by (metis Un_Diff_disjoint)
  qed
  then show ?thesis
    unfolding heap_inv_def prod.case geometry_simps [OF geo]
    using assms(1) given_inv [OF inv assms(3)] by (simp add: heap_inv_def)
qed

lemma live_region_used:
  assumes "heap_inv (a, L)" "(p, n) \<in> L"
  obtains f where "p = block_addr a f" "0 < n" "f + n \<le> ba_block_count a" "used_run (ba_bitmap a) f n"
proof -
  have inv: "alloc_inv a" using assms(1) by (simp add: heap_inv_def)
  obtain f where f: "p = block_addr a f" "0 < n" "f + n \<le> ba_block_count a"
    using assms by (auto simp: heap_inv_def region_ok_def)
  have "{f..<f + n} \<subseteq> used_blocks a"
    using assms f inv by (auto simp: heap_inv_def)
  then have "used_run (ba_bitmap a) f n" by (auto simp: used_run_def used_blocks_def)
  with f that show thesis by blast
qed

lemma heap_step_inv:
  assumes "heap_step h h'" "heap_inv h"
  shows "heap_inv h'"
  using assms
proof (cases rule: heap_step.cases)
  case (reserve a n p a' L)
  then have "alloc_inv a" using assms by (simp add: heap_inv_def)
  with reserve reserve_cases [of a n] assms heap_inv_take show ?thesis by auto
next
  case (reserve_fails a n a' L)
  then have inv: "alloc_inv a" using assms by (simp add: heap_inv_def)
  then have "a' = a" using reserve_fails reserve_cases [of a n] taken_addr by fastforce
  with reserve_fails assms show ?thesis by simp
next
  case (high a n p a' L)
  then have "alloc_inv a" using assms by (simp add: heap_inv_def)
  with high high_cases [of a n] assms heap_inv_take show ?thesis by auto
next
  case (high_fails a n a' L)
  then have inv: "alloc_inv a" using assms by (simp add: heap_inv_def)
  then have "a' = a" using high_fails high_cases [of a n] taken_addr by fastforce
  with high_fails assms show ?thesis by simp
next
  case (release p n L a a')
  then have hi: "heap_inv (a, L)" using assms by simp
  then obtain f where f: "p = block_addr a f" "0 < n" "f + n \<le> ba_block_count a" "used_run (ba_bitmap a) f n"
    using release live_region_used by blast
  then have "given a n f a'"
    using free_accepts [of a n f] hi release by (auto simp: heap_inv_def)
  with heap_inv_give [OF hi] release f show ?thesis by auto
qed

lemma heap_inv_start:
  assumes "alloc_inv a" "ba_usable_blocks a = ba_free_blocks a"
    "used_run (ba_bitmap a) 0 (own_blocks a)"
  shows "heap_inv (a, {})"
proof -
  have free: "{i. i < ba_block_count a \<and> \<not> bitmap_bit (ba_bitmap a) i} \<subseteq> {own_blocks a..<ba_block_count a}"
    using assms(3) by (auto simp: used_run_def not_less)
  have le: "ba_usable_blocks a \<le> ba_block_count a"
    using assms free_count_le [of "ba_bitmap a" "ba_block_count a"] by (simp add: alloc_inv_def)
  then have "card {i. i < ba_block_count a \<and> \<not> bitmap_bit (ba_bitmap a) i} = card {own_blocks a..<ba_block_count a}"
    using assms by (simp add: alloc_inv_def free_count_def own_blocks_def)
  with free have "{i. i < ba_block_count a \<and> \<not> bitmap_bit (ba_bitmap a) i} = {own_blocks a..<ba_block_count a}"
    by (intro card_subset_eq) simp_all
  moreover have "used_blocks a = {..<ba_block_count a} - {i. i < ba_block_count a \<and> \<not> bitmap_bit (ba_bitmap a) i}"
    by (auto simp: used_blocks_def)
  moreover have "{..<ba_block_count a} - {own_blocks a..<ba_block_count a} = {..<own_blocks a}"
    by (auto simp: own_blocks_def)
  ultimately have "used_blocks a = {..<own_blocks a}"
    by simp
  with assms le show ?thesis by (simp add: heap_inv_def)
qed

lemma heap_reachable_inv: "heap_reachable a0 h \<Longrightarrow> heap_inv (a0, {}) \<Longrightarrow> heap_inv h"
  by (induction rule: heap_reachable.induct) (auto intro: heap_step_inv)


section \<open>Properties\<close>

lemma free_count_filter: "free_count bm n = length (filter (\<lambda>i. \<not> bitmap_bit bm i) [0..<n])"
proof -
  have "distinct (filter (\<lambda>i. \<not> bitmap_bit bm i) [0..<n])" by simp
  from distinct_card [OF this] show ?thesis by (simp add: free_count_def)
qed

lemma region_blocks_finite:
  assumes "heap_inv (a, L)" "r \<in> L"
  shows "finite (region_blocks a r)" "card (region_blocks a r) = snd r"
proof -
  obtain f where "r = (block_addr a f, snd r)"
    using assms by (auto simp: heap_inv_def region_ok_def prod_eq_iff)
  then have "region_blocks a r = {f..<f + snd r}"
    using assms(1) region_blocks_at [of a f "snd r"] by (simp add: heap_inv_def)
  then show "finite (region_blocks a r)" "card (region_blocks a r) = snd r" by simp_all
qed

lemma heap_inv_count:
  assumes "heap_inv (a, L)"
  shows "ba_free_blocks a + (\<Sum>r\<in>L. snd r) = ba_usable_blocks a"
proof -
  have inv: "alloc_inv a" and fin: "finite L" and le: "ba_usable_blocks a \<le> ba_block_count a"
    and used: "used_blocks a = {..<own_blocks a} \<union> (\<Union>r\<in>L. region_blocks a r)"
    and own: "\<forall>r\<in>L. region_blocks a r \<inter> {..<own_blocks a} = {}"
    using assms by (simp_all add: heap_inv_def)
  have disj: "\<forall>r\<in>L. \<forall>r'\<in>L. r \<noteq> r' \<longrightarrow> region_blocks a r \<inter> region_blocks a r' = {}"
    using assms by (simp add: heap_inv_def)
  let ?F = "{i. i < ba_block_count a \<and> \<not> bitmap_bit (ba_bitmap a) i}"
  have "card (\<Union>r\<in>L. region_blocks a r) = (\<Sum>r\<in>L. card (region_blocks a r))"
    using fin disj region_blocks_finite(1) [OF assms] by (intro card_UN_disjoint) auto
  also have "\<dots> = (\<Sum>r\<in>L. snd r)"
    using region_blocks_finite(2) [OF assms] by (intro sum.cong) simp_all
  moreover have "card (used_blocks a) = own_blocks a + card (\<Union>r\<in>L. region_blocks a r)"
    unfolding used using fin own region_blocks_finite(1) [OF assms]
    by (subst card_Un_disjoint) auto
  moreover have "card ?F + card (used_blocks a) = ba_block_count a"
  proof -
    have "?F \<union> used_blocks a = {..<ba_block_count a}" "?F \<inter> used_blocks a = {}"
      by (auto simp: used_blocks_def)
    then show ?thesis
      using card_Un_disjoint [of ?F "used_blocks a"] by (simp add: used_blocks_def)
  qed
  moreover have "ba_free_blocks a = card ?F"
    using inv by (simp add: alloc_inv_def free_count_def)
  ultimately show ?thesis using le by (simp add: own_blocks_def)
qed

lemma interval_disjoint:
  assumes "{f..<f + n} \<inter> {g..<g + m} = {}" "0 < n" "0 < (m::nat)"
  shows "f + n \<le> g \<or> g + m \<le> f"
proof (rule ccontr)
  assume "\<not> ?thesis"
  then have "max f g \<in> {f..<f + n} \<inter> {g..<g + m}" using assms(2,3) by auto
  with assms(1) show False by simp
qed

lemma heap_inv_apart:
  assumes "heap_inv (a, L)" "(p, n) \<in> L" "(q, m) \<in> L" "(p, n) \<noteq> (q, m)"
  shows "p + n * ba_block_size a \<le> q \<or> q + m * ba_block_size a \<le> p"
proof -
  have inv: "alloc_inv a" using assms(1) by (simp add: heap_inv_def)
  obtain f g where fg: "p = block_addr a f" "0 < n" "q = block_addr a g" "0 < m"
    using live_region_used [OF assms(1,2)] live_region_used [OF assms(1,3)] by metis
  have "region_blocks a (p, n) \<inter> region_blocks a (q, m) = {}"
    using assms by (auto simp: heap_inv_def)
  then have "{f..<f + n} \<inter> {g..<g + m} = {}" using fg inv by simp
  then have "f + n \<le> g \<or> g + m \<le> f"
    using fg by (intro interval_disjoint)
  then show ?thesis
    using mult_le_mono1 [of "f + n" g "ba_block_size a"] mult_le_mono1 [of "g + m" f "ba_block_size a"]
    by (auto simp: fg block_addr_def add_mult_distrib)
qed

lemma heap_inv_inside:
  assumes "heap_inv (a, L)" "(p, n) \<in> L"
  shows "ba_chunk_start a + own_blocks a * ba_block_size a \<le> p"
    "p + n * ba_block_size a \<le> ba_chunk_start a + ba_chunk_size a"
proof -
  have inv: "alloc_inv a" using assms(1) by (simp add: heap_inv_def)
  obtain f where f: "p = block_addr a f" "0 < n" "f + n \<le> ba_block_count a"
    using assms by (auto simp: heap_inv_def region_ok_def)
  have "region_blocks a (p, n) \<inter> {..<own_blocks a} = {}" using assms by (auto simp: heap_inv_def)
  then have "own_blocks a \<le> f" using f inv by (auto simp: disjoint_iff)
  then show "ba_chunk_start a + own_blocks a * ba_block_size a \<le> p" by (simp add: f block_addr_def)
  have "(f + n) * ba_block_size a \<le> ba_block_count a * ba_block_size a" using f by (intro mult_le_mono1)
  also have "\<dots> \<le> ba_chunk_size a" using inv by (simp add: alloc_inv_def)
  finally show "p + n * ba_block_size a \<le> ba_chunk_start a + ba_chunk_size a"
    by (simp add: f block_addr_def add_mult_distrib)
qed

lemma heap_reachable_geometry:
  assumes "heap_reachable a0 h" "heap_inv (a0, {})"
  shows "same_geometry a0 (fst h)"
  using assms
proof (induction rule: heap_reachable.induct)
  case start
  show ?case by (simp add: same_geometry_def)
next
  case (step h h')
  have inv: "alloc_inv (fst h)"
    using heap_reachable_inv [OF step.hyps(1) step.prems] by (cases h) (simp add: heap_inv_def)
  have hi: "heap_inv h" using heap_reachable_inv [OF step.hyps(1) step.prems] .
  from step.hyps(2) have "same_geometry (fst h) (fst h')"
  proof (cases rule: heap_step.cases)
    case (reserve a n p a' L)
    then show ?thesis using inv reserve_cases [of a n] by (auto simp: taken_def)
  next
    case (reserve_fails a n a' L)
    then show ?thesis using inv reserve_cases [of a n] by (auto simp: taken_def same_geometry_def)
  next
    case (high a n p a' L)
    then show ?thesis using inv high_cases [of a n] by (auto simp: taken_def)
  next
    case (high_fails a n a' L)
    then show ?thesis using inv high_cases [of a n] by (auto simp: taken_def same_geometry_def)
  next
    case (release p n L a a')
    then have "heap_inv (a, L)" "alloc_inv a" using hi inv by simp_all
    then obtain f where f: "p = block_addr a f" "0 < n" "f + n \<le> ba_block_count a" "used_run (ba_bitmap a) f n"
      using live_region_used release by metis
    then show ?thesis using release free_accepts [OF \<open>alloc_inv a\<close> f(2-4)] by (auto simp: given_def)
  qed
  with step.IH [OF step.prems] show ?case by (simp add: same_geometry_def)
qed

text \<open>A freshly initialised allocator of eight blocks, and the same one after a reservation.\<close>

definition demo_chunk :: bitmap_allocator where
  "demo_chunk = \<lparr>ba_chunk_start = 4096, ba_chunk_size = 512, ba_block_size = 64, ba_block_count = 8,
     ba_usable_blocks = 7, ba_free_blocks = 7, ba_word_count = 1, ba_bitmap = [1], ba_next_fit_block = 1\<rparr>"

definition demo_used :: bitmap_allocator where
  "demo_used = demo_chunk\<lparr>ba_bitmap := [7], ba_free_blocks := 5, ba_next_fit_block := 3\<rparr>"

lemma demo_init: "bitmap_alloc_init (Some demo_used) 4096 512 64 = Some (True, Some demo_chunk)"
  by code_simp

lemma demo_reserve: "bitmap_alloc_reserve (Some demo_chunk) 2 = Some (4160, Some demo_used)"
  by code_simp

lemma demo_inv: "alloc_inv demo_chunk" "alloc_inv demo_used"
  by (simp_all add: alloc_inv_def demo_chunk_def demo_used_def SIZE_MAX_def free_count_filter
      bitmap_bits_def bitmap_bit_def upt_rec)

text \<open>
  (C1) Safety of the block allocator under every sequence of calls. Starting from a chunk that
  \<open>bitmap_alloc_init\<close> accepted, after any interleaving of \<open>bitmap_alloc_reserve\<close>,
  \<open>bitmap_alloc_high\<close> and \<open>bitmap_alloc_free\<close> of live regions: every live region lies inside
  the chunk and behind the bitmap's own words, any two live regions are disjoint byte ranges, and
  \<open>free_blocks\<close> plus the blocks of the live regions is \<open>usable_blocks\<close>, so that nothing leaks.
\<close>

theorem bitmap_alloc_heap_safe:
  assumes "bitmap_alloc_init (Some a) start sz bs = Some (True, Some a0)"
    and "start + sz \<le> SIZE_MAX" "sz \<le> SIZE_MAX div 2"
    and "heap_reachable a0 (a1, L)"
  shows "(\<forall>(p, n) \<in> L. start + 4 * length (ba_bitmap a1) \<le> p \<and> p + n * bs \<le> start + sz) \<and>
    (\<forall>(p, n) \<in> L. \<forall>(q, m) \<in> L. (p, n) \<noteq> (q, m) \<longrightarrow> p + n * bs \<le> q \<or> q + m * bs \<le> p) \<and>
    ba_free_blocks a1 + (\<Sum>r\<in>L. snd r) = ba_usable_blocks a1"
proof -
  note ok = init_ok [OF assms(1-3)]
  have g0: "ba_chunk_start a0 = start" "ba_chunk_size a0 = sz" "ba_block_size a0 = bs"
    using assms(1) by (auto simp: bitmap_alloc_init_def Let_def bind_eq_Some_iff split: if_splits)
  have hi0: "heap_inv (a0, {})" using ok by (intro heap_inv_start) (simp_all add: own_blocks_def)
  have hi: "heap_inv (a1, L)" using heap_reachable_inv [OF assms(4) hi0] .
  have geo: "same_geometry a0 a1" using heap_reachable_geometry [OF assms(4) hi0] by simp
  then have g: "ba_chunk_start a1 = start" "ba_chunk_size a1 = sz" "ba_block_size a1 = bs"
    using g0 by (simp_all add: same_geometry_def)
  have "4 * length (ba_bitmap a1) \<le> own_blocks a1 * bs"
    using ok(5) geo g0 hi by (simp add: same_geometry_def own_blocks_def heap_inv_def alloc_inv_def)
  then have "\<forall>(p, n) \<in> L. start + 4 * length (ba_bitmap a1) \<le> p \<and> p + n * bs \<le> start + sz"
    using heap_inv_inside [OF hi] g by fastforce
  moreover have "\<forall>(p, n) \<in> L. \<forall>(q, m) \<in> L. (p, n) \<noteq> (q, m) \<longrightarrow> p + n * bs \<le> q \<or> q + m * bs \<le> p"
    using heap_inv_apart [OF hi] g by fast
  ultimately show ?thesis using heap_inv_count [OF hi] by blast
qed

theorem bitmap_alloc_heap_safe_witness:
  "heap_reachable demo_chunk (demo_used, {(4160, 2)}) \<and>
   ba_free_blocks demo_used + (\<Sum>r\<in>{(4160, 2::nat)}. snd r) = ba_usable_blocks demo_used"
proof
  show r: "heap_reachable demo_chunk (demo_used, {(4160, 2)})"
    using heap_reachable.step [OF heap_reachable.start heap_step.reserve [OF demo_reserve]] by simp
  show "ba_free_blocks demo_used + (\<Sum>r\<in>{(4160, 2::nat)}. snd r) = ba_usable_blocks demo_used"
    using bitmap_alloc_heap_safe [OF demo_init _ _ r] by (simp add: SIZE_MAX_def)
qed

text \<open>
  (C20) \<open>bitmap_alloc_reserve\<close> is complete and exact: it returns NULL and changes nothing exactly
  when the request is empty or no run of that many free blocks exists anywhere in the chunk
  (whatever the next-fit cursor is), and otherwise returns the address of such a run, marks
  exactly its blocks used, and decreases \<open>free_blocks\<close> by their number.
\<close>

theorem bitmap_alloc_reserve_correct:
  assumes "alloc_inv a"
  shows "\<exists>p a'. bitmap_alloc_reserve (Some a) n = Some (p, Some a') \<and> alloc_inv a' \<and>
           (if 0 < n \<and> (\<exists>s. s + n \<le> ba_block_count a \<and> free_run (ba_bitmap a) s n)
            then p \<noteq> 0 \<and> (\<exists>f. p = block_addr a f \<and> f + n \<le> ba_block_count a \<and> free_run (ba_bitmap a) f n \<and>
                   region_written (ba_bitmap a) f n True (ba_bitmap a') \<and>
                   ba_free_blocks a' + n = ba_free_blocks a)
            else p = 0 \<and> a' = a)"
  using reserve_cases [OF assms, of n]
proof
  assume "bitmap_alloc_reserve (Some a) n = Some (0, Some a) \<and> no_fit a n"
  then show ?thesis using assms by (auto simp: no_fit_def)
next
  assume "\<exists>f a'. bitmap_alloc_reserve (Some a) n = Some (block_addr a f, Some a') \<and> taken a n f a'"
  then obtain f a' where f: "bitmap_alloc_reserve (Some a) n = Some (block_addr a f, Some a')" "taken a n f a'"
    by blast
  have "n \<le> ba_free_blocks a"
    using f(2) assms free_run_count by (auto simp: taken_def alloc_inv_def)
  then show ?thesis
    using f taken_inv [OF assms f(2)] taken_addr [OF assms f(2)]
    by (intro exI [of _ "block_addr a f"] exI [of _ a']) (auto simp: taken_def)
qed

theorem bitmap_alloc_reserve_witness:
  "alloc_inv demo_used \<and> (\<exists>p a'. bitmap_alloc_reserve (Some demo_used) 5 = Some (p, Some a') \<and> alloc_inv a')"
  using demo_inv bitmap_alloc_reserve_correct [OF demo_inv(2), of 5] by blast

text \<open>
  (C21) \<open>bitmap_alloc_high\<close> finds the topmost run: it fails exactly when there is no run of \<open>n\<close>
  free blocks, and otherwise every fitting run starts at or below the one it takes.
\<close>

theorem bitmap_alloc_high_topmost:
  assumes "alloc_inv a"
  shows "\<exists>p a'. bitmap_alloc_high (Some a) n = Some (p, Some a') \<and> alloc_inv a' \<and>
           (if 0 < n \<and> (\<exists>s. s + n \<le> ba_block_count a \<and> free_run (ba_bitmap a) s n)
            then \<exists>f. p = block_addr a f \<and> f + n \<le> ba_block_count a \<and> free_run (ba_bitmap a) f n \<and>
                   (\<forall>s. s + n \<le> ba_block_count a \<and> free_run (ba_bitmap a) s n \<longrightarrow> s \<le> f) \<and>
                   region_written (ba_bitmap a) f n True (ba_bitmap a')
            else p = 0 \<and> a' = a)"
  using high_cases [OF assms, of n]
proof
  assume "bitmap_alloc_high (Some a) n = Some (0, Some a) \<and> no_fit a n"
  then show ?thesis using assms by (auto simp: no_fit_def)
next
  assume "\<exists>f a'. bitmap_alloc_high (Some a) n = Some (block_addr a f, Some a') \<and> taken a n f a' \<and>
                 (\<forall>s. f < s \<and> s + n \<le> ba_block_count a \<longrightarrow> \<not> free_run (ba_bitmap a) s n)"
  then obtain f a' where f: "bitmap_alloc_high (Some a) n = Some (block_addr a f, Some a')" "taken a n f a'"
    "\<forall>s. f < s \<and> s + n \<le> ba_block_count a \<longrightarrow> \<not> free_run (ba_bitmap a) s n"
    by blast
  then have "s \<le> f" if "s + n \<le> ba_block_count a" "free_run (ba_bitmap a) s n" for s
    using that by (meson not_le)
  then show ?thesis
    using f taken_inv [OF assms f(2)]
    by (intro exI [of _ "block_addr a f"] exI [of _ a']) (auto simp: taken_def)
qed

theorem bitmap_alloc_high_witness:
  "alloc_inv demo_used \<and> (\<exists>p a'. bitmap_alloc_high (Some demo_used) 2 = Some (p, Some a') \<and> alloc_inv a')"
  using demo_inv bitmap_alloc_high_topmost [OF demo_inv(2), of 2] by blast

text \<open>
  (C18) \<open>bitmap_alloc_free\<close> accepts exactly the block-aligned, non-empty ranges of the chunk whose
  blocks are all in use; then it clears exactly them and adds their number to \<open>free_blocks\<close>. A
  misaligned pointer, a range that leaves the chunk and a range with a block already free (a
  double free) are refused and change nothing.
\<close>

theorem bitmap_alloc_free_correct:
  assumes "alloc_inv a"
  shows "\<exists>ok a'. bitmap_alloc_free (Some a) p n = Some (ok, Some a') \<and> alloc_inv a' \<and>
           (if 0 < n \<and> (\<exists>f. p = block_addr a f \<and> f + n \<le> ba_block_count a \<and> used_run (ba_bitmap a) f n)
            then ok \<and> (\<exists>f. p = block_addr a f \<and> region_written (ba_bitmap a) f n False (ba_bitmap a')) \<and>
                 ba_free_blocks a' = ba_free_blocks a + n
            else \<not> ok \<and> a' = a)"
proof (cases "0 < n \<and> (\<exists>f. p = block_addr a f \<and> f + n \<le> ba_block_count a \<and> used_run (ba_bitmap a) f n)")
  case True
  then obtain f where f: "0 < n" "p = block_addr a f" "f + n \<le> ba_block_count a" "used_run (ba_bitmap a) f n" by blast
  obtain a' where "bitmap_alloc_free (Some a) p n = Some (True, Some a')" "given a n f a'"
    using free_accepts [OF assms f(1,3,4)] f(2) by blast
  then show ?thesis using True f given_inv [OF assms] by (auto simp: given_def)
next
  case False
  then show ?thesis using free_rejects [OF assms, of p n] assms by auto
qed

theorem bitmap_alloc_free_witness:
  "alloc_inv demo_used \<and> (\<exists>ok a'. bitmap_alloc_free (Some demo_used) 4160 2 = Some (ok, Some a') \<and> alloc_inv a')"
  using demo_inv bitmap_alloc_free_correct [OF demo_inv(2), of 4160 2] by blast

end
