(* ===== verification/Queue_Interface.thy ===== *)
theory Queue_Interface
  imports Prelude "HOL-Library.Sublist"
begin

text \<open>
  The contracts of the rings. Every ring delivers its content from the front. A bounded queue, as
  the byte rings of the pipes and the element rings of the event queues are, refuses what does
  not fit: across any interleaving of insertions and removals, what was delivered followed by
  what is still queued is what was accepted, in order. An overwriting ring, as the log buffers
  are, accepts everything and gives up its oldest content: what it delivers is a subsequence of
  what was put in, in order.
\<close>

datatype 'a qop = Put "'a list" | Get nat

text \<open>
  Runs a sequence of operations, collecting what was accepted and what was delivered.
\<close>

fun queue_run ::
  "('q \<Rightarrow> 'a list \<Rightarrow> (nat \<times> 'q) exec) \<Rightarrow> ('q \<Rightarrow> nat \<Rightarrow> ('a list \<times> 'q) exec) \<Rightarrow>
   'q \<Rightarrow> 'a qop list \<Rightarrow> ('a list \<times> 'a list \<times> 'q) exec" where
  "queue_run put get q [] = Some ([], [], q)"
| "queue_run put get q (Put xs # ops) =
     do { (n, q) \<leftarrow> put q xs;
          (acc, del, q) \<leftarrow> queue_run put get q ops;
          Some (take n xs @ acc, del, q) }"
| "queue_run put get q (Get n # ops) =
     do { (ys, q) \<leftarrow> get q n;
          (acc, del, q) \<leftarrow> queue_run put get q ops;
          Some (acc, ys @ del, q) }"

definition lastn :: "nat \<Rightarrow> 'a list \<Rightarrow> 'a list" where
  "lastn n xs = drop (length xs - n) xs"

lemma length_lastn [simp]: "length (lastn n xs) = min n (length xs)"
  by (simp add: lastn_def)

lemma lastn_all [simp]: "length xs \<le> n \<Longrightarrow> lastn n xs = xs"
  by (simp add: lastn_def)

lemma lastn_append_big: "n \<le> length ys \<Longrightarrow> lastn n (xs @ ys) = lastn n ys"
  by (simp add: lastn_def)

lemma lastn_lastn_append: "lastn n (lastn n xs @ ys) = lastn n (xs @ ys)"
  by (cases "length xs \<le> n") (simp_all add: lastn_def add.commute)

lemma suffix_lastn: "suffix (lastn n xs) xs"
  by (simp add: lastn_def suffix_drop)

locale ring_source =
  fixes inv :: "'q \<Rightarrow> bool"
    and cap :: "'q \<Rightarrow> nat"
    and content :: "'q \<Rightarrow> 'a list"
    and get :: "'q \<Rightarrow> nat \<Rightarrow> ('a list \<times> 'q) exec"
  assumes get_law: "inv q \<Longrightarrow>
      \<exists>q'. get q k = Some (take k (content q), q') \<and> inv q' \<and> cap q' = cap q \<and>
           content q' = drop k (content q)"
    and cap_law: "inv q \<Longrightarrow> length (content q) \<le> cap q"

locale bounded_fifo = ring_source inv cap content get
  for inv :: "'q \<Rightarrow> bool" and cap :: "'q \<Rightarrow> nat" and content :: "'q \<Rightarrow> 'a list"
    and get :: "'q \<Rightarrow> nat \<Rightarrow> ('a list \<times> 'q) exec" +
  fixes item_ok :: "'a \<Rightarrow> bool"
    and put :: "'q \<Rightarrow> 'a list \<Rightarrow> (nat \<times> 'q) exec"
  assumes put_law: "inv q \<Longrightarrow> list_all item_ok xs \<Longrightarrow>
      \<exists>n q'. put q xs = Some (n, q') \<and> n \<le> length xs \<and> inv q' \<and> cap q' = cap q \<and>
             content q' = content q @ take n xs \<and>
             (n < length xs \<longrightarrow> length (content q') = cap q)"
begin

lemma run_fifo:
  assumes "inv q" "\<And>xs. Put xs \<in> set ops \<Longrightarrow> list_all item_ok xs"
  shows "\<exists>acc del q'. queue_run put get q ops = Some (acc, del, q') \<and> inv q' \<and> cap q' = cap q \<and>
           content q @ acc = del @ content q'"
  using assms
proof (induction ops arbitrary: q)
  case Nil
  then show ?case by simp
next
  case (Cons op ops)
  show ?case
  proof (cases op)
    case (Put xs)
    obtain n q1 where q1: "put q xs = Some (n, q1)" "inv q1" "cap q1 = cap q"
      "content q1 = content q @ take n xs"
      using put_law [OF Cons.prems(1), of xs] Cons.prems(2) [of xs] Put by auto
    obtain acc del q2 where "queue_run put get q1 ops = Some (acc, del, q2)" "inv q2" "cap q2 = cap q1"
      "content q1 @ acc = del @ content q2"
      using Cons.IH [OF q1(2)] Cons.prems(2) by auto
    with q1 Put show ?thesis by simp
  next
    case (Get k)
    obtain q1 where q1: "get q k = Some (take k (content q), q1)" "inv q1" "cap q1 = cap q"
      "content q1 = drop k (content q)"
      using get_law [OF Cons.prems(1), of k] by auto
    obtain acc del q2 where r: "queue_run put get q1 ops = Some (acc, del, q2)" "inv q2" "cap q2 = cap q1"
      "content q1 @ acc = del @ content q2"
      using Cons.IH [OF q1(2)] Cons.prems(2) by auto
    have "content q @ acc = take k (content q) @ drop k (content q) @ acc"
      by simp
    also have "\<dots> = take k (content q) @ del @ content q2"
      using r(4) q1(4) by simp
    finally show ?thesis using q1 r Get by simp
  qed
qed

text \<open>Nothing is lost, duplicated or reordered, and no run overfills the queue.\<close>

lemma run_bounded:
  assumes "inv q" "\<And>xs. Put xs \<in> set ops \<Longrightarrow> list_all item_ok xs"
    "queue_run put get q ops = Some (acc, del, q')"
  shows "length (content q) + length acc \<le> length del + cap q"
proof -
  have "inv q'" "cap q' = cap q" "content q @ acc = del @ content q'"
    using run_fifo [OF assms(1), of ops] assms(2,3) by auto
  then have "length (content q @ acc) = length (del @ content q')" "length (content q') \<le> cap q"
    using cap_law [of q'] by simp_all
  then show ?thesis by (simp only: length_append)
qed

end

locale overwriting_fifo = ring_source inv cap content get
  for inv :: "'q \<Rightarrow> bool" and cap :: "'q \<Rightarrow> nat" and content :: "'q \<Rightarrow> 'a list"
    and get :: "'q \<Rightarrow> nat \<Rightarrow> ('a list \<times> 'q) exec" +
  fixes put :: "'q \<Rightarrow> 'a list \<Rightarrow> (nat \<times> 'q) exec"
  assumes put_law: "inv q \<Longrightarrow>
      \<exists>q'. put q xs = Some (length xs, q') \<and> inv q' \<and> cap q' = cap q \<and>
           content q' = lastn (cap q) (content q @ xs)"
begin

lemma run_subseq:
  assumes "inv q"
  shows "\<exists>acc del q'. queue_run put get q ops = Some (acc, del, q') \<and> inv q' \<and> cap q' = cap q \<and>
           acc = concat (map (\<lambda>op. case op of Put xs \<Rightarrow> xs | Get _ \<Rightarrow> []) ops) \<and>
           subseq (del @ content q') (content q @ acc)"
  using assms
proof (induction ops arbitrary: q)
  case Nil
  then show ?case by simp
next
  case (Cons op ops)
  show ?case
  proof (cases op)
    case (Put xs)
    obtain q1 where q1: "put q xs = Some (length xs, q1)" "inv q1" "cap q1 = cap q"
      "content q1 = lastn (cap q) (content q @ xs)"
      using put_law [OF Cons.prems, of xs] by auto
    obtain acc del q2 where r: "queue_run put get q1 ops = Some (acc, del, q2)" "inv q2" "cap q2 = cap q1"
      "acc = concat (map (\<lambda>op. case op of Put xs \<Rightarrow> xs | Get _ \<Rightarrow> []) ops)"
      "subseq (del @ content q2) (content q1 @ acc)"
      using Cons.IH [OF q1(2)] by auto
    have "subseq (content q1 @ acc) ((content q @ xs) @ acc)"
      using suffix_lastn [of "cap q" "content q @ xs"] suffix_imp_subseq q1(4)
      by (intro list_emb_append_mono) auto
    then show ?thesis using q1 r Put subseq_order.trans by fastforce
  next
    case (Get k)
    obtain q1 where q1: "get q k = Some (take k (content q), q1)" "inv q1" "cap q1 = cap q"
      "content q1 = drop k (content q)"
      using get_law [OF Cons.prems, of k] by auto
    obtain acc del q2 where r: "queue_run put get q1 ops = Some (acc, del, q2)" "inv q2" "cap q2 = cap q1"
      "acc = concat (map (\<lambda>op. case op of Put xs \<Rightarrow> xs | Get _ \<Rightarrow> []) ops)"
      "subseq (del @ content q2) (content q1 @ acc)"
      using Cons.IH [OF q1(2)] by auto
    have "subseq (take k (content q) @ del @ content q2) (take k (content q) @ content q1 @ acc)"
      using r(5) by (rule list_emb_append_mono [OF subseq_order.refl])
    also have "take k (content q) @ content q1 @ acc = content q @ acc"
      using q1(4) by (simp add: append_assoc [symmetric] del: append_assoc)
    finally show ?thesis using q1 r Get by simp
  qed
qed

end

end
