(* ===== verification/Ring_IO.thy ===== *)
theory Ring_IO
  imports Queue_Interface
begin

text \<open>
  The byte ring \<open>ring_io_t\<close> of \<open>libs/data/ring.c\<close>, which carries the data of pipes and
  terminals. Each transfer is at most two copies: up to the end of the buffer and the rest from
  its start.
\<close>

record ring_io =
  rio_data :: "u8 list ptr"
  rio_capacity :: size_t
  rio_read_pos :: size_t
  rio_write_pos :: size_t
  rio_size :: size_t

definition ring_io_reset :: "ring_io ptr \<Rightarrow> ring_io ptr" where
  "ring_io_reset ring =
     (case ring of
        None \<Rightarrow> None
      | Some r \<Rightarrow> Some (r\<lparr>rio_read_pos := 0, rio_write_pos := 0, rio_size := 0\<rparr>))"

definition ring_io_init :: "ring_io ptr \<Rightarrow> u8 list ptr \<Rightarrow> size_t \<Rightarrow> ring_io ptr" where
  "ring_io_init ring data capacity =
     (case ring of
        None \<Rightarrow> None
      | Some r \<Rightarrow> ring_io_reset (Some (r\<lparr>rio_data := data, rio_capacity := capacity\<rparr>)))"

definition ring_io_size :: "ring_io ptr \<Rightarrow> size_t" where
  "ring_io_size ring = (case ring of Some r \<Rightarrow> rio_size r | None \<Rightarrow> 0)"

definition ring_io_free_space :: "ring_io ptr \<Rightarrow> size_t" where
  "ring_io_free_space ring =
     (case ring of
        None \<Rightarrow> 0
      | Some r \<Rightarrow> if rio_capacity r < rio_size r then 0 else rio_capacity r - rio_size r)"

definition ring_io_read ::
  "ring_io ptr \<Rightarrow> u8 list ptr \<Rightarrow> size_t \<Rightarrow> (size_t \<times> ring_io ptr \<times> u8 list ptr) exec" where
  "ring_io_read ring out len =
     (case (ring, out) of
        (Some r, Some buf) \<Rightarrow>
          (case rio_data r of
             None \<Rightarrow> Some (0, ring, out)
           | Some data \<Rightarrow>
               if len = 0 \<or> rio_size r = 0 \<or> rio_capacity r = 0 then Some (0, ring, out)
               else let chunk = (if rio_size r < len then rio_size r else len);
                        room = sz_sub (rio_capacity r) (rio_read_pos r);
                        first = (if room < chunk then room else chunk) in
                 do { buf \<leftarrow> memcpy buf 0 data (rio_read_pos r) first;
                      buf \<leftarrow> (if first < chunk then memcpy buf first data 0 (chunk - first) else Some buf);
                      Some (chunk,
                            Some (r\<lparr>rio_read_pos := sz_add (rio_read_pos r) chunk mod rio_capacity r,
                                    rio_size := rio_size r - chunk\<rparr>),
                            Some buf) })
      | _ \<Rightarrow> Some (0, ring, out))"

definition ring_io_write ::
  "ring_io ptr \<Rightarrow> u8 list ptr \<Rightarrow> size_t \<Rightarrow> (size_t \<times> ring_io ptr) exec" where
  "ring_io_write ring in_buf len =
     (case (ring, in_buf) of
        (Some r, Some src) \<Rightarrow>
          (case rio_data r of
             None \<Rightarrow> Some (0, ring)
           | Some data \<Rightarrow>
               if len = 0 \<or> rio_capacity r = 0 then Some (0, ring)
               else let free_space = ring_io_free_space ring in
               if free_space = 0 then Some (0, ring)
               else let chunk = (if free_space < len then free_space else len);
                        room = sz_sub (rio_capacity r) (rio_write_pos r);
                        first = (if room < chunk then room else chunk) in
                 do { data \<leftarrow> memcpy data (rio_write_pos r) src 0 first;
                      data \<leftarrow> (if first < chunk then memcpy data 0 src first (chunk - first) else Some data);
                      Some (chunk,
                            Some (r\<lparr>rio_data := Some data,
                                    rio_write_pos := sz_add (rio_write_pos r) chunk mod rio_capacity r,
                                    rio_size := sz_add (rio_size r) chunk\<rparr>)) })
      | _ \<Rightarrow> Some (0, ring))"


section \<open>Content of a ring\<close>

text \<open>
  \<open>ring_seq d c p n\<close> reads \<open>n\<close> cells from position \<open>p\<close> of a circular buffer of
  \<open>c\<close> cells. It is shared by the three kinds of ring.
\<close>

definition ring_seq :: "'a list \<Rightarrow> nat \<Rightarrow> nat \<Rightarrow> nat \<Rightarrow> 'a list" where
  "ring_seq d c p n = map (\<lambda>i. d ! ((p + i) mod c)) [0..<n]"

lemma length_ring_seq [simp]: "length (ring_seq d c p n) = n"
  by (simp add: ring_seq_def)

lemma nth_ring_seq [simp]: "i < n \<Longrightarrow> ring_seq d c p n ! i = d ! ((p + i) mod c)"
  by (simp add: ring_seq_def)

lemma ring_seq_0 [simp]: "ring_seq d c p 0 = []"
  by (simp add: ring_seq_def)

lemma take_ring_seq: "take k (ring_seq d c p n) = ring_seq d c p (min k n)"
  by (simp add: ring_seq_def take_map min_def)

lemma drop_ring_seq: "k \<le> n \<Longrightarrow> drop k (ring_seq d c p n) = ring_seq d c ((p + k) mod c) (n - k)"
  by (rule nth_equalityI) (simp_all add: mod_add_left_eq add.assoc)

lemma ring_seq_append: "ring_seq d c p (m + n) = ring_seq d c p m @ ring_seq d c ((p + m) mod c) n"
proof (rule nth_equalityI)
  fix i assume i: "i < length (ring_seq d c p (m + n))"
  show "ring_seq d c p (m + n) ! i = (ring_seq d c p m @ ring_seq d c ((p + m) mod c) n) ! i"
  proof (cases "i < m")
    case True
    then show ?thesis by (simp add: nth_append)
  next
    case False
    then obtain k where "i = m + k" by (metis le_add_diff_inverse not_less)
    then show ?thesis using i by (simp add: nth_append mod_add_left_eq add.assoc)
  qed
qed simp

lemma ring_seq_eqI:
  assumes "\<And>i. i < n \<Longrightarrow> d ! ((p + i) mod c) = xs ! i" "length xs = n"
  shows "ring_seq d c p n = xs"
  using assms by (intro nth_equalityI) simp_all

lemma ring_seq_cong:
  assumes "\<And>i. i < n \<Longrightarrow> d ! ((p + i) mod c) = e ! ((p + i) mod c)"
  shows "ring_seq d c p n = ring_seq e c p n"
  using assms by (intro nth_equalityI) simp_all

lemma ring_seq_contiguous:
  assumes "p + n \<le> c" "c \<le> length d"
  shows "ring_seq d c p n = take n (drop p d)"
  using assms by (intro nth_equalityI) simp_all

text \<open>The two-part copy reads, or writes, a circular range.\<close>

lemma ring_seq_two_parts:
  assumes "p < c" "n \<le> c" "c \<le> length d"
  shows "ring_seq d c p n = take (min n (c - p)) (drop p d) @ take (n - min n (c - p)) d"
proof (cases "n \<le> c - p")
  case True
  then show ?thesis using assms by (simp add: ring_seq_contiguous min_def)
next
  case False
  then have "n = (c - p) + (n - (c - p))" using assms by simp
  then have "ring_seq d c p n = ring_seq d c p (c - p) @ ring_seq d c 0 (n - (c - p))"
    using ring_seq_append [of d c p "c - p" "n - (c - p)"] assms by simp
  then show ?thesis using assms False by (simp add: ring_seq_contiguous min_def)
qed

lemma two_part_write_nth:
  assumes "p < c" "n \<le> c" "c = length d" "n \<le> length src" "f = min n (c - p)"
    "d1 = take p d @ take f src @ drop (p + f) d"
    "d2 = take (n - f) (drop f src) @ drop (n - f) d1"
    "j < c"
  shows "d2 ! j = (if p \<le> j \<and> j < p + f then src ! (j - p) else if j < n - f then src ! (f + j) else d ! j)"
proof -
  have f: "f \<le> n" "p + f \<le> c" "f = n \<or> f = c - p" using assms(1,5) by auto
  then have l1: "length d1 = c" using assms(3,4,6) by simp
  have d1: "d1 ! j = (if p \<le> j \<and> j < p + f then src ! (j - p) else d ! j)"
    using assms(3,4,6,8) f by (auto simp: nth_append)
  show ?thesis
  proof (cases "j < n - f")
    case True
    then have "\<not> p \<le> j" using assms(1,2) f by linarith
    with True assms(4) f show ?thesis by (simp add: assms(7) nth_append)
  next
    case False
    then have "d2 ! j = d1 ! j" using assms(4,8) l1 f by (simp add: assms(7) nth_append)
    with False show ?thesis by (simp only: d1 if_False)
  qed
qed

lemma ring_seq_two_part_write:
  assumes "p < c" "n \<le> c" "c = length d" "n \<le> length src" "f = min n (c - p)"
    "d1 = take p d @ take f src @ drop (p + f) d"
    "d2 = take (n - f) (drop f src) @ drop (n - f) d1"
  shows "ring_seq d2 c p n = take n src" "length d2 = c"
    "\<And>j. j < c \<Longrightarrow> (\<And>i. i < n \<Longrightarrow> j \<noteq> (p + i) mod c) \<Longrightarrow> d2 ! j = d ! j"
proof -
  note nth = two_part_write_nth [OF assms]
  have f: "f \<le> n" "p + f \<le> c" using assms(1,5) by simp_all
  then have "length d1 = c" using assms(3,4,6) by simp
  then show "length d2 = c" using assms(2,4,7) f by simp
  show "ring_seq d2 c p n = take n src"
  proof (rule ring_seq_eqI)
    fix i assume i: "i < n"
    have m: "(p + i) mod c = (if p + i < c then p + i else p + i - c)"
      using i assms by (intro mod_add_wrap) simp_all
    have "f = n \<or> f = c - p \<and> f < n" using assms(5) by linarith
    moreover have "(p + i) mod c < c" using assms(1) by simp
    ultimately show "d2 ! ((p + i) mod c) = take n src ! i"
      using nth [of "(p + i) mod c"] i assms(1,2) f by (auto simp: m)
  qed (use assms in simp)
  fix j assume j: "j < c" "\<And>i. i < n \<Longrightarrow> j \<noteq> (p + i) mod c"
  have "\<not> (p \<le> j \<and> j < p + f)" using j(1) j(2) [of "j - p"] f by fastforce
  moreover have "\<not> j < n - f"
  proof
    assume "j < n - f"
    then have "j + (c - p) < n" using assms(5) by (simp only: min_def split: if_splits)
    moreover have "p + (j + (c - p)) = j + c" using assms(1) by simp
    then have "(p + (j + (c - p))) mod c = j" using j(1) by simp
    ultimately show False using j(2) [of "j + (c - p)"] by simp
  qed
  ultimately show "d2 ! j = d ! j" using nth [OF j(1)] by auto
qed


section \<open>The byte ring implements a bounded queue\<close>

text \<open>
  Positions stay below half the address space, so that advancing a position by a chunk does not
  wrap; the capacity is the length of the buffer the ring was given.
\<close>

definition rio_inv :: "ring_io \<Rightarrow> bool" where
  "rio_inv r \<longleftrightarrow>
     (\<exists>d. rio_data r = Some d \<and> length d = rio_capacity r) \<and>
     0 < rio_capacity r \<and> 2 * rio_capacity r \<le> SIZE_MAX \<and>
     rio_read_pos r < rio_capacity r \<and> rio_size r \<le> rio_capacity r \<and>
     rio_write_pos r = (rio_read_pos r + rio_size r) mod rio_capacity r"

definition rio_content :: "ring_io \<Rightarrow> u8 list" where
  "rio_content r = ring_seq (the (rio_data r)) (rio_capacity r) (rio_read_pos r) (rio_size r)"

lemma rio_content_length [simp]: "length (rio_content r) = rio_size r"
  by (simp add: rio_content_def)

lemma ring_io_init_spec:
  assumes "0 < length d" "2 * length d \<le> SIZE_MAX"
  shows "\<exists>r'. ring_io_init (Some r) (Some d) (length d) = Some r' \<and> rio_inv r' \<and>
           rio_capacity r' = length d \<and> rio_content r' = []"
  using assms by (simp add: ring_io_init_def ring_io_reset_def rio_inv_def rio_content_def)

lemma ring_io_reset_spec:
  assumes "rio_inv r"
  shows "\<exists>r'. ring_io_reset (Some r) = Some r' \<and> rio_inv r' \<and>
           rio_capacity r' = rio_capacity r \<and> rio_content r' = []"
  using assms by (simp add: ring_io_reset_def rio_inv_def rio_content_def)

lemma ring_io_read_spec:
  assumes inv: "rio_inv r" and len: "min len (rio_size r) \<le> length buf"
  shows "\<exists>r'. ring_io_read (Some r) (Some buf) len =
           Some (min len (rio_size r), Some r',
                 Some (take len (rio_content r) @ drop (min len (rio_size r)) buf)) \<and>
           rio_inv r' \<and> rio_capacity r' = rio_capacity r \<and> rio_content r' = drop len (rio_content r)"
proof -
  obtain d where d: "rio_data r = Some d" "length d = rio_capacity r" using inv by (auto simp: rio_inv_def)
  define c p n where "c = rio_capacity r" and "p = rio_read_pos r" and "n = min len (rio_size r)"
  define f where "f = min n (c - p)"
  have b: "0 < c" "2 * c \<le> SIZE_MAX" "p < c" "rio_size r \<le> c" "n \<le> c" "n \<le> rio_size r" "n \<le> length buf"
    "f \<le> n" "p + f \<le> c"
    using inv len by (auto simp: rio_inv_def c_def p_def n_def f_def)
  show ?thesis
  proof (cases "len = 0 \<or> rio_size r = 0")
    case True
    then show ?thesis using inv d by (auto simp: ring_io_read_def rio_content_def)
  next
    case False
    let ?r = "r\<lparr>rio_read_pos := (p + n) mod c, rio_size := rio_size r - n\<rparr>"
    have w: "sz_sub c p = c - p" "sz_add p n = p + n" using b by (simp_all add: sz_simps)
    have chunk: "(if rio_size r < len then rio_size r else len) = n"
      "(if c - p < n then c - p else n) = f"
      by (auto simp: n_def f_def)
    have two: "take f (drop p d) @ take (n - f) d = take len (rio_content r)"
      using ring_seq_two_parts [of p c n d] b d
      by (simp add: rio_content_def take_ring_seq c_def p_def n_def f_def)
    have buf: "(if f < n then memcpy (take f (drop p d) @ drop f buf) f d 0 (n - f)
                else Some (take f (drop p d) @ drop f buf)) = Some (take len (rio_content r) @ drop n buf)"
    proof (cases "f < n")
      case True
      then show ?thesis using b d by (simp add: two [symmetric] memcpy_ok c_def)
    next
      case False
      then have "f = n" using b by simp
      then show ?thesis using two by simp
    qed
    have step: "ring_io_read (Some r) (Some buf) len = Some (n, Some ?r, Some (take len (rio_content r) @ drop n buf))"
      using False b d buf
      by (cases "f < n")
        (simp_all add: ring_io_read_def Let_def c_def [symmetric] p_def [symmetric] w chunk memcpy_ok)
    have wp: "rio_write_pos r = (p + rio_size r) mod c"
      using inv by (simp add: rio_inv_def c_def p_def)
    have "((p + n) mod c + (rio_size r - n)) mod c = (p + rio_size r) mod c"
      unfolding mod_add_left_eq using b by simp
    then have "rio_inv ?r"
      using b wp d by (simp add: rio_inv_def c_def [symmetric])
    moreover have "rio_content ?r = drop n (rio_content r)"
      using b by (simp add: rio_content_def drop_ring_seq c_def p_def)
    moreover have "drop n (rio_content r) = drop len (rio_content r)"
      by (simp add: n_def min_def)
    ultimately show ?thesis using step unfolding n_def [symmetric] by simp
  qed
qed

lemma ring_io_write_spec:
  assumes inv: "rio_inv r" and len: "len \<le> length src"
  defines "n \<equiv> min len (rio_capacity r - rio_size r)"
  shows "\<exists>r'. ring_io_write (Some r) (Some src) len = Some (n, Some r') \<and>
           rio_inv r' \<and> rio_capacity r' = rio_capacity r \<and> rio_content r' = rio_content r @ take n src"
proof -
  obtain d where d: "rio_data r = Some d" "length d = rio_capacity r" using inv by (auto simp: rio_inv_def)
  define c p w where "c = rio_capacity r" and "p = rio_read_pos r" and "w = rio_write_pos r"
  define f where "f = min n (c - w)"
  define d1 where "d1 = take w d @ take f src @ drop (w + f) d"
  define d2 where "d2 = take (n - f) (drop f src) @ drop (n - f) d1"
  have wp: "w = (p + rio_size r) mod c" using inv by (simp add: rio_inv_def c_def p_def w_def)
  have b: "0 < c" "2 * c \<le> SIZE_MAX" "p < c" "rio_size r + n \<le> c" "n \<le> length src" "w < c" "c = length d"
    using inv len d wp by (auto simp: rio_inv_def c_def p_def n_def)
  have f: "f \<le> n" "w + f \<le> c" using b by (auto simp: f_def)
  show ?thesis
  proof (cases "len = 0 \<or> rio_size r = rio_capacity r")
    case True
    then show ?thesis using inv d by (auto simp: ring_io_write_def ring_io_free_space_def n_def rio_inv_def)
  next
    case False
    let ?r = "r\<lparr>rio_data := Some d2, rio_write_pos := (w + n) mod c, rio_size := rio_size r + n\<rparr>"
    have wr: "sz_sub c w = c - w" "sz_add w n = w + n" "sz_add (rio_size r) n = rio_size r + n"
      using b by (simp_all add: sz_simps)
    have fs: "ring_io_free_space (Some r) = c - rio_size r" "c - rio_size r \<noteq> 0"
      using False b by (auto simp: ring_io_free_space_def c_def)
    have chunk: "(if c - rio_size r < len then c - rio_size r else len) = n"
      "(if c - w < n then c - w else n) = f"
      by (auto simp: n_def f_def c_def)
    have data: "(if f < n then memcpy d1 0 src f (n - f) else Some d1) = Some d2"
      using f b by (auto simp: memcpy_ok d1_def d2_def)
    have d1: "memcpy d w src 0 f = Some d1"
      using f b by (simp add: memcpy_ok d1_def)
    have step: "ring_io_write (Some r) (Some src) len = Some (n, Some ?r)"
      using False b(1) fs d(1) data
      by (cases "f < n")
        (simp_all add: ring_io_write_def Let_def c_def [symmetric] w_def [symmetric] fs wr chunk d1)
    have nle: "n \<le> c" using b by simp
    note two = ring_seq_two_part_write [OF b(6) nle b(7) b(5) f_def d1_def d2_def]
    have keep: "d2 ! ((p + i) mod c) = d ! ((p + i) mod c)" if "i < rio_size r" for i
    proof (rule two(3))
      fix k assume k: "k < n"
      have "(w + k) mod c = (p + (rio_size r + k)) mod c"
        by (simp add: wp mod_add_left_eq add.assoc)
      moreover have "(p + i) mod c \<noteq> (p + (rio_size r + k)) mod c"
        using mod_pos_inj [of i c "rio_size r + k" p] that k b by auto
      ultimately show "(p + i) mod c \<noteq> (w + k) mod c" by simp
    qed (use b in simp)
    have "ring_seq d2 c p (rio_size r) = ring_seq d c p (rio_size r)"
      using keep by (intro ring_seq_cong)
    then have "rio_content ?r = rio_content r @ take n src"
      using two(1) d by (simp add: rio_content_def ring_seq_append wp c_def p_def)
    moreover have "rio_inv ?r"
      using inv b two(2) wp by (simp add: rio_inv_def c_def p_def mod_add_left_eq add.assoc)
    ultimately show ?thesis using step by simp
  qed
qed


section \<open>Interpretation\<close>

text \<open>The byte ring as a client uses it: whole transfers from and to buffers of the right size.\<close>

definition rio_put :: "ring_io \<Rightarrow> u8 list \<Rightarrow> (nat \<times> ring_io) exec" where
  "rio_put r xs = do { (n, r) \<leftarrow> ring_io_write (Some r) (Some xs) (length xs); r \<leftarrow> r; Some (n, r) }"

definition rio_get :: "ring_io \<Rightarrow> nat \<Rightarrow> (u8 list \<times> ring_io) exec" where
  "rio_get r k =
     do { (n, r, out) \<leftarrow> ring_io_read (Some r) (Some (replicate k 0)) k;
          r \<leftarrow> r; out \<leftarrow> out; Some (take n out, r) }"

interpretation rio: bounded_fifo rio_inv rio_capacity rio_content rio_get "\<lambda>_. True" rio_put
proof
  fix r :: ring_io and xs :: "u8 list" and k :: nat
  assume inv: "rio_inv r"
  show "\<exists>n r'. rio_put r xs = Some (n, r') \<and> n \<le> length xs \<and> rio_inv r' \<and>
          rio_capacity r' = rio_capacity r \<and> rio_content r' = rio_content r @ take n xs \<and>
          (n < length xs \<longrightarrow> length (rio_content r') = rio_capacity r)"
  proof -
    let ?n = "min (length xs) (rio_capacity r - rio_size r)"
    obtain r' where r': "ring_io_write (Some r) (Some xs) (length xs) = Some (?n, Some r')"
      "rio_inv r'" "rio_capacity r' = rio_capacity r" "rio_content r' = rio_content r @ take ?n xs"
      using ring_io_write_spec [OF inv, of "length xs" xs] by auto
    have "rio_size r \<le> rio_capacity r" using inv by (simp add: rio_inv_def)
    moreover have "rio_size r' = rio_size r + ?n"
      using arg_cong [OF r'(4), of length] by simp
    ultimately have "?n < length xs \<longrightarrow> rio_size r' = rio_capacity r"
      by linarith
    then show ?thesis using r' by (simp add: rio_put_def)
  qed
  show "\<exists>r'. rio_get r k = Some (take k (rio_content r), r') \<and> rio_inv r' \<and>
          rio_capacity r' = rio_capacity r \<and> rio_content r' = drop k (rio_content r)"
  proof -
    have "take (min k (rio_size r)) (rio_content r) = take k (rio_content r)"
      by (cases "k \<le> rio_size r") (simp_all add: min_def)
    then show ?thesis
      using ring_io_read_spec [OF inv, of k "replicate k 0"] by (auto simp: rio_get_def)
  qed
  show "length (rio_content r) \<le> rio_capacity r"
    using inv by (simp add: rio_inv_def)
qed


section \<open>Properties\<close>

definition demo_rio :: ring_io where
  "demo_rio = \<lparr>rio_data = Some [4, 0, 0, 0, 1, 2, 3], rio_capacity = 7, rio_read_pos = 4, rio_write_pos = 1, rio_size = 4\<rparr>"

lemma demo_rio_inv: "rio_inv demo_rio"
  by (simp add: rio_inv_def demo_rio_def SIZE_MAX_def)

text \<open>
  (C17) The byte ring is a first-in first-out stream: for every interleaving of \<open>ring_io_write\<close> and
  \<open>ring_io_read\<close> calls, whatever their sizes and wherever they wrap, all calls stay inside the
  buffers, and the initial content followed by the bytes accepted is the bytes delivered
  followed by the final content. No byte is lost, duplicated or reordered.
\<close>

theorem ring_io_stream:
  assumes "rio_inv r"
  shows "\<exists>acc del r'. queue_run rio_put rio_get r ops = Some (acc, del, r') \<and> rio_inv r' \<and>
           rio_content r @ acc = del @ rio_content r'"
  using rio.run_fifo [OF assms, of ops] by (auto simp: list_all_iff)

theorem ring_io_stream_witness:
  "rio_inv demo_rio \<and>
   (\<exists>r'. queue_run rio_put rio_get demo_rio [Put [5, 6], Get 5, Put [7, 8, 9]] =
      Some ([5, 6, 7, 8, 9], [1, 2, 3, 4, 5], r') \<and> rio_content r' = [6, 7, 8, 9])"
proof -
  have c: "rio_content demo_rio = [1, 2, 3, 4]" by code_simp
  have "map_option (\<lambda>(a, d, r). (a, d)) (queue_run rio_put rio_get demo_rio [Put [5, 6], Get 5, Put [7, 8, 9]])
        = Some ([5, 6, 7, 8, 9], [1, 2, 3, 4, 5])" by code_simp
  then show ?thesis
    using demo_rio_inv ring_io_stream [OF demo_rio_inv, of "[Put [5, 6], Get 5, Put [7, 8, 9]]"] c by auto
qed

text \<open>
  (C31) \<open>ring_io_read\<close> and \<open>ring_io_write\<close> transfer as much as they can and no more: a read of
  \<open>len\<close> bytes returns the lesser of \<open>len\<close> and the queued amount and puts exactly those bytes at the
  start of the caller's buffer, and a write of the caller's bytes accepts as many as there is free space for.
\<close>

theorem ring_io_transfer:
  assumes "rio_inv r" "min len (rio_size r) \<le> length out" "n \<le> length src"
  shows "(\<exists>r'. ring_io_read (Some r) (Some out) len =
             Some (min len (rio_size r), Some r', Some (take len (rio_content r) @ drop (min len (rio_size r)) out)) \<and>
             rio_inv r' \<and> rio_content r' = drop len (rio_content r)) \<and>
         (\<exists>r'. ring_io_write (Some r) (Some src) n = Some (min n (ring_io_free_space (Some r)), Some r') \<and>
             rio_inv r' \<and> rio_content r' = rio_content r @ take (min n (ring_io_free_space (Some r))) src)"
proof -
  have "ring_io_free_space (Some r) = rio_capacity r - rio_size r"
    using assms(1) by (simp add: ring_io_free_space_def rio_inv_def)
  then show ?thesis
    using ring_io_read_spec [OF assms(1,2)] ring_io_write_spec [OF assms(1,3)] by auto
qed

theorem ring_io_transfer_witness:
  "rio_inv demo_rio \<and> (\<exists>r'. ring_io_read (Some demo_rio) (Some [0, 0]) 2 = Some (2, Some r', Some [1, 2]) \<and> rio_inv r')"
proof -
  have "rio_content demo_rio = [1, 2, 3, 4]" "rio_size demo_rio = 4" by code_simp+
  then show ?thesis using demo_rio_inv ring_io_transfer [OF demo_rio_inv, of 2 "[0, 0]" 0 "[]"] by auto
qed

end
