(* ===== verification/Ring_Buffer.thy ===== *)
theory Ring_Buffer
  imports Ring_IO
begin

text \<open>
  The overwriting byte ring \<open>ring_buffer_t\<close> of \<open>libs/data/ring.c\<close>, which carries the kernel log
  and the device event streams. Its size is a power of two and one cell stays empty, so that
  equal indices mean an empty ring; a full ring gives up its oldest bytes.
\<close>

record ring_buffer =
  rb_buffer :: "u8 list"
  rb_size :: size_t
  rb_head_index :: size_t
  rb_tail_index :: size_t

definition ring_mask :: "ring_buffer \<Rightarrow> size_t" where
  "ring_mask ring = sz_sub (rb_size ring) 1"

definition ring_capacity :: "ring_buffer \<Rightarrow> size_t" where
  "ring_capacity ring = ring_mask ring"

definition ring_used :: "ring_buffer \<Rightarrow> size_t" where
  "ring_used ring = sz_sub (rb_head_index ring) (rb_tail_index ring) AND ring_mask ring"

definition ring_free :: "ring_buffer \<Rightarrow> size_t" where
  "ring_free ring = sz_sub (ring_capacity ring) (ring_used ring)"

text \<open>
  \<open>node_ok\<close> tells whether the allocation of the control block succeeds, \<open>malloc\<close> is the
  allocator: the uninitialised block it returns for a size, or None.
\<close>

definition ring_buffer_create :: "bool \<Rightarrow> (size_t \<Rightarrow> u8 list ptr) \<Rightarrow> size_t \<Rightarrow> ring_buffer ptr" where
  "ring_buffer_create node_ok malloc sz =
     (if sz < 2 \<or> sz AND (sz - 1) \<noteq> 0 then None
      else if \<not> node_ok then None
      else case malloc sz of
             None \<Rightarrow> None
           | Some buf \<Rightarrow> Some \<lparr>rb_buffer = buf, rb_size = sz, rb_head_index = 0, rb_tail_index = 0\<rparr>)"

definition ring_buffer_is_full :: "ring_buffer \<Rightarrow> bool" where
  "ring_buffer_is_full ring \<longleftrightarrow> ring_used ring = ring_capacity ring"

definition ring_buffer_is_empty :: "ring_buffer \<Rightarrow> bool" where
  "ring_buffer_is_empty ring \<longleftrightarrow> rb_head_index ring = rb_tail_index ring"

definition ring_buffer_clear :: "ring_buffer \<Rightarrow> ring_buffer" where
  "ring_buffer_clear ring = ring\<lparr>rb_head_index := rb_tail_index ring\<rparr>"

text \<open>The assignment \<open>tail_index = (tail_index + n) & mask\<close> and the byte store at the head.\<close>

definition ring_advance_tail :: "ring_buffer \<Rightarrow> size_t \<Rightarrow> ring_buffer" where
  "ring_advance_tail ring n =
     ring\<lparr>rb_tail_index := sz_add (rb_tail_index ring) n AND ring_mask ring\<rparr>"

definition ring_store_head :: "ring_buffer \<Rightarrow> u8 \<Rightarrow> ring_buffer exec" where
  "ring_store_head ring data =
     do { buf \<leftarrow> store (rb_buffer ring) (rb_head_index ring) data;
          Some (ring\<lparr>rb_buffer := buf,
                     rb_head_index := sz_add (rb_head_index ring) 1 AND ring_mask ring\<rparr>) }"

definition ring_buffer_push :: "ring_buffer \<Rightarrow> u8 \<Rightarrow> ring_buffer exec" where
  "ring_buffer_push ring data =
     (let ring = (if ring_buffer_is_full ring then ring_advance_tail ring 1 else ring)
      in ring_store_head ring data)"

text \<open>The copy loop of the array and record insertions, with \<open>data\<close> advanced by \<open>off\<close>.\<close>

function ring_push_loop :: "ring_buffer \<Rightarrow> u8 list \<Rightarrow> size_t \<Rightarrow> size_t \<Rightarrow> size_t \<Rightarrow> ring_buffer exec" where
  "ring_push_loop ring data off i len =
     (if i < len
      then do { b \<leftarrow> load data (off + i);
                ring \<leftarrow> ring_store_head ring b;
                ring_push_loop ring data off (i + 1) len }
      else Some ring)"
  by auto
termination by (relation "measure (\<lambda>(ring, data, off, i, len). len - i)") auto

declare ring_push_loop.simps [simp del]

definition ring_buffer_push_array :: "ring_buffer ptr \<Rightarrow> u8 list ptr \<Rightarrow> size_t \<Rightarrow> ring_buffer ptr exec" where
  "ring_buffer_push_array ring data len =
     (case (ring, data) of
        (Some r, Some bytes) \<Rightarrow>
          if len = 0 \<or> rb_size r < 2 then Some ring
          else let capacity = ring_capacity r;
                   off = (if capacity < len then len - capacity else 0);
                   n = (if capacity < len then capacity else len);
                   r = (if capacity < len then r\<lparr>rb_tail_index := rb_head_index r\<rparr>
                        else let free_bytes = ring_free r in
                          if free_bytes < len then ring_advance_tail r (len - free_bytes) else r) in
            do { r \<leftarrow> ring_push_loop r bytes off 0 n; Some (Some r) }
      | _ \<Rightarrow> Some ring)"

text \<open>
  The loop that makes room for a record. Whether it ends depends on the state, so that a run
  that does not end is None.
\<close>

partial_function (option) ring_make_room :: "ring_buffer \<Rightarrow> size_t \<Rightarrow> ring_buffer exec" where
  "ring_make_room ring len =
     (if ring_free ring < len
      then ring_make_room
             (ring_advance_tail ring (if ring_used ring < len then ring_used ring else len)) len
      else Some ring)"

definition ring_buffer_push_record :: "ring_buffer ptr \<Rightarrow> u8 list ptr \<Rightarrow> size_t \<Rightarrow> ring_buffer ptr exec" where
  "ring_buffer_push_record ring data len =
     (case (ring, data) of
        (Some r, Some bytes) \<Rightarrow>
          if len = 0 \<or> rb_size r < 2 then Some ring
          else if ring_capacity r < len then Some ring
          else do { r \<leftarrow> ring_make_room r len;
                    r \<leftarrow> ring_push_loop r bytes 0 0 len;
                    Some (Some r) }
      | _ \<Rightarrow> Some ring)"

definition ring_buffer_pop :: "ring_buffer \<Rightarrow> u8 cursor \<Rightarrow> (bool \<times> ring_buffer \<times> u8 cursor) exec" where
  "ring_buffer_pop ring out =
     (if ring_buffer_is_empty ring then Some (False, ring, out)
      else do { out \<leftarrow> (case out of
                          None \<Rightarrow> Some None
                        | Some (buf, at) \<Rightarrow>
                            do { b \<leftarrow> load (rb_buffer ring) (rb_tail_index ring);
                                 buf \<leftarrow> store buf at b;
                                 Some (Some (buf, at)) });
                Some (True, ring_advance_tail ring 1, out) })"

function ring_pop_loop :: "ring_buffer \<Rightarrow> u8 cursor \<Rightarrow> size_t \<Rightarrow> size_t \<Rightarrow> (size_t \<times> ring_buffer \<times> u8 cursor) exec" where
  "ring_pop_loop ring cursor i len =
     (if i < len
      then do { (ok, ring, cursor) \<leftarrow> ring_buffer_pop ring cursor;
                if ok
                then ring_pop_loop ring (case cursor of None \<Rightarrow> None | Some (buf, at) \<Rightarrow> Some (buf, at + 1)) (i + 1) len
                else Some (i, ring, cursor) }
      else Some (i, ring, cursor))"
  by auto
termination by (relation "measure (\<lambda>(ring, cursor, i, len). len - i)") auto

declare ring_pop_loop.simps [simp del]

definition ring_buffer_pop_array ::
  "ring_buffer \<Rightarrow> u8 list ptr \<Rightarrow> size_t \<Rightarrow> (size_t \<times> ring_buffer \<times> u8 list ptr) exec" where
  "ring_buffer_pop_array ring out len =
     (if ring_buffer_is_empty ring then Some (0, ring, out)
      else do { (i, ring, cursor) \<leftarrow> ring_pop_loop ring (map_option (\<lambda>buf. (buf, 0)) out) 0 len;
                Some (i, ring, map_option fst cursor) })"


section \<open>Invariant and content\<close>

definition rb_inv :: "ring_buffer \<Rightarrow> bool" where
  "rb_inv r \<longleftrightarrow>
     (\<exists>k. 1 \<le> k \<and> k < 64 \<and> rb_size r = 2 ^ k) \<and> length (rb_buffer r) = rb_size r \<and>
     rb_head_index r < rb_size r \<and> rb_tail_index r < rb_size r"

definition rb_content :: "ring_buffer \<Rightarrow> u8 list" where
  "rb_content r = ring_seq (rb_buffer r) (rb_size r) (rb_tail_index r) (ring_used r)"

lemma rb_content_length [simp]: "length (rb_content r) = ring_used r"
  by (simp add: rb_content_def)

lemma rb_content_Nil_iff [simp]: "rb_content r = [] \<longleftrightarrow> ring_used r = 0"
  by (metis rb_content_length length_0_conv)

lemma rb_size_bounds:
  assumes "rb_inv r"
  shows "2 \<le> rb_size r" "2 * rb_size r \<le> 2 ^ 64" "ring_mask r = rb_size r - 1" "ring_capacity r = rb_size r - 1"
proof -
  obtain k where k: "1 \<le> k" "k < 64" "rb_size r = 2 ^ k" using assms by (auto simp: rb_inv_def)
  have "(2::nat) ^ 1 \<le> 2 ^ k" using k(1) by (intro power_increasing) simp_all
  moreover have "(2::nat) ^ Suc k \<le> 2 ^ 64" using k(2) by (intro power_increasing) simp_all
  ultimately show *: "2 \<le> rb_size r" "2 * rb_size r \<le> 2 ^ 64" using k(3) by simp_all
  then show "ring_mask r = rb_size r - 1" "ring_capacity r = rb_size r - 1"
    by (simp_all add: ring_mask_def ring_capacity_def sz_simps SIZE_MAX_def)
qed

lemma rb_mask_mod:
  assumes "rb_inv r"
  shows "x AND ring_mask r = x mod rb_size r"
proof -
  obtain k where "rb_size r = 2 ^ k" using assms by (auto simp: rb_inv_def)
  then show ?thesis using rb_size_bounds(3) [OF assms] and_mask_mod [of x k] by simp
qed

lemma ring_used_eq:
  assumes "rb_inv r"
  shows "ring_used r = (rb_head_index r + rb_size r - rb_tail_index r) mod rb_size r"
proof -
  let ?s = "rb_size r" and ?h = "rb_head_index r" and ?t = "rb_tail_index r"
  have b: "?h < ?s" "?t < ?s" "2 * ?s \<le> 2 ^ 64" "2 \<le> ?s"
    using assms rb_size_bounds [OF assms] by (auto simp: rb_inv_def)
  obtain k where k: "k < 64" "?s = 2 ^ k" using assms by (auto simp: rb_inv_def)
  have dv: "(2 ^ 64 :: nat) = ?s * 2 ^ (64 - k)"
    using k by (simp add: power_add [symmetric])
  show ?thesis
  proof (cases "?t \<le> ?h")
    case True
    then have "sz_sub ?h ?t = ?h - ?t" using b by (simp add: sz_simps SIZE_MAX_def)
    moreover have "?h + ?s - ?t = (?h - ?t) + ?s" using True by simp
    ultimately show ?thesis by (simp add: ring_used_def rb_mask_mod [OF assms])
  next
    case False
    then have "sz_sub ?h ?t = ?h + 2 ^ 64 - ?t" using b by (simp add: sz_sub_wrap SIZE_MAX_def)
    also have "\<dots> = (?h + ?s - ?t) + (2 ^ 64 - ?s)" using b False by simp
    also have "\<dots> = (?h + ?s - ?t) + ?s * (2 ^ (64 - k) - 1)"
      by (subst dv) (simp add: right_diff_distrib')
    finally show ?thesis by (simp add: ring_used_def rb_mask_mod [OF assms])
  qed
qed

lemma ring_used_less: "rb_inv r \<Longrightarrow> ring_used r < rb_size r"
  using rb_size_bounds(1) [of r] by (simp add: ring_used_eq)

lemma ring_used_le: "rb_inv r \<Longrightarrow> ring_used r \<le> ring_capacity r"
  using ring_used_less [of r] rb_size_bounds(4) [of r] by simp

lemma rb_head_eq:
  assumes "rb_inv r"
  shows "rb_head_index r = (rb_tail_index r + ring_used r) mod rb_size r"
proof -
  have b: "rb_head_index r < rb_size r" "rb_tail_index r < rb_size r" using assms by (simp_all add: rb_inv_def)
  have "(rb_tail_index r + ring_used r) mod rb_size r
        = (rb_tail_index r + (rb_head_index r + rb_size r - rb_tail_index r)) mod rb_size r"
    by (simp only: ring_used_eq [OF assms] mod_add_right_eq)
  also have "rb_tail_index r + (rb_head_index r + rb_size r - rb_tail_index r) = rb_head_index r + rb_size r"
    using b by simp
  finally show ?thesis using b by simp
qed

lemma ring_used_unique:
  assumes "rb_inv r" "u < rb_size r" "rb_head_index r = (rb_tail_index r + u) mod rb_size r"
  shows "ring_used r = u"
  using mod_pos_inj [OF ring_used_less [OF assms(1)] assms(2), of "rb_tail_index r"]
    rb_head_eq [OF assms(1)] assms(3) by simp

lemma rb_empty_iff:
  assumes "rb_inv r"
  shows "ring_buffer_is_empty r \<longleftrightarrow> ring_used r = 0"
proof
  assume "ring_buffer_is_empty r"
  then show "ring_used r = 0"
    using assms by (intro ring_used_unique) (auto simp: ring_buffer_is_empty_def rb_inv_def)
next
  assume "ring_used r = 0"
  then show "ring_buffer_is_empty r"
    using assms rb_head_eq [OF assms] by (simp add: ring_buffer_is_empty_def rb_inv_def)
qed

lemma ring_free_eq: "rb_inv r \<Longrightarrow> ring_free r = ring_capacity r - ring_used r"
  using ring_used_le [of r] rb_size_bounds [of r]
  by (simp add: ring_free_def sz_simps SIZE_MAX_def)

lemma advance_tail_spec:
  assumes inv: "rb_inv r" and n: "n \<le> ring_used r"
  shows "rb_inv (ring_advance_tail r n)" "rb_size (ring_advance_tail r n) = rb_size r"
    "ring_used (ring_advance_tail r n) = ring_used r - n"
    "rb_content (ring_advance_tail r n) = drop n (rb_content r)"
proof -
  let ?s = "rb_size r" and ?t = "rb_tail_index r" and ?r = "ring_advance_tail r n"
  have b: "?t < ?s" "ring_used r < ?s" "2 * ?s \<le> 2 ^ 64" "rb_head_index r < ?s"
    using inv rb_size_bounds [OF inv] ring_used_less [OF inv] by (auto simp: rb_inv_def)
  have "sz_add ?t n = ?t + n" using b n by (simp add: sz_simps SIZE_MAX_def)
  then have r: "?r = r\<lparr>rb_tail_index := (?t + n) mod ?s\<rparr>"
    by (simp add: ring_advance_tail_def rb_mask_mod [OF inv])
  show sz: "rb_size ?r = ?s" by (simp add: r)
  show inv': "rb_inv ?r" using inv b by (simp add: r rb_inv_def)
  have "rb_head_index r = ((?t + n) mod ?s + (ring_used r - n)) mod ?s"
    unfolding mod_add_left_eq using n rb_head_eq [OF inv] by simp
  then show u: "ring_used ?r = ring_used r - n"
    using b by (intro ring_used_unique [OF inv']) (simp_all add: r)
  show "rb_content ?r = drop n (rb_content r)"
    unfolding rb_content_def u using n by (simp add: r drop_ring_seq)
qed

lemma store_head_spec:
  assumes inv: "rb_inv r" and room: "ring_used r < ring_capacity r"
  shows "\<exists>r'. ring_store_head r x = Some r' \<and> rb_inv r' \<and> rb_size r' = rb_size r \<and>
              rb_tail_index r' = rb_tail_index r \<and> rb_content r' = rb_content r @ [x]"
proof -
  let ?s = "rb_size r" and ?t = "rb_tail_index r" and ?h = "rb_head_index r"
  let ?r = "r\<lparr>rb_buffer := (rb_buffer r)[?h := x], rb_head_index := (?h + 1) mod ?s\<rparr>"
  have b: "?h < ?s" "length (rb_buffer r) = ?s" "2 * ?s \<le> 2 ^ 64" "ring_used r + 1 < ?s"
    using inv room rb_size_bounds [OF inv] by (auto simp: rb_inv_def)
  have "sz_add ?h 1 = ?h + 1" using b by (simp add: sz_simps SIZE_MAX_def)
  then have step: "ring_store_head r x = Some ?r"
    using b by (simp add: ring_store_head_def store_ok rb_mask_mod [OF inv])
  have inv': "rb_inv ?r" using inv b by (auto simp: rb_inv_def)
  have "(?h + 1) mod ?s = (?t + (ring_used r + 1)) mod ?s"
    by (subst rb_head_eq [OF inv]) (simp only: mod_add_left_eq add.assoc)
  then have u: "ring_used ?r = ring_used r + 1"
    using b by (intro ring_used_unique [OF inv']) simp_all
  have "ring_seq ((rb_buffer r)[?h := x]) ?s ?t (ring_used r) = rb_content r"
    unfolding rb_content_def
  proof (rule ring_seq_cong)
    fix i assume "i < ring_used r"
    then have "(?t + i) mod ?s \<noteq> ?h"
      using mod_pos_inj [of i ?s "ring_used r" ?t] b rb_head_eq [OF inv] by auto
    then show "(rb_buffer r)[?h := x] ! ((?t + i) mod ?s) = rb_buffer r ! ((?t + i) mod ?s)" by simp
  qed
  moreover have "(rb_buffer r)[?h := x] ! ((?t + ring_used r) mod ?s) = x"
    using b rb_head_eq [OF inv] by simp
  then have "ring_seq ((rb_buffer r)[?h := x]) ?s ((?t + ring_used r) mod ?s) 1 = [x]"
    by (simp add: ring_seq_def)
  ultimately have "rb_content ?r = rb_content r @ [x]"
    unfolding rb_content_def u
    using ring_seq_append [of "(rb_buffer r)[?h := x]" ?s ?t "ring_used r" 1] by simp
  then show ?thesis using step inv' by auto
qed


section \<open>The operations\<close>

lemma ring_buffer_create_spec:
  assumes "ring_buffer_create node_ok malloc sz = Some r" "sz \<le> SIZE_MAX"
    "\<And>n b. malloc n = Some b \<Longrightarrow> length b = n"
  shows "rb_inv r" "rb_size r = sz" "rb_content r = []"
proof -
  obtain buf where buf: "malloc sz = Some buf" and r: "r = \<lparr>rb_buffer = buf, rb_size = sz, rb_head_index = 0, rb_tail_index = 0\<rparr>"
    and sz: "2 \<le> sz" "sz AND (sz - 1) = 0"
    using assms(1) by (auto simp: ring_buffer_create_def split: if_splits option.splits)
  obtain k where k: "sz = 2 ^ k" using and_pred_zero_power2 [of sz] sz by auto
  have "1 \<le> k" using k sz(1) by (cases k) simp_all
  moreover have "k < 64"
  proof (rule ccontr)
    assume "\<not> k < 64"
    then have "(2::nat) ^ 64 \<le> 2 ^ k" by (intro power_increasing) simp_all
    then show False using k assms(2) by (simp add: SIZE_MAX_def)
  qed
  ultimately show inv: "rb_inv r" using r k sz assms(3) [OF buf] by (auto simp: rb_inv_def)
  show "rb_size r = sz" using r by simp
  have "ring_used r = 0" using inv sz r by (intro ring_used_unique) simp_all
  then show "rb_content r = []" by (simp add: rb_content_def)
qed

lemma ring_buffer_clear_spec:
  assumes "rb_inv r"
  shows "rb_inv (ring_buffer_clear r)" "rb_size (ring_buffer_clear r) = rb_size r"
    "rb_content (ring_buffer_clear r) = []"
proof -
  show inv: "rb_inv (ring_buffer_clear r)" "rb_size (ring_buffer_clear r) = rb_size r"
    using assms by (simp_all add: rb_inv_def ring_buffer_clear_def)
  have "ring_used (ring_buffer_clear r) = 0"
    using inv assms by (intro ring_used_unique) (auto simp: rb_inv_def ring_buffer_clear_def)
  then show "rb_content (ring_buffer_clear r) = []" by (simp add: rb_content_def)
qed

lemma ring_capacity_pos: "rb_inv r \<Longrightarrow> 1 \<le> ring_capacity r"
  using rb_size_bounds [of r] by simp

lemma ring_capacity_cong: "rb_size r' = rb_size r \<Longrightarrow> ring_capacity r' = ring_capacity r"
  by (simp add: ring_capacity_def ring_mask_def)

lemma ring_buffer_push_spec:
  assumes inv: "rb_inv r"
  shows "\<exists>r'. ring_buffer_push r x = Some r' \<and> rb_inv r' \<and> rb_size r' = rb_size r \<and>
              rb_content r' = lastn (ring_capacity r) (rb_content r @ [x])"
proof -
  define r1 where "r1 = (if ring_buffer_is_full r then ring_advance_tail r 1 else r)"
  have full: "ring_buffer_is_full r \<longleftrightarrow> ring_used r = ring_capacity r"
    by (simp add: ring_buffer_is_full_def)
  have r1: "rb_inv r1" "rb_size r1 = rb_size r" "ring_used r1 < ring_capacity r1"
    "rb_content r1 @ [x] = lastn (ring_capacity r) (rb_content r @ [x])"
    using inv ring_capacity_pos [OF inv] ring_used_le [OF inv] advance_tail_spec [OF inv, of 1]
    by (auto simp: r1_def full lastn_def cong: ring_capacity_cong)
  then show ?thesis
    using store_head_spec [OF r1(1,3), of x] by (auto simp: ring_buffer_push_def Let_def r1_def [symmetric])
qed

lemma ring_push_loop_spec:
  assumes "rb_inv r" "i \<le> len" "ring_used r + (len - i) \<le> ring_capacity r" "off + len \<le> length data"
  shows "\<exists>r'. ring_push_loop r data off i len = Some r' \<and> rb_inv r' \<and> rb_size r' = rb_size r \<and>
              rb_content r' = rb_content r @ take (len - i) (drop (off + i) data)"
  using assms
proof (induction r data off i len rule: ring_push_loop.induct)
  case (1 r data off i len)
  show ?case
  proof (cases "i < len")
    case False
    then show ?thesis using 1(2) by (subst ring_push_loop.simps) simp
  next
    case True
    have "ring_used r < ring_capacity r" using 1(4) True by simp
    then obtain r1 where r1: "ring_store_head r (data ! (off + i)) = Some r1" "rb_inv r1" "rb_size r1 = rb_size r"
      "rb_content r1 = rb_content r @ [data ! (off + i)]"
      using store_head_spec [OF 1(2), of "data ! (off + i)"] by auto
    have ld: "load data (off + i) = Some (data ! (off + i))" using 1(5) True by (simp add: load_ok)
    have u: "ring_used r1 = ring_used r + 1" using arg_cong [OF r1(4), of length] by simp
    have "ring_used r1 + (len - (i + 1)) \<le> ring_capacity r1"
      using 1(4) True u ring_capacity_cong [OF r1(3)] by simp
    then obtain r2 where r2: "ring_push_loop r1 data off (i + 1) len = Some r2" "rb_inv r2" "rb_size r2 = rb_size r1"
      "rb_content r2 = rb_content r1 @ take (len - (i + 1)) (drop (off + (i + 1)) data)"
      using 1(1) [OF True ld r1(1) r1(2)] 1(5) True by auto
    have "drop (off + i) data = data ! (off + i) # drop (off + (i + 1)) data"
      using 1(5) True Cons_nth_drop_Suc [of "off + i" data] by simp
    moreover have "len - i = Suc (len - (i + 1))" using True by simp
    ultimately have "take (len - i) (drop (off + i) data) = data ! (off + i) # take (len - (i + 1)) (drop (off + (i + 1)) data)"
      by simp
    then show ?thesis using r1 r2 True ld by (subst ring_push_loop.simps) simp
  qed
qed


lemma ring_buffer_push_array_spec:
  assumes inv: "rb_inv r" and len: "len \<le> length data"
  shows "\<exists>r'. ring_buffer_push_array (Some r) (Some data) len = Some (Some r') \<and> rb_inv r' \<and>
              rb_size r' = rb_size r \<and>
              rb_content r' = lastn (ring_capacity r) (rb_content r @ take len data)"
proof (cases "len = 0")
  case True
  then show ?thesis using inv ring_used_le [OF inv] by (simp add: ring_buffer_push_array_def)
next
  case False
  let ?c = "ring_capacity r"
  have sz: "\<not> rb_size r < 2" using rb_size_bounds(1) [OF inv] by simp
  show ?thesis
  proof (cases "?c < len")
    case True
    let ?r = "r\<lparr>rb_tail_index := rb_head_index r\<rparr>"
    have r1: "rb_inv ?r" "rb_size ?r = rb_size r" using inv by (simp_all add: rb_inv_def)
    have cap: "ring_capacity ?r = ?c" using r1(2) by (rule ring_capacity_cong)
    have "ring_used ?r = 0" using inv by (intro ring_used_unique [OF r1(1)]) (auto simp: rb_inv_def)
    then have "rb_content ?r = []" "ring_used ?r + (?c - 0) \<le> ring_capacity ?r"
      using cap by (simp_all add: rb_content_def)
    then obtain r' where "ring_push_loop ?r data (len - ?c) 0 ?c = Some r'" "rb_inv r'" "rb_size r' = rb_size r"
      "rb_content r' = take ?c (drop (len - ?c) data)"
      using ring_push_loop_spec [OF r1(1), of 0 ?c "len - ?c" data] len True by auto
    moreover have "lastn ?c (rb_content r @ take len data) = take ?c (drop (len - ?c) data)"
      using len True by (simp add: lastn_append_big) (simp add: lastn_def drop_take)
    ultimately show ?thesis
      using False sz True by (simp add: ring_buffer_push_array_def Let_def)
  next
    case nc: False
    define r1 where "r1 = (if ring_free r < len then ring_advance_tail r (len - ring_free r) else r)"
    have fr: "ring_free r = ?c - ring_used r" "ring_used r \<le> ?c"
      using ring_free_eq [OF inv] ring_used_le [OF inv] by simp_all
    have ad: "len - ring_free r \<le> ring_used r" using nc fr by linarith
    have r1: "rb_inv r1" "rb_size r1 = rb_size r" "rb_content r1 = drop (len - ring_free r) (rb_content r)"
      "ring_used r1 = ring_used r - (len - ring_free r)"
      using inv advance_tail_spec [OF inv ad] by (auto simp: r1_def)
    have cap: "ring_capacity r1 = ?c" using r1(2) by (rule ring_capacity_cong)
    have "ring_used r1 + (len - 0) \<le> ring_capacity r1" using r1(4) fr nc cap by linarith
    then obtain r' where r': "ring_push_loop r1 data 0 0 len = Some r'" "rb_inv r'" "rb_size r' = rb_size r"
      "rb_content r' = rb_content r1 @ take len data"
      using ring_push_loop_spec [OF r1(1), of 0 len 0 data] len r1(2) by auto
    have "ring_used r + len - ?c = len - ring_free r" using fr by linarith
    then have "lastn ?c (rb_content r @ take len data) = rb_content r1 @ take len data"
      using ad len by (simp add: lastn_def r1(3))
    then show ?thesis
      using r' False sz nc by (simp add: ring_buffer_push_array_def Let_def r1_def [symmetric])
  qed
qed

lemma ring_make_room_spec:
  assumes "rb_inv r" "0 < len" "len \<le> ring_capacity r"
  shows "\<exists>k r'. ring_make_room r len = Some r' \<and> rb_inv r' \<and> rb_size r' = rb_size r \<and>
           rb_content r' = drop (k * len) (rb_content r) \<and> ring_used r' + len \<le> ring_capacity r \<and>
           (0 < k \<longrightarrow> ring_capacity r < ring_used r - (k - 1) * len + len)"
  using assms
proof (induction "ring_used r" arbitrary: r rule: less_induct)
  case less
  note inv = less.prems(1)
  have fr: "ring_free r = ring_capacity r - ring_used r" "ring_used r \<le> ring_capacity r"
    using ring_free_eq [OF inv] ring_used_le [OF inv] by simp_all
  show ?case
  proof (cases "ring_free r < len")
    case False
    then show ?thesis using inv fr less.prems
      by (intro exI [of _ 0]) (subst ring_make_room.simps, simp)
  next
    case True
    define d where "d = (if ring_used r < len then ring_used r else len)"
    define r1 where "r1 = ring_advance_tail r d"
    have d: "0 < d" "d \<le> ring_used r" using True fr less.prems by (auto simp: d_def)
    have r1: "rb_inv r1" "rb_size r1 = rb_size r" "ring_used r1 = ring_used r - d" "rb_content r1 = drop len (rb_content r)"
      using advance_tail_spec [OF inv d(2)] by (auto simp: r1_def d_def)
    have cap: "ring_capacity r1 = ring_capacity r" using r1(2) by (rule ring_capacity_cong)
    have "ring_used r1 < ring_used r" using r1(3) d by simp
    then obtain k r' where r': "ring_make_room r1 len = Some r'" "rb_inv r'" "rb_size r' = rb_size r"
      "rb_content r' = drop (k * len) (rb_content r1)" "ring_used r' + len \<le> ring_capacity r"
      "0 < k \<longrightarrow> ring_capacity r < ring_used r1 - (k - 1) * len + len"
      using less.hyps [of r1] r1 cap less.prems by auto
    have "ring_make_room r len = Some r'"
      using True r'(1) by (subst ring_make_room.simps) (simp add: r1_def d_def)
    moreover have "rb_content r' = drop (Suc k * len) (rb_content r)"
      using r'(4) r1(4) by (simp add: add.commute)
    moreover have "ring_capacity r < ring_used r - (Suc k - 1) * len + len"
    proof (cases k)
      case 0
      then show ?thesis using True fr by simp
    next
      case (Suc m)
      then have "ring_capacity r < (ring_used r - d) - m * len + len" using r'(6) r1(3) by simp
      moreover have "d = len \<or> ring_used r - d = 0" using d_def by auto
      ultimately have "ring_capacity r < ring_used r - len - m * len + len" using less.prems(3) by auto
      then show ?thesis using Suc by simp
    qed
    ultimately show ?thesis using r' by blast
  qed
qed

lemma ring_buffer_push_record_spec:
  assumes inv: "rb_inv r" and len: "len \<le> length data" "0 < len" "len \<le> ring_capacity r"
  shows "\<exists>k r'. ring_buffer_push_record (Some r) (Some data) len = Some (Some r') \<and> rb_inv r' \<and>
           rb_size r' = rb_size r \<and> rb_content r' = drop (k * len) (rb_content r) @ take len data \<and>
           (0 < k \<longrightarrow> ring_capacity r < ring_used r - (k - 1) * len + len)"
proof -
  obtain k r1 where r1: "ring_make_room r len = Some r1" "rb_inv r1" "rb_size r1 = rb_size r"
    "rb_content r1 = drop (k * len) (rb_content r)" "ring_used r1 + len \<le> ring_capacity r"
    "0 < k \<longrightarrow> ring_capacity r < ring_used r - (k - 1) * len + len"
    using ring_make_room_spec [OF inv len(2,3)] by blast
  have "ring_used r1 + (len - 0) \<le> ring_capacity r1"
    using r1(5) ring_capacity_cong [OF r1(3)] by simp
  then obtain r' where r': "ring_push_loop r1 data 0 0 len = Some r'" "rb_inv r'" "rb_size r' = rb_size r"
    "rb_content r' = rb_content r1 @ take len data"
    using ring_push_loop_spec [OF r1(2), of 0 len 0 data] len r1(3) by auto
  have "ring_buffer_push_record (Some r) (Some data) len = Some (Some r')"
    using len rb_size_bounds(1) [OF inv] r1(1) r'(1) by (simp add: ring_buffer_push_record_def)
  then show ?thesis using r' r1(4,6) by auto
qed


lemma ring_buffer_pop_empty: "rb_inv r \<Longrightarrow> ring_used r = 0 \<Longrightarrow> ring_buffer_pop r out = Some (False, r, out)"
  by (simp add: ring_buffer_pop_def rb_empty_iff)

lemma ring_buffer_pop_spec:
  assumes inv: "rb_inv r" and ne: "ring_used r \<noteq> 0" and at: "at < length buf"
  shows "\<exists>r'. ring_buffer_pop r (Some (buf, at)) = Some (True, r', Some (buf[at := hd (rb_content r)], at)) \<and>
           rb_inv r' \<and> rb_size r' = rb_size r \<and> rb_content r' = drop 1 (rb_content r)"
proof -
  have b: "rb_tail_index r < length (rb_buffer r)" using inv by (simp add: rb_inv_def)
  have "hd (rb_content r) = rb_content r ! 0" using ne by (simp add: hd_conv_nth)
  also have "\<dots> = rb_buffer r ! rb_tail_index r"
    using ne inv by (simp add: rb_content_def rb_inv_def)
  finally show ?thesis
    using b at ne advance_tail_spec [OF inv, of 1]
    by (simp add: ring_buffer_pop_def rb_empty_iff [OF inv] load_ok store_ok)
qed

lemma ring_pop_loop_spec:
  assumes "rb_inv r" "i \<le> len" "n = min (len - i) (ring_used r)" "at + n \<le> length buf"
  shows "\<exists>r'. ring_pop_loop r (Some (buf, at)) i len =
             Some (i + n, r', Some (take at buf @ take n (rb_content r) @ drop (at + n) buf, at + n)) \<and>
           rb_inv r' \<and> rb_size r' = rb_size r \<and> rb_content r' = drop n (rb_content r)"
  using assms
proof (induction n arbitrary: r i buf at)
  case 0
  then have "len = i \<or> i < len \<and> ring_used r = 0" by linarith
  then show ?case
    using 0 ring_buffer_pop_empty [OF 0(1)] by (subst ring_pop_loop.simps) auto
next
  case (Suc n)
  then have i: "i < len" and ne: "ring_used r \<noteq> 0" by linarith+
  obtain r1 where r1: "ring_buffer_pop r (Some (buf, at)) = Some (True, r1, Some (buf[at := hd (rb_content r)], at))"
    "rb_inv r1" "rb_size r1 = rb_size r" "rb_content r1 = drop 1 (rb_content r)"
    using ring_buffer_pop_spec [OF Suc.prems(1) ne, of at buf] Suc.prems(4) by auto
  let ?b = "buf[at := hd (rb_content r)]"
  have u: "ring_used r1 = ring_used r - 1" using arg_cong [OF r1(4), of length] by simp
  have i1: "i + 1 \<le> len" and n1: "n = min (len - (i + 1)) (ring_used r1)" and at1: "at + 1 + n \<le> length ?b"
    using Suc.prems(3,4) u i by simp_all
  obtain r' where r': "ring_pop_loop r1 (Some (?b, at + 1)) (i + 1) len =
      Some (i + 1 + n, r', Some (take (at + 1) ?b @ take n (rb_content r1) @ drop (at + 1 + n) ?b, at + 1 + n))"
    "rb_inv r'" "rb_size r' = rb_size r1" "rb_content r' = drop n (rb_content r1)"
    using Suc.IH [OF r1(2) i1 n1 at1] by auto
  obtain x xs where xs: "rb_content r = x # xs"
    using ne by (metis list.exhaust rb_content_Nil_iff)
  have "take (at + 1) ?b @ take n (rb_content r1) @ drop (at + 1 + n) ?b
        = take at buf @ take (Suc n) (rb_content r) @ drop (at + Suc n) buf"
    using Suc.prems(4) r1(4) xs by (simp add: take_Suc_conv_app_nth drop_update_cancel take_update_cancel)
  then show ?case using r' r1 i xs by (subst ring_pop_loop.simps) simp
qed

lemma ring_buffer_pop_array_spec:
  assumes inv: "rb_inv r" and n: "n = min len (ring_used r)" "n \<le> length buf"
  shows "\<exists>r'. ring_buffer_pop_array r (Some buf) len = Some (n, r', Some (take len (rb_content r) @ drop n buf)) \<and>
           rb_inv r' \<and> rb_size r' = rb_size r \<and> rb_content r' = drop len (rb_content r)"
proof (cases "ring_used r = 0")
  case True
  then show ?thesis using assms by (simp add: ring_buffer_pop_array_def rb_empty_iff)
next
  case False
  have "take len (rb_content r) = take n (rb_content r)" "drop len (rb_content r) = drop n (rb_content r)"
    using n by (auto simp: min_def)
  then show ?thesis
    using False inv n ring_pop_loop_spec [OF inv, of 0 len n 0 buf]
    by (auto simp: ring_buffer_pop_array_def rb_empty_iff)
qed


section \<open>Interpretation and reference\<close>

definition rb_put :: "ring_buffer \<Rightarrow> u8 list \<Rightarrow> (nat \<times> ring_buffer) exec" where
  "rb_put r xs =
     do { r \<leftarrow> ring_buffer_push_array (Some r) (Some xs) (length xs); r \<leftarrow> r; Some (length xs, r) }"

definition rb_get :: "ring_buffer \<Rightarrow> nat \<Rightarrow> (u8 list \<times> ring_buffer) exec" where
  "rb_get r k =
     do { (n, r, out) \<leftarrow> ring_buffer_pop_array r (Some (replicate k 0)) k;
          out \<leftarrow> out; Some (take n out, r) }"

interpretation rb: overwriting_fifo rb_inv ring_capacity rb_content rb_get rb_put
proof
  fix r :: ring_buffer and xs :: "u8 list" and k :: nat
  assume inv: "rb_inv r"
  show "\<exists>r'. rb_put r xs = Some (length xs, r') \<and> rb_inv r' \<and> ring_capacity r' = ring_capacity r \<and>
          rb_content r' = lastn (ring_capacity r) (rb_content r @ xs)"
    using ring_buffer_push_array_spec [OF inv, of "length xs" xs]
    by (auto simp: rb_put_def intro: ring_capacity_cong)
  have "take (min k (ring_used r)) (rb_content r) = take k (rb_content r)"
    by (cases "k \<le> ring_used r") (simp_all add: min_def)
  then show "\<exists>r'. rb_get r k = Some (take k (rb_content r), r') \<and> rb_inv r' \<and>
          ring_capacity r' = ring_capacity r \<and> rb_content r' = drop k (rb_content r)"
    using ring_buffer_pop_array_spec [OF inv refl, of k "replicate k 0"]
    by (auto simp: rb_get_def intro: ring_capacity_cong)
  show "length (rb_content r) \<le> ring_capacity r"
    using ring_used_le [OF inv] by simp
qed

text \<open>The array insertion as repeated insertion of one byte.\<close>

fun push_each :: "ring_buffer \<Rightarrow> u8 list \<Rightarrow> ring_buffer exec" where
  "push_each r [] = Some r"
| "push_each r (x # xs) = do { r \<leftarrow> ring_buffer_push r x; push_each r xs }"

lemma push_each_spec:
  assumes "rb_inv r"
  shows "\<exists>r'. push_each r xs = Some r' \<and> rb_inv r' \<and> rb_size r' = rb_size r \<and>
           rb_content r' = lastn (ring_capacity r) (rb_content r @ xs)"
  using assms
proof (induction xs arbitrary: r)
  case Nil
  then show ?case using ring_used_le [of r] by simp
next
  case (Cons x xs)
  obtain r1 where r1: "ring_buffer_push r x = Some r1" "rb_inv r1" "rb_size r1 = rb_size r"
    "rb_content r1 = lastn (ring_capacity r) (rb_content r @ [x])"
    using ring_buffer_push_spec [OF Cons.prems, of x] by auto
  have "ring_capacity r1 = ring_capacity r" using r1(3) by (rule ring_capacity_cong)
  then show ?case
    using Cons.IH [OF r1(2)] r1 by (auto simp: lastn_lastn_append)
qed


section \<open>Properties\<close>

definition demo_rb :: ring_buffer where
  "demo_rb = \<lparr>rb_buffer = [4, 5, 0, 0, 0, 1, 2, 3], rb_size = 8, rb_head_index = 2, rb_tail_index = 5\<rparr>"

lemma demo_rb_inv: "rb_inv demo_rb"
  by (auto simp: rb_inv_def demo_rb_def intro: exI [of _ 3])

text \<open>
  (C19) \<open>ring_buffer_push_array\<close>, which drops the oldest bytes in one step and skips input that
  would be overwritten anyway, is equivalent to pushing its bytes one at a time: both succeed and
  leave the same content, the last \<open>size - 1\<close> bytes of the old content followed by the input.
\<close>

theorem ring_buffer_push_array_eq_push_each:
  assumes "rb_inv r" "len \<le> length data"
  shows "\<exists>r1 r2. ring_buffer_push_array (Some r) (Some data) len = Some (Some r1) \<and>
           push_each r (take len data) = Some r2 \<and> rb_inv r1 \<and> rb_content r1 = rb_content r2 \<and>
           rb_content r1 = lastn (rb_size r - 1) (rb_content r @ take len data)"
  using ring_buffer_push_array_spec [OF assms] push_each_spec [OF assms(1), of "take len data"]
    rb_size_bounds(4) [OF assms(1)] by auto

theorem ring_buffer_push_array_eq_push_each_witness:
  "rb_inv demo_rb \<and>
   (\<exists>r1 r2. ring_buffer_push_array (Some demo_rb) (Some [6, 7, 8, 9]) 4 = Some (Some r1) \<and>
      push_each demo_rb [6, 7, 8, 9] = Some r2 \<and> rb_content r1 = rb_content r2 \<and>
      rb_content r1 = [3, 4, 5, 6, 7, 8, 9])"
proof -
  have "lastn (rb_size demo_rb - 1) (rb_content demo_rb @ [6, 7, 8, 9]) = [3, 4, 5, 6, 7, 8, 9]" by code_simp
  then show ?thesis
    using demo_rb_inv ring_buffer_push_array_eq_push_each [OF demo_rb_inv, of 4 "[6, 7, 8, 9]"] by auto
qed

text \<open>
  (C22) \<open>ring_buffer_push_record\<close> terminates and never tears a record: when the ring holds whole
  records of \<open>len\<close> bytes and a record fits at all, the new content is the old one without its
  first \<open>k\<close> records, followed by the new record; no more records are dropped than needed.
\<close>

theorem ring_buffer_push_record_whole:
  assumes "rb_inv r" "0 < len" "len \<le> length data" "len \<le> rb_size r - 1" "len dvd length (rb_content r)"
  shows "\<exists>k r'. ring_buffer_push_record (Some r) (Some data) len = Some (Some r') \<and> rb_inv r' \<and>
           rb_content r' = drop (k * len) (rb_content r) @ take len data \<and>
           len dvd length (rb_content r') \<and>
           (0 < k \<longrightarrow> rb_size r - 1 < length (drop ((k - 1) * len) (rb_content r)) + len)"
proof -
  have c: "ring_capacity r = rb_size r - 1" by (rule rb_size_bounds(4) [OF assms(1)])
  then obtain k r' where r': "ring_buffer_push_record (Some r) (Some data) len = Some (Some r')" "rb_inv r'"
    "rb_content r' = drop (k * len) (rb_content r) @ take len data"
    "0 < k \<longrightarrow> ring_capacity r < ring_used r - (k - 1) * len + len"
    using ring_buffer_push_record_spec [OF assms(1,3,2)] assms(4) by auto
  have "len dvd length (rb_content r')"
    unfolding r'(3) using assms(3,5) by (simp add: dvd_diff_nat)
  moreover have "0 < k \<longrightarrow> rb_size r - 1 < length (drop ((k - 1) * len) (rb_content r)) + len"
    using r'(4) c by simp
  ultimately show ?thesis using r'(1-3) by blast
qed

theorem ring_buffer_push_record_witness:
  "rb_inv demo_rb \<and> (\<exists>r'. ring_buffer_push_record (Some demo_rb) (Some [6, 7, 8, 9, 10]) 5 = Some (Some r') \<and>
      rb_inv r' \<and> 5 dvd length (rb_content r'))"
proof -
  have "length (rb_content demo_rb) = 5" "rb_size demo_rb = 8" by code_simp+
  then show ?thesis
    using demo_rb_inv ring_buffer_push_record_whole [OF demo_rb_inv, of 5 "[6, 7, 8, 9, 10]"] by auto
qed

text \<open>
  (C26) Whatever sequence of array insertions and removals is run, all of them return, and what the ring
  delivered followed by what it still holds is a subsequence, in order, of the initial content followed by
  everything put in: an overwriting ring loses bytes but never invents, repeats or reorders them.
\<close>

theorem ring_buffer_stream:
  assumes "rb_inv r"
  shows "\<exists>acc del r'. queue_run rb_put rb_get r ops = Some (acc, del, r') \<and> rb_inv r' \<and>
           acc = concat (map (\<lambda>op. case op of Put xs \<Rightarrow> xs | Get _ \<Rightarrow> []) ops) \<and>
           subseq (del @ rb_content r') (rb_content r @ acc)"
  using rb.run_subseq [OF assms, of ops] by blast

theorem ring_buffer_stream_witness:
  "rb_inv demo_rb \<and> (\<exists>acc del r'. queue_run rb_put rb_get demo_rb [Put [6, 7, 8], Get 2, Put [9]] = Some (acc, del, r') \<and>
     acc = [6, 7, 8, 9] \<and> subseq (del @ rb_content r') (rb_content demo_rb @ acc))"
  using demo_rb_inv ring_buffer_stream [OF demo_rb_inv, of "[Put [6, 7, 8], Get 2, Put [9]]"] by auto

end
