(* ===== verification/Ring_Queue.thy ===== *)
theory Ring_Queue
  imports Ring_IO
begin

text \<open>
  The typed ring \<open>ring_queue_t\<close> of \<open>libs/data/ring.c\<close>: a circular buffer of elements of
  \<open>elem_size\<close> bytes, used for the event and message queues. Elements are moved with \<open>memcpy\<close>, so
  the model keeps the bytes and the specification speaks of the list of elements.
\<close>

record ring_queue =
  rq_buf :: "u8 list ptr"
  rq_elem_size :: size_t
  rq_cap :: size_t
  rq_head :: size_t
  rq_count :: size_t

text \<open>\<open>node_ok\<close> and \<open>buf_ok\<close> tell whether the two \<open>calloc\<close> calls succeed.\<close>

definition ring_queue_create :: "bool \<Rightarrow> bool \<Rightarrow> size_t \<Rightarrow> size_t \<Rightarrow> ring_queue ptr" where
  "ring_queue_create node_ok buf_ok elem_size cap =
     (if elem_size = 0 \<or> cap = 0 then None
      else if SIZE_MAX div elem_size < cap then None
      else if \<not> node_ok then None
      else if \<not> buf_ok then None
      else Some \<lparr>rq_buf = Some (replicate (cap * elem_size) 0), rq_elem_size = elem_size,
                 rq_cap = cap, rq_head = 0, rq_count = 0\<rparr>)"

definition ring_queue_count :: "ring_queue ptr \<Rightarrow> size_t" where
  "ring_queue_count q = (case q of Some q \<Rightarrow> rq_count q | None \<Rightarrow> 0)"

definition ring_queue_capacity :: "ring_queue ptr \<Rightarrow> size_t" where
  "ring_queue_capacity q = (case q of Some q \<Rightarrow> rq_cap q | None \<Rightarrow> 0)"

definition ring_queue_push :: "ring_queue ptr \<Rightarrow> u8 list ptr \<Rightarrow> (bool \<times> ring_queue ptr) exec" where
  "ring_queue_push q item =
     (case (q, item) of
        (Some r, Some v) \<Rightarrow>
          (case rq_buf r of
             None \<Rightarrow> Some (False, q)
           | Some buf \<Rightarrow>
               if rq_cap r \<le> rq_count r then Some (False, q)
               else let tail = sz_add (rq_head r) (rq_count r) mod rq_cap r in
                 do { buf \<leftarrow> memcpy buf (sz_mul tail (rq_elem_size r)) v 0 (rq_elem_size r);
                      Some (True, Some (r\<lparr>rq_buf := Some buf, rq_count := sz_add (rq_count r) 1\<rparr>)) })
      | _ \<Rightarrow> Some (False, q))"

definition ring_queue_pop :: "ring_queue ptr \<Rightarrow> u8 list ptr \<Rightarrow> (bool \<times> ring_queue ptr \<times> u8 list ptr) exec" where
  "ring_queue_pop q out =
     (case q of
        None \<Rightarrow> Some (False, q, out)
      | Some r \<Rightarrow>
          (case rq_buf r of
             None \<Rightarrow> Some (False, q, out)
           | Some buf \<Rightarrow>
               if rq_count r = 0 then Some (False, q, out)
               else do { out \<leftarrow> (case out of
                                   None \<Rightarrow> Some None
                                 | Some dst \<Rightarrow>
                                     do { dst \<leftarrow> memcpy dst 0 buf (sz_mul (rq_head r) (rq_elem_size r)) (rq_elem_size r);
                                          Some (Some dst) });
                         Some (True, Some (r\<lparr>rq_head := sz_add (rq_head r) 1 mod rq_cap r,
                                             rq_count := rq_count r - 1\<rparr>), out) }))"

definition ring_queue_drop_head :: "ring_queue ptr \<Rightarrow> ring_queue ptr" where
  "ring_queue_drop_head q =
     (case q of
        None \<Rightarrow> None
      | Some r \<Rightarrow>
          if rq_count r = 0 then q
          else Some (r\<lparr>rq_head := sz_add (rq_head r) 1 mod rq_cap r, rq_count := rq_count r - 1\<rparr>))"

text \<open>The returned pointer as the offset of the element in the buffer.\<close>

definition ring_queue_at :: "ring_queue ptr \<Rightarrow> size_t \<Rightarrow> size_t ptr" where
  "ring_queue_at q i =
     (case q of
        None \<Rightarrow> None
      | Some r \<Rightarrow>
          if rq_count r \<le> i \<or> rq_buf r = None then None
          else Some (sz_mul (sz_add (rq_head r) i mod rq_cap r) (rq_elem_size r)))"

function rq_shift_loop :: "ring_queue \<Rightarrow> u8 list \<Rightarrow> size_t \<Rightarrow> u8 list exec" where
  "rq_shift_loop r buf j =
     (if j + 1 < rq_count r
      then let dst = sz_mul (sz_add (rq_head r) j mod rq_cap r) (rq_elem_size r);
               src = sz_mul (sz_add (sz_add (rq_head r) j) 1 mod rq_cap r) (rq_elem_size r) in
        do { buf \<leftarrow> memcpy buf dst buf src (rq_elem_size r); rq_shift_loop r buf (j + 1) }
      else Some buf)"
  by auto
termination by (relation "measure (\<lambda>(r, buf, j). rq_count r - j)") auto

declare rq_shift_loop.simps [simp del]

definition ring_queue_remove_at :: "ring_queue ptr \<Rightarrow> size_t \<Rightarrow> (bool \<times> ring_queue ptr) exec" where
  "ring_queue_remove_at q i =
     (case q of
        None \<Rightarrow> Some (False, q)
      | Some r \<Rightarrow>
          (case rq_buf r of
             None \<Rightarrow> Some (False, q)
           | Some buf \<Rightarrow>
               if rq_count r \<le> i then Some (False, q)
               else do { buf \<leftarrow> rq_shift_loop r buf i;
                         Some (True, Some (r\<lparr>rq_buf := Some buf, rq_count := rq_count r - 1\<rparr>)) }))"

definition ring_queue_clear :: "ring_queue ptr \<Rightarrow> ring_queue ptr" where
  "ring_queue_clear q = (case q of None \<Rightarrow> None | Some r \<Rightarrow> Some (r\<lparr>rq_head := 0, rq_count := 0\<rparr>))"

function rq_copy_loop :: "ring_queue \<Rightarrow> u8 list \<Rightarrow> u8 list \<Rightarrow> size_t \<Rightarrow> u8 list exec" where
  "rq_copy_loop r new_buf buf i =
     (if i < rq_count r
      then do { new_buf \<leftarrow> memcpy new_buf (sz_mul i (rq_elem_size r)) buf
                              (sz_mul (sz_add (rq_head r) i mod rq_cap r) (rq_elem_size r)) (rq_elem_size r);
                rq_copy_loop r new_buf buf (i + 1) }
      else Some new_buf)"
  by auto
termination by (relation "measure (\<lambda>(r, new_buf, buf, i). rq_count r - i)") auto

declare rq_copy_loop.simps [simp del]

text \<open>\<open>malloc\<close> is the allocator: the uninitialised block it returns for a size, or None.\<close>

definition ring_queue_reserve ::
  "(size_t \<Rightarrow> u8 list ptr) \<Rightarrow> ring_queue ptr \<Rightarrow> size_t \<Rightarrow> (bool \<times> ring_queue ptr) exec" where
  "ring_queue_reserve malloc q needed =
     (case q of
        None \<Rightarrow> Some (False, q)
      | Some r \<Rightarrow>
          if rq_elem_size r = 0 then Some (False, q)
          else if needed \<le> rq_cap r then Some (True, q)
          else let doubled = (if rq_cap r \<noteq> 0 \<and> rq_cap r \<le> SIZE_MAX div 2 then rq_cap r * 2 else needed);
                   new_cap = (if doubled < needed then needed else doubled) in
            if SIZE_MAX div rq_elem_size r < new_cap then Some (False, q)
            else case malloc (new_cap * rq_elem_size r) of
                   None \<Rightarrow> Some (False, q)
                 | Some new_buf \<Rightarrow>
                     do { new_buf \<leftarrow> (case rq_buf r of
                              Some buf \<Rightarrow> if rq_count r \<noteq> 0 \<and> rq_cap r \<noteq> 0
                                          then rq_copy_loop r new_buf buf 0 else Some new_buf
                            | None \<Rightarrow> Some new_buf);
                          Some (True, Some (r\<lparr>rq_buf := Some new_buf, rq_cap := new_cap, rq_head := 0\<rparr>)) })"


section \<open>Invariant and content\<close>

definition rq_inv :: "ring_queue \<Rightarrow> bool" where
  "rq_inv r \<longleftrightarrow>
     (\<exists>b. rq_buf r = Some b \<and> length b = rq_cap r * rq_elem_size r) \<and>
     0 < rq_elem_size r \<and> 0 < rq_cap r \<and> rq_cap r * rq_elem_size r \<le> SIZE_MAX \<and> 2 * rq_cap r \<le> SIZE_MAX \<and>
     rq_head r < rq_cap r \<and> rq_count r \<le> rq_cap r"

definition rq_elems :: "ring_queue \<Rightarrow> u8 list list" where
  "rq_elems r = slots (rq_elem_size r) (the (rq_buf r)) (rq_cap r)"

definition rq_content :: "ring_queue \<Rightarrow> u8 list list" where
  "rq_content r = ring_seq (rq_elems r) (rq_cap r) (rq_head r) (rq_count r)"

lemma rq_content_length [simp]: "length (rq_content r) = rq_count r"
  by (simp add: rq_content_def)

lemma rq_content_Nil_iff [simp]: "rq_content r = [] \<longleftrightarrow> rq_count r = 0"
  by (metis rq_content_length length_0_conv)

text \<open>Under the invariant no address or position computation wraps.\<close>

lemma rq_no_wrap:
  assumes "rq_inv r"
  shows "i \<le> rq_count r \<Longrightarrow> sz_add (rq_head r) i = rq_head r + i"
    "i < rq_cap r \<Longrightarrow> sz_mul i (rq_elem_size r) = i * rq_elem_size r"
    "sz_add (rq_count r) (Suc 0) = Suc (rq_count r)" "sz_add (rq_head r) (Suc 0) = Suc (rq_head r)"
    "i < rq_count r \<Longrightarrow> sz_add (rq_head r + i) (Suc 0) = Suc (rq_head r + i)"
proof -
  have b: "rq_head r < rq_cap r" "rq_count r \<le> rq_cap r" "2 * rq_cap r \<le> SIZE_MAX" "rq_cap r * rq_elem_size r \<le> SIZE_MAX"
    using assms by (auto simp: rq_inv_def)
  show "sz_add (rq_count r) (Suc 0) = Suc (rq_count r)" "sz_add (rq_head r) (Suc 0) = Suc (rq_head r)"
    "i \<le> rq_count r \<Longrightarrow> sz_add (rq_head r) i = rq_head r + i"
    "i < rq_count r \<Longrightarrow> sz_add (rq_head r + i) (Suc 0) = Suc (rq_head r + i)"
    using b by (simp_all add: sz_simps)
  assume "i < rq_cap r"
  then have "i * rq_elem_size r \<le> rq_cap r * rq_elem_size r" by simp
  then have "i * rq_elem_size r \<le> SIZE_MAX" using b(4) by (rule le_trans)
  then show "sz_mul i (rq_elem_size r) = i * rq_elem_size r" by (rule sz_mul_exact)
qed

lemma rq_create_spec:
  assumes "ring_queue_create node_ok buf_ok es cap = Some r" "2 * cap \<le> SIZE_MAX"
  shows "rq_inv r" "rq_cap r = cap" "rq_elem_size r = es" "rq_content r = []"
proof -
  have r: "r = \<lparr>rq_buf = Some (replicate (cap * es) 0), rq_elem_size = es, rq_cap = cap, rq_head = 0, rq_count = 0\<rparr>"
    and g: "es \<noteq> 0" "cap \<noteq> 0" "cap \<le> SIZE_MAX div es"
    using assms(1) by (auto simp: ring_queue_create_def split: if_splits)
  have "cap * es \<le> SIZE_MAX" using g by (intro div_le_guard) simp_all
  then show "rq_inv r" using r g assms(2) by (simp add: rq_inv_def)
  show "rq_cap r = cap" "rq_elem_size r = es" "rq_content r = []" using r by (simp_all flip: length_0_conv)
qed

lemma rq_push_spec:
  assumes inv: "rq_inv r" and v: "length v = rq_elem_size r" and room: "rq_count r < rq_cap r"
  shows "\<exists>r'. ring_queue_push (Some r) (Some v) = Some (True, Some r') \<and> rq_inv r' \<and>
           rq_cap r' = rq_cap r \<and> rq_elem_size r' = rq_elem_size r \<and> rq_content r' = rq_content r @ [v]"
proof -
  let ?es = "rq_elem_size r" and ?c = "rq_cap r" and ?h = "rq_head r" and ?n = "rq_count r"
  define t where "t = (?h + ?n) mod ?c"
  obtain b where b: "rq_buf r = Some b" "length b = ?c * ?es" using inv by (auto simp: rq_inv_def)
  have t: "t < ?c" using inv by (simp add: t_def rq_inv_def)
  let ?r = "r\<lparr>rq_buf := Some (put_slot ?es b t v), rq_count := ?n + 1\<rparr>"
  have step: "ring_queue_push (Some r) (Some v) = Some (True, Some ?r)"
    using b room t v memcpy_slot [of t ?c ?es b v]
    by (simp add: ring_queue_push_def Let_def rq_no_wrap [OF inv] t_def)
  have inv': "rq_inv ?r" using inv room b v length_put_slot [of t ?c ?es b v] t by (simp add: rq_inv_def)
  have e: "rq_elems ?r = (rq_elems r)[t := v]"
    using slots_put_slot [of t ?c ?es b v] t b v by (simp add: rq_elems_def)
  have "ring_seq ((rq_elems r)[t := v]) ?c ?h ?n = ring_seq (rq_elems r) ?c ?h ?n"
  proof (rule ring_seq_cong)
    fix i assume "i < ?n"
    then have "(?h + i) mod ?c \<noteq> t" using mod_pos_inj [of i ?c ?n ?h] room by (auto simp: t_def)
    then show "(rq_elems r)[t := v] ! ((?h + i) mod ?c) = rq_elems r ! ((?h + i) mod ?c)" by simp
  qed
  moreover have "ring_seq ((rq_elems r)[t := v]) ?c t 1 = [v]"
    using t by (simp add: ring_seq_def rq_elems_def)
  ultimately have "rq_content ?r = rq_content r @ [v]"
    using ring_seq_append [of "(rq_elems r)[t := v]" ?c ?h ?n 1] e by (simp add: rq_content_def t_def)
  then show ?thesis using step inv' by auto
qed

lemma rq_push_full:
  "rq_inv r \<Longrightarrow> rq_count r = rq_cap r \<Longrightarrow> ring_queue_push (Some r) (Some v) = Some (False, Some r)"
  by (auto simp: ring_queue_push_def rq_inv_def)

lemma rq_drop_content:
  assumes "rq_inv r" "rq_count r \<noteq> 0"
  shows "rq_inv (r\<lparr>rq_head := (rq_head r + 1) mod rq_cap r, rq_count := rq_count r - 1\<rparr>)"
    "rq_content (r\<lparr>rq_head := (rq_head r + 1) mod rq_cap r, rq_count := rq_count r - 1\<rparr>) = drop 1 (rq_content r)"
proof -
  show "rq_inv (r\<lparr>rq_head := (rq_head r + 1) mod rq_cap r, rq_count := rq_count r - 1\<rparr>)"
    using assms by (auto simp: rq_inv_def)
  show "rq_content (r\<lparr>rq_head := (rq_head r + 1) mod rq_cap r, rq_count := rq_count r - 1\<rparr>) = drop 1 (rq_content r)"
    using assms drop_ring_seq [of 1 "rq_count r" "rq_elems r" "rq_cap r" "rq_head r"]
    by (simp add: rq_content_def rq_elems_def)
qed

lemma rq_pop_spec:
  assumes inv: "rq_inv r" and ne: "rq_count r \<noteq> 0" and dst: "length dst = rq_elem_size r"
  shows "\<exists>r'. ring_queue_pop (Some r) (Some dst) = Some (True, Some r', Some (hd (rq_content r))) \<and> rq_inv r' \<and>
           rq_cap r' = rq_cap r \<and> rq_elem_size r' = rq_elem_size r \<and> rq_content r' = drop 1 (rq_content r)"
proof -
  let ?es = "rq_elem_size r" and ?c = "rq_cap r" and ?h = "rq_head r"
  obtain b where b: "rq_buf r = Some b" "length b = ?c * ?es" using inv by (auto simp: rq_inv_def)
  have h: "?h < ?c" using inv by (simp add: rq_inv_def)
  have "hd (rq_content r) = rq_content r ! 0" using ne by (simp add: hd_conv_nth)
  also have "\<dots> = slot ?es b ?h" using ne h b by (simp add: rq_content_def rq_elems_def)
  finally have "memcpy dst 0 b (?h * ?es) ?es = Some (hd (rq_content r))"
    using slot_end [of ?h ?c ?es b] h b dst by (simp add: memcpy_ok slot_def)
  then show ?thesis
    using b ne h rq_drop_content [OF inv ne] by (simp add: ring_queue_pop_def rq_no_wrap [OF inv])
qed

lemma rq_pop_empty: "rq_inv r \<Longrightarrow> rq_count r = 0 \<Longrightarrow> ring_queue_pop (Some r) out = Some (False, Some r, out)"
  by (auto simp: ring_queue_pop_def rq_inv_def)

lemma rq_drop_head_spec:
  assumes inv: "rq_inv r"
  shows "\<exists>r'. ring_queue_drop_head (Some r) = Some r' \<and> rq_inv r' \<and> rq_cap r' = rq_cap r \<and>
           rq_elem_size r' = rq_elem_size r \<and> rq_content r' = drop 1 (rq_content r)"
  using rq_drop_content [OF inv] rq_no_wrap(4) [OF inv] inv
  by (cases "rq_count r = 0") (simp_all add: ring_queue_drop_head_def)

lemma rq_at_spec:
  assumes inv: "rq_inv r" and i: "i < rq_count r"
  shows "\<exists>p. ring_queue_at (Some r) i = Some p \<and> take (rq_elem_size r) (drop p (the (rq_buf r))) = rq_content r ! i"
proof -
  have "(rq_head r + i) mod rq_cap r < rq_cap r" using inv by (simp add: rq_inv_def)
  then show ?thesis
    using inv i rq_no_wrap(1,2) [OF inv]
    by (auto simp: ring_queue_at_def rq_content_def rq_elems_def slot_def rq_inv_def)
qed

text \<open>Removing from the middle: each step of the loop moves the next element one place forward.\<close>

lemma rq_shift_loop_spec:
  assumes inv: "rq_inv r" and "j \<le> rq_count r" "rq_buf r = Some b0"
    and "length b = rq_cap r * rq_elem_size r"
  shows "\<exists>b'. rq_shift_loop r b j = Some b' \<and> length b' = rq_cap r * rq_elem_size r \<and>
     (let xs = ring_seq (slots (rq_elem_size r) b (rq_cap r)) (rq_cap r) (rq_head r) (rq_count r) in
      ring_seq (slots (rq_elem_size r) b' (rq_cap r)) (rq_cap r) (rq_head r) (rq_count r - 1) =
        take j (take (rq_count r - 1) xs) @ drop (j + 1) xs)"
  using assms(2,4)
proof (induction "rq_count r - j" arbitrary: j b rule: less_induct)
  case less
  let ?es = "rq_elem_size r" and ?c = "rq_cap r" and ?h = "rq_head r" and ?n = "rq_count r"
  define xs where "xs = ring_seq (slots ?es b ?c) ?c ?h ?n"
  have c: "0 < ?c" "?n \<le> ?c" using inv by (auto simp: rq_inv_def)
  show ?case
  proof (cases "j + 1 < ?n")
    case False
    then have "ring_seq (slots ?es b ?c) ?c ?h (?n - 1) = take (?n - 1) xs" "drop (j + 1) xs = []" "take j (take (?n - 1) xs) = take (?n - 1) xs"
      using less.prems by (simp_all add: xs_def take_ring_seq)
    then show ?thesis using False less.prems by (subst rq_shift_loop.simps) (simp add: xs_def [symmetric])
  next
    case True
    define d s where "d = (?h + j) mod ?c" and "s = (?h + j + 1) mod ?c"
    have ds: "d < ?c" "s < ?c" using c by (simp_all add: d_def s_def)
    let ?b = "put_slot ?es b d (slot ?es b s)"
    have ls: "length (slot ?es b s) = ?es" using length_slot [OF ds(2), of ?es b] less.prems(2) by simp
    have lb: "length ?b = ?c * ?es" using length_put_slot [OF ds(1) _ ls, of b] less.prems(2) by simp
    have cp: "memcpy b (d * ?es) b (s * ?es) ?es = Some ?b"
      using memcpy_slot_slot [OF ds(1) _ ds(2), of ?es b b] less.prems(2) by simp
    obtain b' where b': "rq_shift_loop r ?b (j + 1) = Some b'" "length b' = ?c * ?es"
      "ring_seq (slots ?es b' ?c) ?c ?h (?n - 1) =
         take (j + 1) (take (?n - 1) (ring_seq (slots ?es ?b ?c) ?c ?h ?n)) @ drop (j + 2) (ring_seq (slots ?es ?b ?c) ?c ?h ?n)"
      using less.hyps [OF diff_less_mono2 [of j "j + 1" ?n], of ?b] True lb by (auto simp: Let_def)
    have upd: "ring_seq (slots ?es ?b ?c) ?c ?h ?n = xs[j := xs ! (j + 1)]"
    proof (rule ring_seq_eqI)
      fix i assume i: "i < ?n"
      have "(?h + i) mod ?c = d \<longleftrightarrow> i = j"
        using mod_pos_inj [of i ?c j ?h] i True c by (auto simp: d_def)
      moreover have "slots ?es ?b ?c = (slots ?es b ?c)[d := slot ?es b s]"
        using slots_put_slot [OF ds(1) _ ls, of b] less.prems(2) by simp
      moreover have "xs ! (j + 1) = slot ?es b s" using True ds by (simp add: xs_def s_def add.assoc)
      ultimately show "slots ?es ?b ?c ! ((?h + i) mod ?c) = xs[j := xs ! (j + 1)] ! i"
        using i ds True by (auto simp: nth_list_update xs_def)
    qed (simp add: xs_def)
    have l: "length xs = ?n" by (simp add: xs_def)
    have "take (j + 1) (take (?n - 1) (xs[j := xs ! (j + 1)])) @ drop (j + 2) (xs[j := xs ! (j + 1)])
          = take j (take (?n - 1) xs) @ drop (j + 1) xs"
      using True l Cons_nth_drop_Suc [of "j + 1" xs]
      by (simp add: take_Suc_conv_app_nth min_def)
    moreover have "rq_shift_loop r b j = Some b'"
      using True b'(1) cp rq_no_wrap [OF inv] ds
      by (subst rq_shift_loop.simps) (simp add: Let_def d_def s_def)
    ultimately show ?thesis using b' upd by (simp add: xs_def [symmetric] Let_def)
  qed
qed

lemma rq_remove_at_spec:
  assumes inv: "rq_inv r" and i: "i < rq_count r"
  shows "\<exists>r'. ring_queue_remove_at (Some r) i = Some (True, Some r') \<and> rq_inv r' \<and> rq_cap r' = rq_cap r \<and>
           rq_content r' = take i (rq_content r) @ drop (i + 1) (rq_content r)"
proof -
  obtain b where b: "rq_buf r = Some b" "length b = rq_cap r * rq_elem_size r" using inv by (auto simp: rq_inv_def)
  have ct: "ring_seq (slots (rq_elem_size r) b (rq_cap r)) (rq_cap r) (rq_head r) (rq_count r) = rq_content r"
    using b by (simp add: rq_content_def rq_elems_def)
  obtain b' where b': "rq_shift_loop r b i = Some b'" "length b' = rq_cap r * rq_elem_size r"
    "ring_seq (slots (rq_elem_size r) b' (rq_cap r)) (rq_cap r) (rq_head r) (rq_count r - 1) =
       take i (take (rq_count r - 1) (rq_content r)) @ drop (i + 1) (rq_content r)"
    using rq_shift_loop_spec [OF inv _ b(1) b(2), of i] i by (auto simp: Let_def ct)
  have "take i (take (rq_count r - 1) (rq_content r)) = take i (rq_content r)" using i by (auto simp: min_def)
  then show ?thesis
    using b' b i inv by (auto simp: ring_queue_remove_at_def rq_inv_def rq_content_def rq_elems_def)
qed

lemma rq_copy_loop_spec:
  assumes inv: "rq_inv r" and "rq_buf r = Some b" and new: "rq_count r \<le> m" "m * rq_elem_size r \<le> SIZE_MAX"
    and "i \<le> rq_count r" "length nb = m * rq_elem_size r" "slots (rq_elem_size r) nb i = take i (rq_content r)"
  shows "\<exists>nb'. rq_copy_loop r nb b i = Some nb' \<and> length nb' = m * rq_elem_size r \<and>
           slots (rq_elem_size r) nb' (rq_count r) = rq_content r"
  using assms(5-7)
proof (induction "rq_count r - i" arbitrary: i nb rule: less_induct)
  case less
  let ?es = "rq_elem_size r" and ?c = "rq_cap r" and ?h = "rq_head r" and ?n = "rq_count r"
  show ?case
  proof (cases "i < ?n")
    case False
    then show ?thesis using less.prems by (subst rq_copy_loop.simps) simp
  next
    case True
    define s where "s = (?h + i) mod ?c"
    have s: "s < ?c" using inv by (simp add: s_def rq_inv_def)
    have lb: "length b = ?c * ?es" using inv assms(2) by (simp add: rq_inv_def)
    let ?nb = "put_slot ?es nb i (slot ?es b s)"
    have im: "i < m" using True new by simp
    have ls: "length (slot ?es b s) = ?es" using length_slot [OF s, of ?es b] lb by simp
    have "i * ?es \<le> m * ?es" using im by simp
    then have mul: "sz_mul i ?es = i * ?es" using new(2) by (intro sz_mul_exact) (rule le_trans)
    have cp: "memcpy nb (i * ?es) b (s * ?es) ?es = Some ?nb"
      using memcpy_slot_slot [OF im _ s, of ?es nb b] lb less.prems(2) by simp
    have e: "slot ?es b s = rq_content r ! i" using True s assms(2) by (simp add: rq_content_def rq_elems_def s_def)
    have "slots ?es ?nb m = (slots ?es nb m)[i := slot ?es b s]"
      using slots_put_slot [OF im _ ls, of nb] less.prems(2) by simp
    then have "take (i + 1) (slots ?es ?nb m) = take i (slots ?es nb m) @ [slot ?es b s]"
      using im by (simp add: take_Suc_conv_app_nth)
    then have "slots ?es ?nb (i + 1) = slots ?es nb i @ [slot ?es b s]"
      using im by (simp add: take_slots)
    then have "slots ?es ?nb (i + 1) = take (i + 1) (rq_content r)"
      using less.prems(3) e True by (simp add: take_Suc_conv_app_nth)
    moreover have "length ?nb = m * ?es" using length_put_slot [OF im _ ls, of nb] less.prems(2) by simp
    ultimately obtain nb' where "rq_copy_loop r ?nb b (i + 1) = Some nb'" "length nb' = m * ?es" "slots ?es nb' ?n = rq_content r"
      using less.hyps [OF diff_less_mono2 [of i "i + 1" ?n], of ?nb] True by auto
    then show ?thesis
      using True cp mul s rq_no_wrap(1,2) [OF inv] by (subst rq_copy_loop.simps) (simp add: s_def)
  qed
qed

lemma rq_reserve_spec:
  assumes inv: "rq_inv r" and m: "\<And>n b. malloc n = Some b \<Longrightarrow> length b = n \<and> 2 * n \<le> SIZE_MAX"
    and needed: "needed \<le> SIZE_MAX"
  shows "\<exists>ok r'. ring_queue_reserve malloc (Some r) needed = Some (ok, Some r') \<and> rq_inv r' \<and>
           rq_content r' = rq_content r \<and> rq_elem_size r' = rq_elem_size r \<and>
           (if ok then needed \<le> rq_cap r' else r' = r)"
proof -
  let ?es = "rq_elem_size r" and ?c = "rq_cap r" and ?n = "rq_count r"
  obtain b where b: "rq_buf r = Some b" using inv by (auto simp: rq_inv_def)
  define dbl where "dbl = (if ?c \<noteq> 0 \<and> ?c \<le> SIZE_MAX div 2 then ?c * 2 else needed)"
  define nc where "nc = (if dbl < needed then needed else dbl)"
  have es: "0 < ?es" "?c \<noteq> 0" "?n \<le> ?c" using inv by (auto simp: rq_inv_def)
  have un: "ring_queue_reserve malloc (Some r) needed =
      (if needed \<le> ?c then Some (True, Some r)
       else if SIZE_MAX div ?es < nc then Some (False, Some r)
       else case malloc (nc * ?es) of
              None \<Rightarrow> Some (False, Some r)
            | Some new_buf \<Rightarrow>
                do { new_buf \<leftarrow> (if ?n \<noteq> 0 \<and> ?c \<noteq> 0 then rq_copy_loop r new_buf b 0 else Some new_buf);
                     Some (True, Some (r\<lparr>rq_buf := Some new_buf, rq_cap := nc, rq_head := 0\<rparr>)) })"
    unfolding ring_queue_reserve_def Let_def nc_def dbl_def b option.case using es by simp
  consider "needed \<le> ?c" | "?c < needed" "SIZE_MAX div ?es < nc" | "?c < needed" "malloc (nc * ?es) = None" "nc \<le> SIZE_MAX div ?es"
    | nb where "?c < needed" "malloc (nc * ?es) = Some nb" "nc \<le> SIZE_MAX div ?es"
    by fastforce
  then show ?thesis
  proof cases
    case 4
    have le: "nc * ?es \<le> SIZE_MAX" using div_le_guard [OF es(1) 4(3)] .
    have nb: "length nb = nc * ?es" "2 * (nc * ?es) \<le> SIZE_MAX" using m [OF 4(2)] by simp_all
    have nc: "needed \<le> nc" by (simp add: nc_def)
    have "nc \<le> nc * ?es" using es(1) by simp
    then have half: "2 * nc \<le> SIZE_MAX" using nb(2) by linarith
    have "\<exists>nb'. (if ?n \<noteq> 0 \<and> ?c \<noteq> 0 then rq_copy_loop r nb b 0 else Some nb) = Some nb' \<and>
            length nb' = nc * ?es \<and> slots ?es nb' ?n = rq_content r"
      using rq_copy_loop_spec [OF inv b, of nc 0 nb] le nb nc es 4(1) by (auto simp: slots_def)
    then obtain nb' where nb': "(if ?n \<noteq> 0 \<and> ?c \<noteq> 0 then rq_copy_loop r nb b 0 else Some nb) = Some nb'"
      "length nb' = nc * ?es" "slots ?es nb' ?n = rq_content r" by blast
    let ?r = "r\<lparr>rq_buf := Some nb', rq_cap := nc, rq_head := 0\<rparr>"
    have "ring_queue_reserve malloc (Some r) needed = Some (True, Some ?r)"
      using 4 nb'(1) by (simp add: un split del: if_split)
    moreover have "rq_inv ?r" using inv nb'(2) le half nc 4(1) es by (simp add: rq_inv_def)
    moreover have "ring_seq (slots ?es nb' nc) nc 0 ?n = slots ?es nb' ?n"
      using nc 4(1) es by (intro ring_seq_eqI) simp_all
    then have "rq_content ?r = rq_content r" using nb'(3) by (simp add: rq_content_def rq_elems_def)
    ultimately show ?thesis using nc by auto
  qed (use inv in \<open>auto simp: un\<close>)
qed


section \<open>Interpretation\<close>

text \<open>Inserting a batch of elements until the ring is full, and removing up to \<open>k\<close> elements.\<close>

fun rq_put :: "ring_queue \<Rightarrow> u8 list list \<Rightarrow> (nat \<times> ring_queue) exec" where
  "rq_put r [] = Some (0, r)"
| "rq_put r (v # vs) =
     do { (ok, q) \<leftarrow> ring_queue_push (Some r) (Some v);
          r \<leftarrow> q;
          if ok then do { (n, r) \<leftarrow> rq_put r vs; Some (n + 1, r) } else Some (0, r) }"

fun rq_get :: "ring_queue \<Rightarrow> nat \<Rightarrow> (u8 list list \<times> ring_queue) exec" where
  "rq_get r 0 = Some ([], r)"
| "rq_get r (Suc k) =
     do { (ok, q, out) \<leftarrow> ring_queue_pop (Some r) (Some (replicate (rq_elem_size r) 0));
          r \<leftarrow> q;
          if ok then do { v \<leftarrow> out; (vs, r) \<leftarrow> rq_get r k; Some (v # vs, r) } else Some ([], r) }"

definition rq_inv_es :: "nat \<Rightarrow> ring_queue \<Rightarrow> bool" where
  "rq_inv_es es r \<longleftrightarrow> rq_inv r \<and> rq_elem_size r = es"

lemma rq_put_spec:
  assumes "rq_inv r" "list_all (\<lambda>v. length v = rq_elem_size r) vs"
  shows "\<exists>n r'. rq_put r vs = Some (n, r') \<and> n \<le> length vs \<and> rq_inv r' \<and> rq_elem_size r' = rq_elem_size r \<and>
           rq_cap r' = rq_cap r \<and> rq_content r' = rq_content r @ take n vs \<and>
           (n < length vs \<longrightarrow> rq_count r' = rq_cap r)"
  using assms
proof (induction vs arbitrary: r)
  case Nil
  then show ?case by simp
next
  case (Cons v vs)
  show ?case
  proof (cases "rq_count r < rq_cap r")
    case True
    obtain r1 where r1: "ring_queue_push (Some r) (Some v) = Some (True, Some r1)" "rq_inv r1"
      "rq_cap r1 = rq_cap r" "rq_elem_size r1 = rq_elem_size r" "rq_content r1 = rq_content r @ [v]"
      using rq_push_spec [of r v] True Cons.prems by auto
    obtain n r2 where "rq_put r1 vs = Some (n, r2)" "n \<le> length vs" "rq_inv r2" "rq_elem_size r2 = rq_elem_size r1"
      "rq_cap r2 = rq_cap r1" "rq_content r2 = rq_content r1 @ take n vs" "n < length vs \<longrightarrow> rq_count r2 = rq_cap r1"
      using Cons.IH [OF r1(2)] r1(4) Cons.prems(2) by auto
    then show ?thesis using r1 by simp
  next
    case False
    then have "rq_count r = rq_cap r" using Cons.prems(1) by (simp add: rq_inv_def)
    then show ?thesis using rq_push_full [OF Cons.prems(1), of v] Cons.prems(1) by simp
  qed
qed

lemma rq_get_spec:
  assumes "rq_inv r"
  shows "\<exists>r'. rq_get r k = Some (take k (rq_content r), r') \<and> rq_inv r' \<and> rq_elem_size r' = rq_elem_size r \<and>
           rq_cap r' = rq_cap r \<and> rq_content r' = drop k (rq_content r)"
  using assms
proof (induction k arbitrary: r)
  case 0
  then show ?case by simp
next
  case (Suc k)
  show ?case
  proof (cases "rq_count r = 0")
    case True
    then have e: "rq_content r = []" by simp
    show ?thesis using rq_pop_empty [OF Suc.prems True] Suc.prems True by (simp add: e)
  next
    case False
    obtain r1 where r1: "ring_queue_pop (Some r) (Some (replicate (rq_elem_size r) 0)) = Some (True, Some r1, Some (hd (rq_content r)))"
      "rq_inv r1" "rq_cap r1 = rq_cap r" "rq_elem_size r1 = rq_elem_size r" "rq_content r1 = drop 1 (rq_content r)"
      using rq_pop_spec [OF Suc.prems False, of "replicate (rq_elem_size r) 0"] by auto
    obtain x xs where "rq_content r = x # xs" using False by (metis list.exhaust rq_content_Nil_iff)
    then show ?thesis using r1 Suc.IH [OF r1(2)] by auto
  qed
qed

interpretation rq: bounded_fifo "rq_inv_es es" rq_cap rq_content rq_get "\<lambda>v. length v = es" rq_put for es
proof
  fix r :: ring_queue and vs :: "u8 list list" and k :: nat
  assume inv: "rq_inv_es es r"
  show "list_all (\<lambda>v. length v = es) vs \<Longrightarrow>
     \<exists>n r'. rq_put r vs = Some (n, r') \<and> n \<le> length vs \<and> rq_inv_es es r' \<and> rq_cap r' = rq_cap r \<and>
       rq_content r' = rq_content r @ take n vs \<and> (n < length vs \<longrightarrow> length (rq_content r') = rq_cap r)"
    using rq_put_spec [of r vs] inv by (auto simp: rq_inv_es_def)
  show "\<exists>r'. rq_get r k = Some (take k (rq_content r), r') \<and> rq_inv_es es r' \<and> rq_cap r' = rq_cap r \<and>
       rq_content r' = drop k (rq_content r)"
    using rq_get_spec [of r k] inv by (auto simp: rq_inv_es_def)
  show "length (rq_content r) \<le> rq_cap r" using inv by (simp add: rq_inv_es_def rq_inv_def)
qed


section \<open>Properties\<close>

definition demo_rq :: ring_queue where
  "demo_rq = \<lparr>rq_buf = Some [5, 6, 0, 0, 1, 2, 3, 4], rq_elem_size = 2, rq_cap = 4, rq_head = 2, rq_count = 3\<rparr>"

lemma demo_rq_inv: "rq_inv demo_rq"
  by (simp add: rq_inv_def demo_rq_def SIZE_MAX_def)



text \<open>
  (C24) \<open>ring_queue_remove_at\<close> deletes exactly the element at its position, across the wrap of
  the buffer, and keeps the order of the others; \<open>ring_queue_at\<close> points at the element of its index.
\<close>

theorem ring_queue_remove_at_correct:
  assumes "rq_inv r" "i < rq_count r"
  shows "(\<exists>r'. ring_queue_remove_at (Some r) i = Some (True, Some r') \<and> rq_inv r' \<and>
            rq_content r' = take i (rq_content r) @ drop (i + 1) (rq_content r)) \<and>
         (\<exists>p. ring_queue_at (Some r) i = Some p \<and>
            take (rq_elem_size r) (drop p (the (rq_buf r))) = rq_content r ! i)"
  using rq_remove_at_spec [OF assms] rq_at_spec [OF assms] by blast

theorem ring_queue_remove_at_witness:
  "rq_inv demo_rq \<and> (\<exists>r'. ring_queue_remove_at (Some demo_rq) 1 = Some (True, Some r') \<and> rq_content r' = [[1, 2], [5, 6]])"
proof -
  have "rq_content demo_rq = [[1, 2], [3, 4], [5, 6]]" "rq_count demo_rq = 3" by code_simp+
  then show ?thesis using demo_rq_inv ring_queue_remove_at_correct [OF demo_rq_inv, of 1] by auto
qed

text \<open>
  (C25) \<open>ring_queue_reserve\<close> keeps the queued elements: whether or not it grows, the content is
  unchanged, a success leaves room for \<open>needed\<close> elements and a failure (overflow of the
  byte count, or no memory) changes nothing. The allocator only has to return blocks of the
  size asked for, none larger than half the address space.
\<close>

theorem ring_queue_reserve_correct:
  assumes "rq_inv r" "needed \<le> SIZE_MAX"
    and "\<And>n b. malloc n = Some b \<Longrightarrow> length b = n \<and> 2 * n \<le> SIZE_MAX"
  shows "\<exists>ok r'. ring_queue_reserve malloc (Some r) needed = Some (ok, Some r') \<and> rq_inv r' \<and>
           rq_content r' = rq_content r \<and> (if ok then needed \<le> rq_cap r' else r' = r)"
  using rq_reserve_spec [OF assms(1,3,2)] by fast

theorem ring_queue_reserve_witness:
  "rq_inv demo_rq \<and>
   (\<exists>ok r'. ring_queue_reserve (\<lambda>n. if n \<le> 100 then Some (replicate n 7) else None) (Some demo_rq) 6 = Some (ok, Some r') \<and>
      rq_inv r' \<and> rq_content r' = rq_content demo_rq)"
  using demo_rq_inv
    ring_queue_reserve_correct [OF demo_rq_inv, of 6 "\<lambda>n. if n \<le> 100 then Some (replicate n 7) else None"]
  by (fastforce simp: SIZE_MAX_def split: if_splits)

end
