(* ===== verification/Vector.thy ===== *)
theory Vector
  imports Prelude
begin

text \<open>
  The growable array \<open>vector_t\<close> of \<open>libs/data/vector.c\<close>, at the level of its bytes. The
  specification is the list of its elements. The operations keep the unused slots zero, which is
  what makes the gap that \<open>vec_insert\<close> may leave behind the end read as zero elements.
\<close>

record vector =
  v_size :: size_t
  v_capacity :: size_t
  v_elem_size :: size_t
  v_data :: "u8 list"

definition VEC_GROWTH_RATE :: size_t where "VEC_GROWTH_RATE = 2"
definition VEC_INITIAL_CAPACITY :: size_t where "VEC_INITIAL_CAPACITY = 4"

partial_function (option) vec_grow_loop :: "size_t \<Rightarrow> size_t \<Rightarrow> size_t exec" where
  "vec_grow_loop capacity needed =
     (if capacity < needed
      then if SIZE_MAX div VEC_GROWTH_RATE < capacity then Some needed
           else vec_grow_loop (capacity * VEC_GROWTH_RATE) needed
      else Some capacity)"

definition vec_grow_capacity :: "size_t \<Rightarrow> size_t \<Rightarrow> size_t exec" where
  "vec_grow_capacity current needed =
     (if needed \<le> current then Some current
      else let capacity = (if current \<noteq> 0 then current else VEC_INITIAL_CAPACITY);
               capacity = (if capacity < needed \<and> capacity = 0 then needed else capacity) in
        vec_grow_loop capacity needed)"

definition vec_create_sized :: "bool \<Rightarrow> (size_t \<Rightarrow> u8 list ptr) \<Rightarrow> size_t \<Rightarrow> size_t \<Rightarrow> vector ptr" where
  "vec_create_sized node_ok malloc capacity elem_size =
     (if elem_size = 0 \<or> SIZE_MAX div elem_size < capacity then None
      else if \<not> node_ok then None
      else case calloc malloc capacity elem_size of
             None \<Rightarrow> None
           | Some data \<Rightarrow> Some \<lparr>v_size = 0, v_capacity = capacity, v_elem_size = elem_size, v_data = data\<rparr>)"

definition vec_create :: "bool \<Rightarrow> (size_t \<Rightarrow> u8 list ptr) \<Rightarrow> size_t \<Rightarrow> vector ptr" where
  "vec_create node_ok malloc elem_size = vec_create_sized node_ok malloc VEC_INITIAL_CAPACITY elem_size"

definition vec_clone :: "bool \<Rightarrow> (size_t \<Rightarrow> u8 list ptr) \<Rightarrow> vector ptr \<Rightarrow> vector ptr exec" where
  "vec_clone node_ok malloc parent =
     (case parent of
        None \<Rightarrow> Some None
      | Some p \<Rightarrow>
          (case vec_create_sized node_ok malloc (v_capacity p) (v_elem_size p) of
             None \<Rightarrow> Some None
           | Some child \<Rightarrow>
               do { data \<leftarrow> memcpy (v_data child) 0 (v_data p) 0 (sz_mul (v_elem_size p) (v_capacity p));
                    Some (Some (child\<lparr>v_data := data, v_size := v_size p\<rparr>)) }))"

definition vec_size :: "vector ptr \<Rightarrow> size_t" where
  "vec_size vec = (case vec of Some v \<Rightarrow> v_size v | None \<Rightarrow> 0)"

definition vec_capacity :: "vector ptr \<Rightarrow> size_t" where
  "vec_capacity vec = (case vec of Some v \<Rightarrow> v_capacity v | None \<Rightarrow> 0)"

definition vec_reserve :: "(size_t \<Rightarrow> u8 list ptr) \<Rightarrow> vector ptr \<Rightarrow> size_t \<Rightarrow> (bool \<times> vector ptr) exec" where
  "vec_reserve malloc vec capacity =
     (case vec of
        None \<Rightarrow> Some (False, vec)
      | Some v \<Rightarrow>
          if v_elem_size v = 0 \<or> SIZE_MAX div v_elem_size v < capacity then Some (False, vec)
          else if capacity \<le> v_capacity v then Some (True, vec)
          else do { new_capacity \<leftarrow> vec_grow_capacity (v_capacity v) capacity;
                    if new_capacity = 0 then Some (False, vec)
                    else case calloc malloc new_capacity (v_elem_size v) of
                           None \<Rightarrow> Some (False, vec)
                         | Some new_buf \<Rightarrow>
                             do { new_buf \<leftarrow> memcpy new_buf 0 (v_data v) 0 (sz_mul (v_size v) (v_elem_size v));
                                  Some (True, Some (v\<lparr>v_data := new_buf, v_capacity := new_capacity\<rparr>)) } })"

definition vec_reserve_more :: "(size_t \<Rightarrow> u8 list ptr) \<Rightarrow> vector ptr \<Rightarrow> size_t \<Rightarrow> (bool \<times> vector ptr) exec" where
  "vec_reserve_more malloc vec additional =
     (case vec of
        None \<Rightarrow> Some (False, vec)
      | Some v \<Rightarrow>
          if SIZE_MAX - v_capacity v < additional then Some (False, vec)
          else vec_reserve malloc vec (v_capacity v + additional))"

definition vec_resize :: "(size_t \<Rightarrow> u8 list ptr) \<Rightarrow> vector ptr \<Rightarrow> size_t \<Rightarrow> (bool \<times> vector ptr) exec" where
  "vec_resize malloc vec sz =
     (case vec of
        None \<Rightarrow> Some (False, vec)
      | Some v \<Rightarrow>
          if v_elem_size v = 0 \<or> SIZE_MAX div v_elem_size v < sz then Some (False, vec)
          else do { (ok, vec) \<leftarrow> (if v_capacity v < sz then vec_reserve malloc vec sz else Some (True, vec));
                    if \<not> ok then Some (False, vec)
                    else do { v \<leftarrow> vec;
                      base \<leftarrow> (if v_size v < sz
                               then memset (v_data v) (sz_mul (v_size v) (v_elem_size v)) 0
                                      (sz_mul (sz - v_size v) (v_elem_size v))
                               else if sz < v_size v
                               then memset (v_data v) (sz_mul sz (v_elem_size v)) 0
                                      (sz_mul (v_size v - sz) (v_elem_size v))
                               else Some (v_data v));
                      Some (True, Some (v\<lparr>v_data := base, v_size := sz\<rparr>)) } })"

text \<open>Pointers to elements are offsets into the data.\<close>

definition vec_at :: "vector ptr \<Rightarrow> size_t \<Rightarrow> size_t ptr" where
  "vec_at vec index =
     (case vec of
        None \<Rightarrow> None
      | Some v \<Rightarrow> if v_size v \<le> index then None else Some (sz_mul index (v_elem_size v)))"

definition vec_get :: "vector ptr \<Rightarrow> size_t \<Rightarrow> u8 cursor \<Rightarrow> (bool \<times> u8 cursor) exec" where
  "vec_get vec index out =
     (case (vec, vec_at vec index, out) of
        (Some v, Some place, Some (dst, at)) \<Rightarrow>
          do { dst \<leftarrow> memcpy dst at (v_data v) place (v_elem_size v); Some (True, Some (dst, at)) }
      | _ \<Rightarrow> Some (False, out))"

definition vec_set :: "vector ptr \<Rightarrow> size_t \<Rightarrow> u8 cursor \<Rightarrow> (size_t ptr \<times> vector ptr) exec" where
  "vec_set vec index data =
     (case (vec, data) of
        (Some v, Some (src, at)) \<Rightarrow>
          if v_size v \<le> index then Some (None, vec)
          else let place = sz_mul index (v_elem_size v) in
            do { d \<leftarrow> memcpy (v_data v) place src at (v_elem_size v);
                 Some (Some place, Some (v\<lparr>v_data := d\<rparr>)) }
      | _ \<Rightarrow> Some (None, vec))"

definition vec_clear :: "vector ptr \<Rightarrow> (bool \<times> vector ptr) exec" where
  "vec_clear vec =
     (case vec of
        None \<Rightarrow> Some (False, vec)
      | Some v \<Rightarrow>
          do { d \<leftarrow> memset (v_data v) 0 0 (sz_mul (v_size v) (v_elem_size v));
               Some (True, Some (v\<lparr>v_data := d, v_size := 0\<rparr>)) })"

definition vec_insert :: "(size_t \<Rightarrow> u8 list ptr) \<Rightarrow> vector ptr \<Rightarrow> size_t \<Rightarrow> u8 cursor \<Rightarrow> (bool \<times> vector ptr) exec" where
  "vec_insert malloc vec index data =
     (case (vec, data) of
        (Some v, Some (src, at)) \<Rightarrow>
          if index = SIZE_MAX then Some (False, vec)
          else do { (ok, vec) \<leftarrow> (if v_capacity v \<le> index then vec_reserve malloc vec (index + 1) else Some (True, vec));
                    if \<not> ok then Some (False, vec)
                    else do { v \<leftarrow> vec;
                      d \<leftarrow> memcpy (v_data v) (sz_mul index (v_elem_size v)) src at (v_elem_size v);
                      Some (True, Some (v\<lparr>v_data := d, v_size := max (v_size v) (index + 1)\<rparr>)) } }
      | _ \<Rightarrow> Some (False, vec))"

text \<open>\<open>memswap\<close> of \<open>libs/libc_ext/string.c\<close> on two places of one buffer.\<close>

function memswap :: "u8 list \<Rightarrow> size_t \<Rightarrow> size_t \<Rightarrow> size_t \<Rightarrow> size_t \<Rightarrow> u8 list exec" where
  "memswap buf a b i len =
     (if i < len
      then do { x \<leftarrow> load buf (a + i);
                y \<leftarrow> load buf (b + i);
                buf \<leftarrow> store buf (a + i) y;
                buf \<leftarrow> store buf (b + i) x;
                memswap buf a b (i + 1) len }
      else Some buf)"
  by auto
termination by (relation "measure (\<lambda>(buf, a, b, i, len). len - i)") auto

declare memswap.simps [simp del]

definition vec_swap :: "vector ptr \<Rightarrow> size_t \<Rightarrow> size_t \<Rightarrow> (bool \<times> vector ptr) exec" where
  "vec_swap vec i j =
     (case (vec, vec_at vec i, vec_at vec j) of
        (Some v, Some first, Some second) \<Rightarrow>
          do { d \<leftarrow> memswap (v_data v) first second 0 (v_elem_size v);
               Some (True, Some (v\<lparr>v_data := d\<rparr>)) }
      | _ \<Rightarrow> Some (False, vec))"

definition vec_push :: "(size_t \<Rightarrow> u8 list ptr) \<Rightarrow> vector ptr \<Rightarrow> u8 cursor \<Rightarrow> (bool \<times> vector ptr) exec" where
  "vec_push malloc vec data =
     (case (vec, data) of
        (Some v, Some (src, at)) \<Rightarrow>
          if v_size v = SIZE_MAX then Some (False, vec)
          else do { (ok, vec) \<leftarrow> (if v_capacity v \<le> v_size v then vec_reserve malloc vec (v_size v + 1) else Some (True, vec));
                    if \<not> ok then Some (False, vec)
                    else do { v \<leftarrow> vec;
                      d \<leftarrow> memcpy (v_data v) (sz_mul (v_size v) (v_elem_size v)) src at (v_elem_size v);
                      Some (True, Some (v\<lparr>v_data := d, v_size := v_size v + 1\<rparr>)) } }
      | _ \<Rightarrow> Some (False, vec))"

function vec_push_loop ::
  "(size_t \<Rightarrow> u8 list ptr) \<Rightarrow> vector \<Rightarrow> u8 list \<Rightarrow> size_t \<Rightarrow> size_t \<Rightarrow> (bool \<times> vector ptr) exec" where
  "vec_push_loop malloc v arr i len =
     (if i < len
      then do { (ok, vec) \<leftarrow> vec_push malloc (Some v) (Some (arr, sz_mul i (v_elem_size v)));
                if \<not> ok then Some (False, vec)
                else do { v \<leftarrow> vec; vec_push_loop malloc v arr (i + 1) len } }
      else Some (True, Some v))"
  by auto
termination by (relation "measure (\<lambda>(malloc, v, arr, i, len). len - i)") auto

declare vec_push_loop.simps [simp del]

definition vec_push_array ::
  "(size_t \<Rightarrow> u8 list ptr) \<Rightarrow> vector ptr \<Rightarrow> u8 list ptr \<Rightarrow> size_t \<Rightarrow> (bool \<times> vector ptr) exec" where
  "vec_push_array malloc vec arr len =
     (case vec of
        None \<Rightarrow> Some (False, vec)
      | Some v \<Rightarrow>
          (case arr of
             None \<Rightarrow> if len \<noteq> 0 then Some (False, vec) else Some (True, vec)
           | Some xs \<Rightarrow> vec_push_loop malloc v xs 0 len))"

definition vec_pop :: "vector ptr \<Rightarrow> u8 cursor \<Rightarrow> (bool \<times> vector ptr \<times> u8 cursor) exec" where
  "vec_pop vec out =
     (case vec of
        None \<Rightarrow> Some (False, vec, out)
      | Some v \<Rightarrow>
          if v_size v = 0 then Some (False, vec, out)
          else do { out \<leftarrow> (case out of
                              None \<Rightarrow> Some None
                            | Some c \<Rightarrow> do { (_, out) \<leftarrow> vec_get vec (v_size v - 1) out; Some out });
                    d \<leftarrow> memset (v_data v) (sz_mul (v_size v - 1) (v_elem_size v)) 0 (v_elem_size v);
                    Some (True, Some (v\<lparr>v_data := d, v_size := v_size v - 1\<rparr>), out) })"

function vec_pop_loop :: "vector \<Rightarrow> u8 cursor \<Rightarrow> size_t \<Rightarrow> size_t \<Rightarrow> (size_t \<times> vector ptr \<times> u8 cursor) exec" where
  "vec_pop_loop v cursor i len =
     (if i < len
      then do { (ok, vec, cursor) \<leftarrow> vec_pop (Some v) cursor;
                v \<leftarrow> vec;
                if ok
                then vec_pop_loop v (case cursor of None \<Rightarrow> None | Some (dst, at) \<Rightarrow> Some (dst, at + v_elem_size v)) (i + 1) len
                else Some (i, Some v, cursor) }
      else Some (i, Some v, cursor))"
  by auto
termination by (relation "measure (\<lambda>(v, cursor, i, len). len - i)") auto

declare vec_pop_loop.simps [simp del]

definition vec_pop_array :: "vector ptr \<Rightarrow> u8 cursor \<Rightarrow> size_t \<Rightarrow> (size_t \<times> vector ptr \<times> u8 cursor) exec" where
  "vec_pop_array vec out len =
     (case vec of
        None \<Rightarrow> Some (0, vec, out)
      | Some v \<Rightarrow>
          if v_size v = 0 \<or> len = 0 then Some (0, vec, out)
          else vec_pop_loop v out 0 len)"

definition vec_remove_at :: "vector ptr \<Rightarrow> size_t \<Rightarrow> u8 cursor \<Rightarrow> (bool \<times> vector ptr \<times> u8 cursor) exec" where
  "vec_remove_at vec index out =
     (case vec of
        None \<Rightarrow> Some (False, vec, out)
      | Some v \<Rightarrow>
          if v_size v \<le> index then Some (False, vec, out)
          else let place = sz_mul index (v_elem_size v) in
            do { out \<leftarrow> (case out of
                           None \<Rightarrow> Some None
                         | Some (dst, at) \<Rightarrow>
                             do { dst \<leftarrow> memcpy dst at (v_data v) place (v_elem_size v); Some (Some (dst, at)) });
                 d \<leftarrow> (if index + 1 < v_size v
                       then memmove (v_data v) place (place + v_elem_size v)
                              (sz_mul (v_size v - index - 1) (v_elem_size v))
                       else Some (v_data v));
                 d \<leftarrow> memset d (sz_mul (v_size v - 1) (v_elem_size v)) 0 (v_elem_size v);
                 Some (True, Some (v\<lparr>v_data := d, v_size := v_size v - 1\<rparr>), out) })"


section \<open>Invariant and content\<close>

abbreviation zero_elem :: "nat \<Rightarrow> u8 list" where
  "zero_elem es \<equiv> replicate es 0"

definition vec_list :: "vector \<Rightarrow> u8 list list" where
  "vec_list v = slots (v_elem_size v) (v_data v) (v_size v)"

definition vec_inv :: "vector \<Rightarrow> bool" where
  "vec_inv v \<longleftrightarrow>
     0 < v_elem_size v \<and> v_size v \<le> v_capacity v \<and>
     length (v_data v) = v_capacity v * v_elem_size v \<and> v_capacity v * v_elem_size v \<le> SIZE_MAX \<and>
     slots (v_elem_size v) (v_data v) (v_capacity v) =
       vec_list v @ replicate (v_capacity v - v_size v) (zero_elem (v_elem_size v))"

lemma length_vec_list [simp]: "length (vec_list v) = v_size v"
  by (simp add: vec_list_def)

text \<open>No offset computation wraps.\<close>

lemma vec_no_wrap:
  assumes "vec_inv v" "i \<le> v_capacity v"
  shows "sz_mul i (v_elem_size v) = i * v_elem_size v"
proof -
  have "i * v_elem_size v \<le> v_capacity v * v_elem_size v" using assms(2) by (rule mult_le_mono1)
  also have "\<dots> \<le> SIZE_MAX" using assms(1) by (simp add: vec_inv_def)
  finally show ?thesis by (rule sz_mul_exact)
qed

lemma vec_invI:
  assumes "0 < v_elem_size v" "length (v_data v) = v_capacity v * v_elem_size v"
    "v_capacity v * v_elem_size v \<le> SIZE_MAX" "v_size v \<le> v_capacity v"
    "slots (v_elem_size v) (v_data v) (v_capacity v) = L @ replicate (v_capacity v - v_size v) (zero_elem (v_elem_size v))"
    "length L = v_size v"
  shows "vec_inv v \<and> vec_list v = L"
proof -
  have "vec_list v = take (v_size v) (slots (v_elem_size v) (v_data v) (v_capacity v))"
    using assms(4) by (simp add: vec_list_def take_slots)
  also have "\<dots> = L" using assms(5,6) by simp
  finally have "vec_list v = L" .
  then show ?thesis using assms by (simp add: vec_inv_def)
qed

lemma vec_full:
  "vec_inv v \<Longrightarrow> slots (v_elem_size v) (v_data v) (v_capacity v) =
     vec_list v @ replicate (v_capacity v - v_size v) (zero_elem (v_elem_size v))"
  by (simp add: vec_inv_def)

lemma vec_grow_loop_spec:
  assumes "0 < capacity" "needed \<le> SIZE_MAX"
  shows "\<exists>c. vec_grow_loop capacity needed = Some c \<and> needed \<le> c \<and> (c = needed \<or> (\<exists>k. c = capacity * 2 ^ k))"
  using assms
proof (induction "needed - capacity" arbitrary: capacity rule: less_induct)
  case less
  show ?case
  proof (cases "capacity < needed")
    case False
    then show ?thesis by (subst vec_grow_loop.simps) (auto intro: exI [of _ 0])
  next
    case True
    show ?thesis
    proof (cases "SIZE_MAX div 2 < capacity")
      case True
      then show ?thesis using \<open>capacity < needed\<close>
        by (subst vec_grow_loop.simps) (simp add: VEC_GROWTH_RATE_def)
    next
      case False
      have "needed - capacity * 2 < needed - capacity" using True less.prems by linarith
      then obtain c where c: "vec_grow_loop (capacity * 2) needed = Some c" "needed \<le> c"
        "c = needed \<or> (\<exists>k. c = capacity * 2 * 2 ^ k)"
        using less.hyps [of "capacity * 2"] less.prems by auto
      have "c = needed \<or> (\<exists>k. c = capacity * 2 ^ k)"
        using c(3) by (metis mult.assoc power_Suc)
      then show ?thesis using c True False
        by (subst vec_grow_loop.simps) (simp add: VEC_GROWTH_RATE_def)
    qed
  qed
qed

text \<open>The growth policy: enough, and geometric unless doubling would overflow.\<close>

lemma vec_grow_capacity_spec:
  assumes "current < needed" "needed \<le> SIZE_MAX"
  shows "\<exists>c. vec_grow_capacity current needed = Some c \<and> needed \<le> c \<and>
           (0 < current \<longrightarrow> c = needed \<or> 2 * current \<le> c)"
proof -
  define s where "s = (if current \<noteq> 0 then current else VEC_INITIAL_CAPACITY)"
  have s: "0 < s" by (simp add: s_def VEC_INITIAL_CAPACITY_def)
  obtain c where c: "vec_grow_loop s needed = Some c" "needed \<le> c" "c = needed \<or> (\<exists>k. c = s * 2 ^ k)"
    using vec_grow_loop_spec [OF s assms(2)] by blast
  have "c = needed \<or> 2 * current \<le> c" if "0 < current"
  proof (cases "c = needed")
    case False
    moreover have "s = current" using that by (simp add: s_def)
    ultimately obtain k where k: "c = current * 2 ^ k" using c(3) by blast
    then have "k \<noteq> 0" using c(2) assms(1) by (cases k) auto
    then obtain m where "k = Suc m" by (cases k) auto
    then show ?thesis using k by simp
  qed simp
  moreover have "vec_grow_capacity current needed = vec_grow_loop s needed"
    using assms(1) by (simp add: vec_grow_capacity_def Let_def s_def VEC_INITIAL_CAPACITY_def)
  ultimately show ?thesis using c by simp
qed

lemma vec_create_sized_spec:
  assumes m: "malloc_ok malloc" and create: "vec_create_sized node_ok malloc cap es = Some v"
  shows "vec_inv v" "vec_list v = []" "v_capacity v = cap" "v_elem_size v = es"
proof -
  obtain d where d: "calloc malloc cap es = Some d" and es: "0 < es"
    and v: "v = \<lparr>v_size = 0, v_capacity = cap, v_elem_size = es, v_data = d\<rparr>"
    using create by (auto simp: vec_create_sized_def split: if_splits option.splits)
  note z = calloc_SomeD [OF m d]
  have "slots es d cap = replicate cap (zero_elem es)" by (simp add: z slots_replicate)
  then have "vec_inv v \<and> vec_list v = []"
    using es z by (intro vec_invI) (simp_all add: v)
  then show "vec_inv v" "vec_list v = []" "v_capacity v = cap" "v_elem_size v = es" by (simp_all add: v)
qed

lemma vec_reserve_spec:
  assumes m: "malloc_ok malloc" and inv: "vec_inv v"
  shows "\<exists>ok v'. vec_reserve malloc (Some v) capacity = Some (ok, Some v') \<and> vec_inv v' \<and> vec_list v' = vec_list v \<and>
           v_elem_size v' = v_elem_size v \<and> v_size v' = v_size v \<and> v_capacity v \<le> v_capacity v' \<and>
           (if ok then capacity \<le> v_capacity v' else v' = v)"
proof -
  let ?es = "v_elem_size v"
  consider "SIZE_MAX div ?es < capacity" | "capacity \<le> SIZE_MAX div ?es" "capacity \<le> v_capacity v"
    | "capacity \<le> SIZE_MAX div ?es" "v_capacity v < capacity" by linarith
  then show ?thesis
  proof cases
    case 3
    have es: "0 < ?es" using inv by (simp add: vec_inv_def)
    have "capacity \<le> SIZE_MAX" using 3(1) by (meson div_le_dividend le_trans)
    then obtain c where c: "vec_grow_capacity (v_capacity v) capacity = Some c" "capacity \<le> c"
      using vec_grow_capacity_spec [OF 3(2)] by blast
    show ?thesis
    proof (cases "calloc malloc c ?es")
      case None
      then show ?thesis using inv 3 c es by (intro exI [of _ False]) (simp add: vec_reserve_def)
    next
      case (Some b)
      note z = calloc_SomeD [OF m Some]
      let ?d = "take (v_size v * ?es) (v_data v) @ drop (v_size v * ?es) b"
      have sz: "v_size v \<le> v_capacity v" "length (v_data v) = v_capacity v * ?es" "v_size v \<le> c"
        using inv 3(2) c(2) by (auto simp: vec_inv_def)
      have le: "v_size v * ?es \<le> length (v_data v)" "v_size v * ?es \<le> length b"
        using sz z(1) by (simp_all add: mult_le_mono1)
      have cp: "memcpy b 0 (v_data v) 0 (sz_mul (v_size v) ?es) = Some ?d"
        using le by (simp add: vec_no_wrap [OF inv sz(1)] memcpy_ok)
      let ?v = "v\<lparr>v_data := ?d, v_capacity := c\<rparr>"
      have "slots ?es ?d (v_size v + (c - v_size v))
            = slots ?es (take (v_size v * ?es) (v_data v)) (v_size v) @ slots ?es (drop (v_size v * ?es) b) (c - v_size v)"
        using le by (intro slots_append) simp
      also have "slots ?es (take (v_size v * ?es) (v_data v)) (v_size v) = vec_list v"
        using slots_take [of "v_size v" "v_size v" ?es "v_data v"] by (simp add: vec_list_def)
      also have "slots ?es (drop (v_size v * ?es) b) (c - v_size v) = replicate (c - v_size v) (zero_elem ?es)"
        by (simp add: z(1) diff_mult_distrib [symmetric] slots_replicate)
      finally have "vec_inv ?v \<and> vec_list ?v = vec_list v"
        using sz le z es by (intro vec_invI) (simp_all add: diff_mult_distrib)
      then show ?thesis
        using inv 3 c es cp Some z(3) by (auto simp: vec_reserve_def)
    qed
  qed (use inv in \<open>auto simp: vec_reserve_def vec_inv_def\<close>)
qed


section \<open>The operations on the list of elements\<close>

lemma vec_at_spec:
  assumes inv: "vec_inv v" and i: "i < v_size v"
  shows "vec_at (Some v) i = Some (i * v_elem_size v)" "i * v_elem_size v + v_elem_size v \<le> length (v_data v)"
    "take (v_elem_size v) (drop (i * v_elem_size v) (v_data v)) = vec_list v ! i"
proof -
  have le: "i < v_capacity v" using inv i by (simp add: vec_inv_def)
  then show "vec_at (Some v) i = Some (i * v_elem_size v)" using i by (simp add: vec_at_def vec_no_wrap [OF inv])
  show "i * v_elem_size v + v_elem_size v \<le> length (v_data v)"
    using slot_end [OF le, of "v_elem_size v" "v_data v"] inv by (simp add: vec_inv_def)
  show "take (v_elem_size v) (drop (i * v_elem_size v) (v_data v)) = vec_list v ! i"
    using i by (simp add: vec_list_def slot_def)
qed

lemma vec_get_spec:
  assumes "vec_inv v" "i < v_size v" "at + v_elem_size v \<le> length dst"
  shows "vec_get (Some v) i (Some (dst, at)) =
           Some (True, Some (take at dst @ vec_list v ! i @ drop (at + v_elem_size v) dst, at))"
  using vec_at_spec [OF assms(1,2)] assms(3) by (simp add: vec_get_def memcpy_ok)

lemma vec_get_out_of_range: "v_size v \<le> i \<Longrightarrow> vec_get (Some v) i out = Some (False, out)"
  by (simp add: vec_get_def vec_at_def)

text \<open>Writing one slot below the capacity.\<close>

lemma vec_write_slot:
  assumes inv: "vec_inv v" and i: "i < v_capacity v" and x: "length x = v_elem_size v"
    and src: "take (v_elem_size v) (drop at src) = x" "at + v_elem_size v \<le> length src"
  shows "\<exists>d. memcpy (v_data v) (sz_mul i (v_elem_size v)) src at (v_elem_size v) = Some d \<and>
           length d = length (v_data v) \<and>
           slots (v_elem_size v) d (v_capacity v) = (slots (v_elem_size v) (v_data v) (v_capacity v))[i := x]"
proof -
  have l: "v_capacity v * v_elem_size v \<le> length (v_data v)" using inv by (simp add: vec_inv_def)
  have "memcpy (v_data v) (i * v_elem_size v) src at (v_elem_size v) = Some (put_slot (v_elem_size v) (v_data v) i x)"
    using slot_end [OF i l] src by (simp add: memcpy_ok put_slot_def)
  then show ?thesis
    using vec_no_wrap [OF inv, of i] i l x length_put_slot [OF i l x] slots_put_slot [OF i l x] by simp
qed

lemma vec_set_spec:
  assumes inv: "vec_inv v" and i: "i < v_size v" and src: "at + v_elem_size v \<le> length src"
    and x: "x = take (v_elem_size v) (drop at src)"
  shows "\<exists>v'. vec_set (Some v) i (Some (src, at)) = Some (Some (i * v_elem_size v), Some v') \<and> vec_inv v' \<and>
           vec_list v' = (vec_list v)[i := x] \<and> v_elem_size v' = v_elem_size v"
proof -
  have le: "i < v_capacity v" "v_size v \<le> v_capacity v" using inv i by (simp_all add: vec_inv_def)
  have lx: "length x = v_elem_size v" using x src by simp
  obtain d where d: "memcpy (v_data v) (sz_mul i (v_elem_size v)) src at (v_elem_size v) = Some d"
    "length d = length (v_data v)"
    "slots (v_elem_size v) d (v_capacity v) = (slots (v_elem_size v) (v_data v) (v_capacity v))[i := x]"
    using vec_write_slot [OF inv le(1) lx x [symmetric] src] by blast
  let ?v = "v\<lparr>v_data := d\<rparr>"
  have "vec_inv ?v \<and> vec_list ?v = (vec_list v)[i := x]"
    using inv d i le by (intro vec_invI) (simp_all add: vec_full list_update_append vec_inv_def)
  then show ?thesis
    using d(1) i le vec_no_wrap [OF inv, of i] by (simp add: vec_set_def Let_def)
qed

text \<open>Insertion at any position up to and past the end; \<open>vec_push\<close> is insertion at the end.\<close>

definition insert_list :: "nat \<Rightarrow> u8 list list \<Rightarrow> nat \<Rightarrow> u8 list \<Rightarrow> u8 list list" where
  "insert_list es xs i x =
     (if i < length xs then xs[i := x] else xs @ replicate (i - length xs) (zero_elem es) @ [x])"

lemma insert_list_full:
  assumes "i < c" "length xs \<le> c"
  shows "(xs @ replicate (c - length xs) (zero_elem es))[i := x] =
         insert_list es xs i x @ replicate (c - max (length xs) (i + 1)) (zero_elem es)"
  using assms
  by (intro nth_equalityI)
    (auto simp: insert_list_def nth_append nth_list_update max_def split: if_splits)

lemma length_insert_list: "length (insert_list es xs i x) = max (length xs) (i + 1)"
  by (auto simp: insert_list_def)

lemma vec_place_spec:
  assumes inv: "vec_inv v" and i: "i < v_capacity v" and src: "at + v_elem_size v \<le> length src"
    and x: "x = take (v_elem_size v) (drop at src)"
  shows "\<exists>d. memcpy (v_data v) (sz_mul i (v_elem_size v)) src at (v_elem_size v) = Some d \<and>
           vec_inv (v\<lparr>v_data := d, v_size := max (v_size v) (i + 1)\<rparr>) \<and>
           vec_list (v\<lparr>v_data := d, v_size := max (v_size v) (i + 1)\<rparr>) = insert_list (v_elem_size v) (vec_list v) i x"
proof -
  have lx: "length x = v_elem_size v" using x src by simp
  have sz: "length (vec_list v) \<le> v_capacity v" using inv by (simp add: vec_inv_def)
  obtain d where d: "memcpy (v_data v) (sz_mul i (v_elem_size v)) src at (v_elem_size v) = Some d"
    "length d = length (v_data v)"
    "slots (v_elem_size v) d (v_capacity v) = (slots (v_elem_size v) (v_data v) (v_capacity v))[i := x]"
    using vec_write_slot [OF inv i lx x [symmetric] src] by blast
  have "slots (v_elem_size v) d (v_capacity v) =
        insert_list (v_elem_size v) (vec_list v) i x @ replicate (v_capacity v - max (v_size v) (i + 1)) (zero_elem (v_elem_size v))"
    using insert_list_full [OF i sz, of "v_elem_size v" x] d(3) by (simp add: vec_full [OF inv])
  then have "vec_inv (v\<lparr>v_data := d, v_size := max (v_size v) (i + 1)\<rparr>) \<and>
           vec_list (v\<lparr>v_data := d, v_size := max (v_size v) (i + 1)\<rparr>) = insert_list (v_elem_size v) (vec_list v) i x"
    using inv d(2) i sz by (intro vec_invI) (simp_all add: vec_inv_def length_insert_list)
  with d(1) show ?thesis by blast
qed

lemma vec_room:
  assumes m: "malloc_ok malloc" and inv: "vec_inv v"
  shows "\<exists>ok v1. (if v_capacity v \<le> i then vec_reserve malloc (Some v) (i + 1) else Some (True, Some v)) = Some (ok, Some v1) \<and>
           vec_inv v1 \<and> vec_list v1 = vec_list v \<and> v_elem_size v1 = v_elem_size v \<and> v_size v1 = v_size v \<and>
           (if ok then i < v_capacity v1 else v1 = v) \<and> (i < v_capacity v \<longrightarrow> ok)"
proof (cases "v_capacity v \<le> i")
  case True
  obtain ok v1 where r: "vec_reserve malloc (Some v) (i + 1) = Some (ok, Some v1)" "vec_inv v1" "vec_list v1 = vec_list v"
    "v_elem_size v1 = v_elem_size v" "v_size v1 = v_size v" "if ok then i + 1 \<le> v_capacity v1 else v1 = v"
    using vec_reserve_spec [OF m inv, of "i + 1"] by blast
  have "if ok then i < v_capacity v1 else v1 = v" using r(6) by (cases ok) simp_all
  then show ?thesis using True r(1-5) by (intro exI [of _ ok] exI [of _ v1]) simp
next
  case False
  then show ?thesis using inv by auto
qed

lemma vec_insert_spec:
  assumes m: "malloc_ok malloc" and inv: "vec_inv v" and src: "at + v_elem_size v \<le> length src"
    and x: "x = take (v_elem_size v) (drop at src)"
  shows "\<exists>ok v'. vec_insert malloc (Some v) i (Some (src, at)) = Some (ok, Some v') \<and> vec_inv v' \<and>
           v_elem_size v' = v_elem_size v \<and>
           vec_list v' = (if ok then insert_list (v_elem_size v) (vec_list v) i x else vec_list v) \<and>
           (i < v_capacity v \<and> i \<noteq> SIZE_MAX \<longrightarrow> ok)"
proof (cases "i = SIZE_MAX")
  case True
  then show ?thesis using inv by (auto simp: vec_insert_def)
next
  case False
  obtain ok v1 where r: "(if v_capacity v \<le> i then vec_reserve malloc (Some v) (i + 1) else Some (True, Some v)) = Some (ok, Some v1)"
    "vec_inv v1" "vec_list v1 = vec_list v" "v_elem_size v1 = v_elem_size v" "v_size v1 = v_size v"
    "if ok then i < v_capacity v1 else v1 = v" "i < v_capacity v \<longrightarrow> ok"
    using vec_room [OF m inv, of i] by blast
  show ?thesis
  proof (cases ok)
    case True
    then obtain d where "memcpy (v_data v1) (sz_mul i (v_elem_size v1)) src at (v_elem_size v1) = Some d"
      "vec_inv (v1\<lparr>v_data := d, v_size := max (v_size v1) (i + 1)\<rparr>)"
      "vec_list (v1\<lparr>v_data := d, v_size := max (v_size v1) (i + 1)\<rparr>) = insert_list (v_elem_size v1) (vec_list v1) i x"
      using vec_place_spec [OF r(2), of i at src x] r(4,6) src x by auto
    then show ?thesis using r True False by (intro exI [of _ True]) (simp add: vec_insert_def)
  next
    case no: False
    then show ?thesis using r False by (intro exI [of _ False]) (simp add: vec_insert_def)
  qed
qed

lemma vec_push_spec:
  assumes m: "malloc_ok malloc" and inv: "vec_inv v" and src: "at + v_elem_size v \<le> length src"
    and x: "x = take (v_elem_size v) (drop at src)"
  shows "\<exists>ok v'. vec_push malloc (Some v) (Some (src, at)) = Some (ok, Some v') \<and> vec_inv v' \<and>
           v_elem_size v' = v_elem_size v \<and> vec_list v' = (if ok then vec_list v @ [x] else vec_list v)"
proof (cases "v_size v = SIZE_MAX")
  case True
  then show ?thesis using inv by (auto simp: vec_push_def)
next
  case False
  let ?n = "v_size v"
  obtain ok v1 where r: "(if v_capacity v \<le> ?n then vec_reserve malloc (Some v) (?n + 1) else Some (True, Some v)) = Some (ok, Some v1)"
    "vec_inv v1" "vec_list v1 = vec_list v" "v_elem_size v1 = v_elem_size v" "v_size v1 = ?n"
    "if ok then ?n < v_capacity v1 else v1 = v"
    using vec_room [OF m inv, of ?n] by blast
  show ?thesis
  proof (cases ok)
    case True
    then obtain d where "memcpy (v_data v1) (sz_mul ?n (v_elem_size v1)) src at (v_elem_size v1) = Some d"
      "vec_inv (v1\<lparr>v_data := d, v_size := ?n + 1\<rparr>)"
      "vec_list (v1\<lparr>v_data := d, v_size := ?n + 1\<rparr>) = insert_list (v_elem_size v1) (vec_list v1) ?n x"
      using vec_place_spec [OF r(2), of ?n at src x] r(4,5,6) src x by auto
    then show ?thesis using r True False by (intro exI [of _ True]) (simp add: vec_push_def insert_list_def)
  next
    case no: False
    then show ?thesis using r False by (intro exI [of _ False]) (simp add: vec_push_def)
  qed
qed

lemma vec_push_loop_spec:
  assumes "malloc_ok malloc" "vec_inv v" "i \<le> len" "len * v_elem_size v \<le> length xs" "length xs \<le> SIZE_MAX"
  shows "\<exists>ok k v'. vec_push_loop malloc v xs i len = Some (ok, Some v') \<and> vec_inv v' \<and>
           v_elem_size v' = v_elem_size v \<and> k \<le> len - i \<and> (ok \<longleftrightarrow> k = len - i) \<and>
           vec_list v' = vec_list v @ take k (drop i (slots (v_elem_size v) xs len))"
  using assms
proof (induction malloc v xs i len rule: vec_push_loop.induct)
  case (1 malloc v xs i len)
  show ?case
  proof (cases "i < len")
    case False
    then show ?thesis using 1(3,4) by (subst vec_push_loop.simps) auto
  next
    case True
    let ?es = "v_elem_size v"
    have le: "i * ?es + ?es \<le> length xs" using slot_end [OF True 1(5)] .
    then have w: "sz_mul i ?es = i * ?es" using 1(6) by (intro sz_mul_exact) linarith
    obtain ok v1 where r: "vec_push malloc (Some v) (Some (xs, i * ?es)) = Some (ok, Some v1)" "vec_inv v1"
      "v_elem_size v1 = ?es" "vec_list v1 = (if ok then vec_list v @ [slot ?es xs i] else vec_list v)"
      using vec_push_spec [OF 1(2,3) le refl] by (auto simp: slot_def)
    show ?thesis
    proof (cases ok)
      case no: False
      then have "vec_push_loop malloc v xs i len = Some (False, Some v1)"
        using True w r(1) by (subst vec_push_loop.simps) simp
      then show ?thesis using r no True by (intro exI [of _ False] exI [of _ 0]) auto
    next
      case ok: True
      obtain ok' k v2 where r2: "vec_push_loop malloc v1 xs (i + 1) len = Some (ok', Some v2)" "vec_inv v2"
        "v_elem_size v2 = ?es" "k \<le> len - (i + 1)" "ok' \<longleftrightarrow> k = len - (i + 1)"
        "vec_list v2 = vec_list v1 @ take k (drop (i + 1) (slots ?es xs len))"
        using 1(1) [OF True r(1)[folded w] refl _ refl 1(2) r(2)] ok r(3) 1(5,6) True by auto
      have "drop i (slots ?es xs len) = slot ?es xs i # drop (i + 1) (slots ?es xs len)"
        using True Cons_nth_drop_Suc [of i "slots ?es xs len"] by simp
      then have "vec_list v2 = vec_list v @ take (Suc k) (drop i (slots ?es xs len))"
        using r2(6) r(4) ok by simp
      moreover have "vec_push_loop malloc v xs i len = Some (ok', Some v2)"
        using True w r(1) ok r2(1) by (subst vec_push_loop.simps) simp
      moreover have "Suc k \<le> len - i" "ok' \<longleftrightarrow> Suc k = len - i" using r2(4,5) True by auto
      ultimately show ?thesis using r2(2,3) by blast
    qed
  qed
qed

text \<open>Clearing one slot and removing an element.\<close>

lemma vec_shrink_spec:
  assumes inv: "vec_inv v" and ne: "0 < v_size v" and d: "length d = length (v_data v)"
    and L: "slots (v_elem_size v) d (v_capacity v) = L @ y # replicate (v_capacity v - v_size v) (zero_elem (v_elem_size v))"
      "length L = v_size v - 1"
  shows "\<exists>d'. memset d (sz_mul (v_size v - 1) (v_elem_size v)) 0 (v_elem_size v) = Some d' \<and>
           vec_inv (v\<lparr>v_data := d', v_size := v_size v - 1\<rparr>) \<and> vec_list (v\<lparr>v_data := d', v_size := v_size v - 1\<rparr>) = L"
proof -
  let ?es = "v_elem_size v" and ?n = "v_size v - 1" and ?c = "v_capacity v"
  have n: "?n < ?c" "Suc ?n = v_size v" using inv ne by (auto simp: vec_inv_def)
  have ld: "?c * ?es \<le> length d" using inv d by (simp add: vec_inv_def)
  let ?d = "put_slot ?es d ?n (zero_elem ?es)"
  have "memset d (?n * ?es) 0 ?es = Some ?d"
    using slot_end [OF n(1) ld] by (simp add: memset_ok put_slot_def)
  then have st: "memset d (sz_mul ?n ?es) 0 ?es = Some ?d" using vec_no_wrap [OF inv, of ?n] n by simp
  have "slots ?es ?d ?c = (slots ?es d ?c)[?n := zero_elem ?es]"
    using slots_put_slot [OF n(1) ld] by simp
  also have "\<dots> = L @ zero_elem ?es # replicate (?c - v_size v) (zero_elem ?es)"
    by (simp add: L list_update_append)
  also have "\<dots> = L @ replicate (?c - ?n) (zero_elem ?es)"
    using n by (simp add: Suc_diff_Suc flip: replicate_Suc)
  finally have "slots ?es ?d ?c = L @ replicate (?c - ?n) (zero_elem ?es)" .
  moreover have "length ?d = length (v_data v)" using length_put_slot [OF n(1) ld] d by simp
  ultimately have "vec_inv (v\<lparr>v_data := ?d, v_size := ?n\<rparr>) \<and> vec_list (v\<lparr>v_data := ?d, v_size := ?n\<rparr>) = L"
    using inv L(2) n by (intro vec_invI) (simp_all add: vec_inv_def)
  with st show ?thesis by blast
qed

lemma vec_list_split_last:
  assumes "0 < v_size v"
  shows "vec_list v = butlast (vec_list v) @ [last (vec_list v)]" "length (butlast (vec_list v)) = v_size v - 1"
    "last (vec_list v) = vec_list v ! (v_size v - 1)"
proof -
  have ne: "vec_list v \<noteq> []" using assms by (metis length_vec_list length_0_conv not_less_zero)
  then show "vec_list v = butlast (vec_list v) @ [last (vec_list v)]" by simp
  show "length (butlast (vec_list v)) = v_size v - 1" by simp
  show "last (vec_list v) = vec_list v ! (v_size v - 1)" using ne by (simp add: last_conv_nth)
qed

lemma vec_pop_spec:
  assumes inv: "vec_inv v" and ne: "0 < v_size v" and dst: "at + v_elem_size v \<le> length dst"
  shows "\<exists>v'. vec_pop (Some v) (Some (dst, at)) =
             Some (True, Some v', Some (take at dst @ last (vec_list v) @ drop (at + v_elem_size v) dst, at)) \<and>
           vec_inv v' \<and> v_elem_size v' = v_elem_size v \<and> vec_list v' = butlast (vec_list v)"
proof -
  note l = vec_list_split_last [OF ne]
  have "slots (v_elem_size v) (v_data v) (v_capacity v) =
        butlast (vec_list v) @ last (vec_list v) # replicate (v_capacity v - v_size v) (zero_elem (v_elem_size v))"
    using vec_full [OF inv] l(1) by (metis append_Cons append_Nil append_assoc)
  from vec_shrink_spec [OF inv ne refl this l(2)] show ?thesis
    using vec_get_spec [OF inv _ dst, of "v_size v - 1"] ne l(3) by (auto simp: vec_pop_def)
qed

lemma vec_remove_at_spec:
  assumes inv: "vec_inv v" and i: "i < v_size v" and dst: "at + v_elem_size v \<le> length dst"
  shows "\<exists>v'. vec_remove_at (Some v) i (Some (dst, at)) =
             Some (True, Some v', Some (take at dst @ vec_list v ! i @ drop (at + v_elem_size v) dst, at)) \<and>
           vec_inv v' \<and> v_elem_size v' = v_elem_size v \<and> vec_list v' = take i (vec_list v) @ drop (i + 1) (vec_list v)"
proof -
  let ?es = "v_elem_size v" and ?c = "v_capacity v" and ?xs = "vec_list v" and ?n = "v_size v - i - 1"
  let ?Z = "replicate (?c - v_size v) (zero_elem ?es)"
  have c: "v_size v \<le> ?c" "length (v_data v) = ?c * ?es" using inv by (auto simp: vec_inv_def)
  have out: "memcpy dst at (v_data v) (i * ?es) ?es = Some (take at dst @ ?xs ! i @ drop (at + ?es) dst)"
    using vec_at_spec [OF inv i] dst by (simp add: memcpy_ok)
  obtain ys y where ys: "?xs = ys @ [y]" "length ys = v_size v - 1"
    using vec_list_split_last [of v] i by auto
  obtain d where d: "(if i + 1 < v_size v then memmove (v_data v) (i * ?es) (i * ?es + ?es) (?n * ?es) else Some (v_data v)) = Some d"
    "length d = length (v_data v)" "slots ?es d ?c = (take i ?xs @ drop (i + 1) ?xs) @ y # ?Z"
  proof (cases "i + 1 < v_size v")
    case True
    have "i + ?n \<le> ?c" "(i + 1) + ?n \<le> ?c" using c(1) i by simp_all
    from memmove_slots [OF this c(2)] obtain d where
      d: "memmove (v_data v) (i * ?es) ((i + 1) * ?es) (?n * ?es) = Some d" "length d = length (v_data v)"
      "slots ?es d ?c = take i (?xs @ ?Z) @ take ?n (drop (i + 1) (?xs @ ?Z)) @ drop (i + ?n) (?xs @ ?Z)"
      using vec_full [OF inv] by auto
    have "take i (?xs @ ?Z) = take i ?xs" "take ?n (drop (i + 1) (?xs @ ?Z)) = drop (i + 1) ?xs" "drop (i + ?n) (?xs @ ?Z) = y # ?Z"
      using i True ys by simp_all
    then show ?thesis using that [of d] d True by (simp add: add.commute)
  next
    case False
    then have "slots ?es (v_data v) ?c = (take i ?xs @ drop (i + 1) ?xs) @ y # ?Z"
      using vec_full [OF inv] ys i by simp
    then show ?thesis using that [of "v_data v"] False by simp
  qed
  have ne: "0 < v_size v" using i by simp
  have "length (take i ?xs @ drop (i + 1) ?xs) = v_size v - 1" using i by simp
  from vec_shrink_spec [OF inv ne d(2,3) this] show ?thesis
    using out d(1) i c vec_no_wrap [OF inv, of i] vec_no_wrap [OF inv, of ?n]
    by (auto simp: vec_remove_at_def Let_def)
qed

lemma vec_pop_loop_spec:
  assumes "vec_inv v" "i \<le> len" "k = min (len - i) (v_size v)" "at + k * v_elem_size v \<le> length dst"
  shows "\<exists>v'. vec_pop_loop v (Some (dst, at)) i len =
             Some (i + k, Some v', Some (take at dst @ concat (take k (rev (vec_list v))) @ drop (at + k * v_elem_size v) dst,
                                         at + k * v_elem_size v)) \<and>
           vec_inv v' \<and> v_elem_size v' = v_elem_size v \<and> vec_list v' = take (v_size v - k) (vec_list v)"
  using assms
proof (induction k arbitrary: v i dst at)
  case 0
  then have "len = i \<or> i < len \<and> v_size v = 0" by linarith
  then show ?case using 0 by (subst vec_pop_loop.simps) (auto simp: vec_pop_def)
next
  case (Suc k)
  let ?es = "v_elem_size v"
  have i: "i < len" and ne: "0 < v_size v" using Suc.prems(3) by linarith+
  have at: "at + ?es \<le> length dst" "at + ?es + k * ?es \<le> length dst" using Suc.prems(4) by simp_all
  let ?d = "take at dst @ last (vec_list v) @ drop (at + ?es) dst"
  obtain v1 where v1: "vec_pop (Some v) (Some (dst, at)) = Some (True, Some v1, Some (?d, at))" "vec_inv v1"
    "v_elem_size v1 = ?es" "vec_list v1 = butlast (vec_list v)"
    using vec_pop_spec [OF Suc.prems(1) ne at(1)] by blast
  have n1: "v_size v1 = v_size v - 1" using arg_cong [OF v1(4), of length] by simp
  have ll: "length (last (vec_list v)) = ?es"
    using vec_list_split_last(3) [OF ne] vec_at_spec [OF Suc.prems(1), of "v_size v - 1"] ne
    by (metis length_take length_drop min.absorb2 diff_less zero_less_one add_le_imp_le_diff add.commute)
  have ld: "length ?d = length dst" using at(1) ll by simp
  have i1: "i + 1 \<le> len" and k1: "k = min (len - (i + 1)) (v_size v1)"
    and at1: "at + ?es + k * v_elem_size v1 \<le> length ?d"
    using i Suc.prems(3) n1 v1(3) at(2) ld by simp_all
  obtain v2 where v2: "vec_pop_loop v1 (Some (?d, at + ?es)) (i + 1) len =
      Some (i + 1 + k, Some v2, Some (take (at + ?es) ?d @ concat (take k (rev (vec_list v1))) @ drop (at + ?es + k * ?es) ?d,
                                      at + ?es + k * ?es))"
    "vec_inv v2" "v_elem_size v2 = ?es" "vec_list v2 = take (v_size v1 - k) (vec_list v1)"
    using Suc.IH [OF v1(2) i1 k1 at1] unfolding v1(3) by blast
  have dd: "take (at + ?es) ?d = take at dst @ last (vec_list v)" "drop (at + ?es + k * ?es) ?d = drop (at + ?es + k * ?es) dst"
    using at ll by (simp_all add: ac_simps)
  have rv: "rev (vec_list v) = last (vec_list v) # rev (vec_list v1)"
    by (subst vec_list_split_last(1) [OF ne]) (simp add: v1(4))
  have "take (v_size v1 - k) (vec_list v1) = take (v_size v - Suc k) (vec_list v)"
    using v1(4) n1 ne by (simp add: take_butlast)
  moreover have "vec_pop_loop v1 (Some (?d, at + ?es)) (i + 1) len =
      Some (i + Suc k, Some v2, Some (take at dst @ concat (take (Suc k) (rev (vec_list v))) @ drop (at + Suc k * ?es) dst,
                                      at + Suc k * ?es))"
    using v2(1) unfolding dd rv by (simp add: add.assoc)
  ultimately show ?case
    using v1(1,3) v2(2-4) i by (subst vec_pop_loop.simps) simp
qed

lemma vec_resize_spec:
  assumes m: "malloc_ok malloc" and inv: "vec_inv v"
  shows "\<exists>ok v'. vec_resize malloc (Some v) n = Some (ok, Some v') \<and> vec_inv v' \<and> v_elem_size v' = v_elem_size v \<and>
           vec_list v' = (if ok then take n (vec_list v) @ replicate (n - v_size v) (zero_elem (v_elem_size v)) else vec_list v) \<and>
           (n \<le> v_capacity v \<longrightarrow> ok)"
proof -
  let ?es = "v_elem_size v"
  have es: "0 < ?es" "v_capacity v * ?es \<le> SIZE_MAX" using inv by (auto simp: vec_inv_def)
  show ?thesis
  proof (cases "SIZE_MAX div ?es < n")
    case True
    have "v_capacity v \<le> SIZE_MAX div ?es" using es by (simp add: less_eq_div_iff_mult_less_eq)
    then show ?thesis using True inv by (intro exI [of _ False]) (simp add: vec_resize_def)
  next
    case False
    obtain ok v1 where r: "(if v_capacity v < n then vec_reserve malloc (Some v) n else Some (True, Some v)) = Some (ok, Some v1)"
      "vec_inv v1" "vec_list v1 = vec_list v" "v_elem_size v1 = ?es" "v_size v1 = v_size v"
      "if ok then n \<le> v_capacity v1 else v1 = v" "n \<le> v_capacity v \<longrightarrow> ok"
    proof (cases "v_capacity v < n")
      case True
      then show ?thesis using that vec_reserve_spec [OF m inv, of n] by auto
    next
      case False
      then show ?thesis using that [of True v] inv by simp
    qed
    show ?thesis
    proof (cases ok)
      case no: False
      then show ?thesis using r False es by (intro exI [of _ False]) (simp add: vec_resize_def)
    next
      case True
      let ?c = "v_capacity v1" and ?s = "v_size v"
      have c: "n \<le> ?c" "?s \<le> ?c" "length (v_data v1) = ?c * ?es" using r True by (auto simp: vec_inv_def)
      have full: "slots ?es (v_data v1) ?c = vec_list v @ replicate (?c - ?s) (zero_elem ?es)"
        using vec_full [OF r(2)] r by simp
      define lo cnt where "lo = min n ?s" and "cnt = (if ?s < n then n - ?s else ?s - n)"
      have lc: "lo + cnt \<le> ?c" using c by (auto simp: lo_def cnt_def)
      obtain d where d: "memset (v_data v1) (lo * ?es) 0 (cnt * ?es) = Some d" "length d = length (v_data v1)"
        "slots ?es d ?c = take lo (slots ?es (v_data v1) ?c) @ replicate cnt (zero_elem ?es) @ drop (lo + cnt) (slots ?es (v_data v1) ?c)"
        using memset_slots [OF lc c(3)] by blast
      have body: "(if ?s < n then memset (v_data v1) (sz_mul ?s ?es) 0 (sz_mul (n - ?s) ?es)
                   else if n < ?s then memset (v_data v1) (sz_mul n ?es) 0 (sz_mul (?s - n) ?es)
                   else Some (v_data v1)) = Some d"
        using d(1) c vec_no_wrap [OF r(2)] r(4) by (auto simp: lo_def cnt_def memset_ok)
      let ?v = "v1\<lparr>v_data := d, v_size := n\<rparr>" and ?L = "take n (vec_list v) @ replicate (n - ?s) (zero_elem ?es)"
      have "slots ?es d ?c = ?L @ replicate (?c - n) (zero_elem ?es)"
        unfolding d(3) full using c
        by (cases "?s < n") (simp_all add: lo_def cnt_def min_def replicate_add [symmetric])
      then have "vec_inv ?v \<and> vec_list ?v = ?L"
        using r(2,4) d(2) c by (intro vec_invI) (simp_all add: vec_inv_def)
      moreover have "vec_resize malloc (Some v) n = Some (True, Some ?v)"
        using r(1) True False es(1) body [folded r(4,5)]
        by (simp add: vec_resize_def split del: if_split)
      ultimately show ?thesis using r(4) by (intro exI [of _ True] exI [of _ ?v]) simp
    qed
  qed
qed

lemma vec_clear_spec:
  assumes inv: "vec_inv v"
  shows "\<exists>v'. vec_clear (Some v) = Some (True, Some v') \<and> vec_inv v' \<and> v_elem_size v' = v_elem_size v \<and> vec_list v' = []"
proof -
  let ?es = "v_elem_size v" and ?c = "v_capacity v"
  have c: "0 + v_size v \<le> ?c" "length (v_data v) = ?c * ?es" using inv by (auto simp: vec_inv_def)
  obtain d where d: "memset (v_data v) 0 0 (v_size v * ?es) = Some d" "length d = length (v_data v)"
    "slots ?es d ?c = replicate (v_size v) (zero_elem ?es) @ drop (v_size v) (slots ?es (v_data v) ?c)"
    using memset_slots [OF c, of 0] by auto
  have "slots ?es d ?c = replicate ?c (zero_elem ?es)"
    unfolding d(3) vec_full [OF inv] using c by (simp add: replicate_add [symmetric])
  then have "vec_inv (v\<lparr>v_data := d, v_size := 0\<rparr>) \<and> vec_list (v\<lparr>v_data := d, v_size := 0\<rparr>) = []"
    using inv d(2) by (intro vec_invI) (simp_all add: vec_inv_def)
  then show ?thesis using d(1) c vec_no_wrap [OF inv, of "v_size v"] by (simp add: vec_clear_def)
qed

text \<open>Exchanging two elements byte by byte.\<close>

lemma memswap_spec:
  assumes "a + len \<le> length d" "b + len \<le> length d" "a = b \<or> a + len \<le> b \<or> b + len \<le> a" "i \<le> len"
  shows "\<exists>d'. memswap d a b i len = Some d' \<and> length d' = length d \<and>
           (\<forall>k < length d. d' ! k = (if a + i \<le> k \<and> k < a + len then d ! (b + (k - a))
              else if b + i \<le> k \<and> k < b + len then d ! (a + (k - b)) else d ! k))"
  using assms
proof (induction d a b i len rule: memswap.induct)
  case (1 d a b i len)
  show ?case
  proof (cases "i < len")
    case False
    then show ?thesis using 1(5) by (subst memswap.simps) auto
  next
    case True
    let ?x = "d ! (a + i)" and ?y = "d ! (b + i)"
    let ?d = "(d[a + i := ?y])[b + i := ?x]"
    have b: "a + i < length d" "b + i < length d" using True 1(2,3) by auto
    have ld: "load d (a + i) = Some ?x" "load d (b + i) = Some ?y" using b by (simp_all add: load_ok)
    have st: "store d (a + i) ?y = Some (d[a + i := ?y])" "store (d[a + i := ?y]) (b + i) ?x = Some ?d"
      using b by (simp_all add: store_ok)
    obtain d' where d': "memswap ?d a b (i + 1) len = Some d'" "length d' = length d"
      "\<forall>k < length d. d' ! k = (if a + (i + 1) \<le> k \<and> k < a + len then ?d ! (b + (k - a))
              else if b + (i + 1) \<le> k \<and> k < b + len then ?d ! (a + (k - b)) else ?d ! k)"
      using 1(1) [OF True ld st] 1(2,3,4) True by auto
    have "d' ! k = (if a + i \<le> k \<and> k < a + len then d ! (b + (k - a))
              else if b + i \<le> k \<and> k < b + len then d ! (a + (k - b)) else d ! k)" if k: "k < length d" for k
    proof -
      have e: "?d ! m = (if m = b + i then ?x else if m = a + i then ?y else d ! m)" if "m < length d" for m
        using that by (simp add: nth_list_update)
      have ix: "k < a + len \<Longrightarrow> b + (k - a) < length d" "k < b + len \<Longrightarrow> a + (k - b) < length d"
        using 1(2,3) True by linarith+
      consider "k = a + i" | "k = b + i" "a \<noteq> b" | "k \<noteq> a + i" "k \<noteq> b + i" by fastforce
      then show ?thesis
      proof cases
        case 1
        then show ?thesis using d'(3) k e [OF k] True 1(1) \<open>a = b \<or> a + len \<le> b \<or> b + len \<le> a\<close> by auto
      next
        case 2
        then show ?thesis using d'(3) k e [OF k] True \<open>a = b \<or> a + len \<le> b \<or> b + len \<le> a\<close> by auto
      next
        case 3
        then have "a + (i + 1) \<le> k \<longleftrightarrow> a + i \<le> k" "b + (i + 1) \<le> k \<longleftrightarrow> b + i \<le> k" by auto
        moreover have "?d ! (b + (k - a)) = d ! (b + (k - a))" if "a + i \<le> k" "k < a + len"
          using e [OF ix(1)] that 3 \<open>a = b \<or> a + len \<le> b \<or> b + len \<le> a\<close> by auto
        moreover have "?d ! (a + (k - b)) = d ! (a + (k - b))" if "b + i \<le> k" "k < b + len"
          using e [OF ix(2)] that 3 \<open>a = b \<or> a + len \<le> b \<or> b + len \<le> a\<close> by auto
        moreover have "?d ! k = d ! k" using e [OF k] 3 by simp
        ultimately show ?thesis using d'(3) k by simp
      qed
    qed
    moreover have "memswap d a b i len = Some d'"
      using True ld st d'(1) by (subst memswap.simps) simp
    ultimately show ?thesis using d'(2) by blast
  qed
qed

lemma vec_swap_spec:
  assumes inv: "vec_inv v" and i: "i < v_size v" and j: "j < v_size v"
  shows "\<exists>v'. vec_swap (Some v) i j = Some (True, Some v') \<and> vec_inv v' \<and> v_elem_size v' = v_elem_size v \<and>
           vec_list v' = (vec_list v)[i := vec_list v ! j, j := vec_list v ! i]"
proof -
  let ?es = "v_elem_size v" and ?c = "v_capacity v" and ?d = "v_data v"
  have c: "i < ?c" "j < ?c" "?c * ?es \<le> length ?d" using inv i j by (auto simp: vec_inv_def)
  have e: "i * ?es + ?es \<le> length ?d" "j * ?es + ?es \<le> length ?d"
    using slot_end [OF c(1,3)] slot_end [OF c(2,3)] by simp_all
  have "i * ?es = j * ?es \<or> i * ?es + ?es \<le> j * ?es \<or> j * ?es + ?es \<le> i * ?es"
    by (metis Suc_leI add.commute linorder_neqE_nat mult_Suc mult_le_mono1)
  from memswap_spec [OF e this le0] obtain d' where d': "memswap ?d (i * ?es) (j * ?es) 0 ?es = Some d'" "length d' = length ?d"
    and nth: "\<And>k. k < length ?d \<Longrightarrow> d' ! k = (if i * ?es \<le> k \<and> k < i * ?es + ?es then ?d ! (j * ?es + (k - i * ?es))
              else if j * ?es \<le> k \<and> k < j * ?es + ?es then ?d ! (i * ?es + (k - j * ?es)) else ?d ! k)"
    by auto
  let ?p = "put_slot ?es ?d j (slot ?es ?d i)"
  have ls: "length (slot ?es ?d i) = ?es" "length (slot ?es ?d j) = ?es" using c by (metis length_slot)+
  have lp: "length ?p = length ?d" "?c * ?es \<le> length ?p" using length_put_slot [OF c(2,3) ls(1)] c(3) by simp_all
  have "d' = put_slot ?es ?p i (slot ?es ?d j)"
  proof (rule nth_equalityI)
    show "length d' = length (put_slot ?es ?p i (slot ?es ?d j))"
      using length_put_slot [OF c(1) lp(2) ls(2)] lp(1) d'(2) by simp
    fix k assume "k < length d'"
    then have k: "k < length ?d" using d'(2) by simp
    have p: "?p ! k = (if j * ?es \<le> k \<and> k < j * ?es + ?es then slot ?es ?d i ! (k - j * ?es) else ?d ! k)"
      unfolding put_slot_def using k e ls by (subst splice_nth) simp_all
    have "put_slot ?es ?p i (slot ?es ?d j) ! k =
        (if i * ?es \<le> k \<and> k < i * ?es + ?es then slot ?es ?d j ! (k - i * ?es) else ?p ! k)"
      unfolding put_slot_def [of ?es ?p] using k e ls lp by (subst splice_nth) simp_all
    then show "d' ! k = put_slot ?es ?p i (slot ?es ?d j) ! k"
      unfolding p nth [OF k] using e by (auto simp: slot_def)
  qed
  then have "slots ?es d' ?c = (slots ?es ?d ?c)[j := slot ?es ?d i, i := slot ?es ?d j]"
    using slots_put_slot [OF c(1) lp(2) ls(2)] slots_put_slot [OF c(2,3) ls(1)] by simp
  also have "\<dots> = (vec_list v)[j := slot ?es ?d i, i := slot ?es ?d j] @ replicate (?c - v_size v) (zero_elem ?es)"
    using i j by (simp add: vec_full [OF inv] list_update_append)
  also have "(vec_list v)[j := slot ?es ?d i, i := slot ?es ?d j] = (vec_list v)[i := vec_list v ! j, j := vec_list v ! i]"
    using i j by (cases "i = j") (simp_all add: vec_list_def list_update_swap)
  finally have "vec_inv (v\<lparr>v_data := d'\<rparr>) \<and> vec_list (v\<lparr>v_data := d'\<rparr>) = (vec_list v)[i := vec_list v ! j, j := vec_list v ! i]"
    using inv d'(2) by (intro vec_invI) (simp_all add: vec_inv_def)
  then show ?thesis
    using vec_at_spec(1) [OF inv i] vec_at_spec(1) [OF inv j] d'(1) by (simp add: vec_swap_def)
qed

lemma vec_clone_spec:
  assumes m: "malloc_ok malloc" and inv: "vec_inv v" and r: "vec_clone node_ok malloc (Some v) = Some (Some w)"
  shows "w = v"
proof -
  obtain child where child: "vec_create_sized node_ok malloc (v_capacity v) (v_elem_size v) = Some child"
    using r by (auto simp: vec_clone_def split: option.splits)
  note s = vec_create_sized_spec [OF m child]
  have l: "length (v_data child) = length (v_data v)" using s inv by (simp add: vec_inv_def)
  have "sz_mul (v_elem_size v) (v_capacity v) = length (v_data v)"
    using inv by (simp add: vec_inv_def sz_mul_exact mult.commute)
  then have "memcpy (v_data child) 0 (v_data v) 0 (sz_mul (v_elem_size v) (v_capacity v)) = Some (v_data v)"
    using l by (simp add: memcpy_ok)
  then have "w = child\<lparr>v_data := v_data v, v_size := v_size v\<rparr>"
    using r child by (simp add: vec_clone_def)
  then show ?thesis using s(3,4) by simp
qed


section \<open>Properties\<close>

text \<open>
  Clients as sequences of calls: what a call does to the list of elements when it returns true,
  and whether it must, must not or may succeed (when it has to allocate).
\<close>

datatype vec_op = VPush "u8 list" | VPop | VSet nat "u8 list" | VInsert nat "u8 list" | VRemove nat
  | VResize nat | VClear | VSwap nat nat | VReserve nat

fun vec_op_ok :: "nat \<Rightarrow> vec_op \<Rightarrow> bool" where
  "vec_op_ok es (VPush x) = (length x = es)"
| "vec_op_ok es (VSet i x) = (length x = es)"
| "vec_op_ok es (VInsert i x) = (length x = es)"
| "vec_op_ok es _ = True"

fun vec_step :: "(size_t \<Rightarrow> u8 list ptr) \<Rightarrow> vector ptr \<Rightarrow> vec_op \<Rightarrow> (bool \<times> vector ptr) exec" where
  "vec_step malloc v (VPush x) = vec_push malloc v (Some (x, 0))"
| "vec_step malloc v VPop = do { (ok, v, _) \<leftarrow> vec_pop v None; Some (ok, v) }"
| "vec_step malloc v (VSet i x) = do { (p, v) \<leftarrow> vec_set v i (Some (x, 0)); Some (p \<noteq> None, v) }"
| "vec_step malloc v (VInsert i x) = vec_insert malloc v i (Some (x, 0))"
| "vec_step malloc v (VRemove i) = do { (ok, v, _) \<leftarrow> vec_remove_at v i None; Some (ok, v) }"
| "vec_step malloc v (VResize n) = vec_resize malloc v n"
| "vec_step malloc v VClear = vec_clear v"
| "vec_step malloc v (VSwap i j) = vec_swap v i j"
| "vec_step malloc v (VReserve n) = vec_reserve malloc v n"

fun list_step :: "nat \<Rightarrow> vec_op \<Rightarrow> u8 list list \<Rightarrow> u8 list list" where
  "list_step es (VPush x) xs = xs @ [x]"
| "list_step es VPop xs = butlast xs"
| "list_step es (VSet i x) xs = xs[i := x]"
| "list_step es (VInsert i x) xs = insert_list es xs i x"
| "list_step es (VRemove i) xs = take i xs @ drop (i + 1) xs"
| "list_step es (VResize n) xs = take n xs @ replicate (n - length xs) (zero_elem es)"
| "list_step es VClear xs = []"
| "list_step es (VSwap i j) xs = xs[i := xs ! j, j := xs ! i]"
| "list_step es (VReserve n) xs = xs"

fun list_step_ok :: "vec_op \<Rightarrow> u8 list list \<Rightarrow> bool option" where
  "list_step_ok VPop xs = Some (xs \<noteq> [])"
| "list_step_ok (VSet i x) xs = Some (i < length xs)"
| "list_step_ok (VRemove i) xs = Some (i < length xs)"
| "list_step_ok VClear xs = Some True"
| "list_step_ok (VSwap i j) xs = Some (i < length xs \<and> j < length xs)"
| "list_step_ok _ xs = None"

lemma vec_list_Nil_iff [simp]: "vec_list v = [] \<longleftrightarrow> v_size v = 0"
  by (metis length_vec_list length_0_conv)

text \<open>Popping and removing without a destination do what they do with one.\<close>

lemma vec_pop_null:
  "vec_pop (Some v) (Some (dst, at)) = Some (ok, v', out) \<Longrightarrow> vec_pop (Some v) None = Some (ok, v', None)"
  by (auto simp: vec_pop_def bind_eq_Some_iff split: if_splits)

lemma vec_remove_at_null:
  "vec_remove_at (Some v) i (Some (dst, at)) = Some (ok, v', out) \<Longrightarrow> vec_remove_at (Some v) i None = Some (ok, v', None)"
  by (auto simp: vec_remove_at_def Let_def bind_eq_Some_iff split: if_splits)

lemma vec_step_refines:
  assumes m: "malloc_ok malloc" and inv: "vec_inv v" and op: "vec_op_ok (v_elem_size v) op"
  shows "\<exists>ok v'. vec_step malloc (Some v) op = Some (ok, Some v') \<and> vec_inv v' \<and> v_elem_size v' = v_elem_size v \<and>
           vec_list v' = (if ok then list_step (v_elem_size v) op (vec_list v) else vec_list v) \<and>
           (\<forall>b. list_step_ok op (vec_list v) = Some b \<longrightarrow> ok = b)"
proof (cases op)
  case (VPush x)
  then show ?thesis using vec_push_spec [OF m inv, of 0 x x] op by auto
next
  case VPop
  show ?thesis
  proof (cases "v_size v = 0")
    case True
    then show ?thesis using inv VPop by (auto simp: vec_pop_def)
  next
    case False
    then show ?thesis
      using vec_pop_spec [OF inv, of 0 "replicate (v_elem_size v) 0"] VPop vec_pop_null by (fastforce simp: bind_eq_Some_iff)
  qed
next
  case (VSet i x)
  show ?thesis
  proof (cases "i < v_size v")
    case True
    then show ?thesis using vec_set_spec [OF inv True, of 0 x x] op VSet by auto
  next
    case False
    then show ?thesis using inv VSet by (auto simp: vec_set_def)
  qed
next
  case (VInsert i x)
  then show ?thesis using vec_insert_spec [OF m inv, of 0 x x i] op by auto
next
  case (VRemove i)
  show ?thesis
  proof (cases "i < v_size v")
    case True
    then show ?thesis
      using vec_remove_at_spec [OF inv True, of 0 "replicate (v_elem_size v) 0"] VRemove vec_remove_at_null
      by (fastforce simp: bind_eq_Some_iff)
  next
    case False
    then show ?thesis using inv VRemove by (auto simp: vec_remove_at_def)
  qed
next
  case (VResize n)
  then show ?thesis using vec_resize_spec [OF m inv, of n] by auto
next
  case VClear
  then show ?thesis using vec_clear_spec [OF inv] by auto
next
  case (VSwap i j)
  show ?thesis
  proof (cases "i < v_size v \<and> j < v_size v")
    case True
    then show ?thesis using vec_swap_spec [OF inv, of i j] VSwap by auto
  next
    case False
    then show ?thesis using inv VSwap by (auto simp: vec_swap_def vec_at_def split: option.splits)
  qed
next
  case (VReserve n)
  then show ?thesis using vec_reserve_spec [OF m inv, of n] by auto
qed

fun vec_run :: "(size_t \<Rightarrow> u8 list ptr) \<Rightarrow> vector ptr \<Rightarrow> vec_op list \<Rightarrow> (bool list \<times> vector ptr) exec" where
  "vec_run malloc v [] = Some ([], v)"
| "vec_run malloc v (op # ops) =
     do { (ok, v) \<leftarrow> vec_step malloc v op; (oks, v) \<leftarrow> vec_run malloc v ops; Some (ok # oks, v) }"

definition list_run :: "nat \<Rightarrow> (bool \<times> vec_op) list \<Rightarrow> u8 list list \<Rightarrow> u8 list list" where
  "list_run es = fold (\<lambda>(ok, op) xs. if ok then list_step es op xs else xs)"


definition demo_malloc :: "size_t \<Rightarrow> u8 list ptr" where
  "demo_malloc n = (if n \<le> 64 then Some (replicate n 170) else None)"

definition demo_vec :: vector where
  "demo_vec = \<lparr>v_size = 2, v_capacity = 2, v_elem_size = 2, v_data = [1, 2, 3, 4]\<rparr>"

lemma demo_malloc_ok: "malloc_ok demo_malloc"
  by (simp add: malloc_ok_def demo_malloc_def)

lemma demo_vec_inv: "vec_inv demo_vec"
  by (simp add: vec_inv_def demo_vec_def SIZE_MAX_def vec_list_def)


text \<open>
  (C36) \<open>vec_pop_array\<close> returns the number of elements it removed and leaves them in the caller's
  buffer in reverse order of the vector, the last element first; the vector keeps the others.
\<close>

theorem vec_pop_array_reversed:
  assumes "vec_inv v" "min len (v_size v) * v_elem_size v \<le> length dst"
  shows "\<exists>v' at. vec_pop_array (Some v) (Some (dst, 0)) len =
             Some (min len (v_size v), Some v',
                   Some (concat (take len (rev (vec_list v))) @ drop (min len (v_size v) * v_elem_size v) dst, at)) \<and>
           vec_inv v' \<and> vec_list v' = take (v_size v - len) (vec_list v)"
proof (cases "v_size v = 0 \<or> len = 0")
  case True
  then have e: "take len (rev (vec_list v)) = []" "min len (v_size v) = 0" by auto
  have "take (v_size v - len) (vec_list v) = vec_list v" using True by auto
  then show ?thesis
    using assms(1) True by (auto simp: vec_pop_array_def e)
next
  case False
  have "take (min len (v_size v)) (rev (vec_list v)) = take len (rev (vec_list v))"
    "take (v_size v - min len (v_size v)) (vec_list v) = take (v_size v - len) (vec_list v)"
    by (auto simp: min_def)
  then show ?thesis
    using vec_pop_loop_spec [OF assms(1) le0 refl, where len = len and at = 0 and dst = dst] assms(2) False
    by (auto simp: vec_pop_array_def)
qed

theorem vec_pop_array_reversed_witness:
  "vec_inv demo_vec \<and> (\<exists>v' at. vec_pop_array (Some demo_vec) (Some ([0, 0, 0, 0, 9], 0)) 2 = Some (2, Some v', Some ([3, 4, 1, 2, 9], at)))"
proof -
  have "vec_list demo_vec = [[1, 2], [3, 4]]" "v_elem_size demo_vec = 2" "v_size demo_vec = 2" by code_simp+
  then show ?thesis
    using demo_vec_inv vec_pop_array_reversed [OF demo_vec_inv, of 2 "[0, 0, 0, 0, 9]"] by auto
qed



end
