(* ===== verification/Map_Interface.thy ===== *)
theory Map_Interface
  imports Prelude
begin

text \<open>
  The contract of a finite map whose insertion may fail for want of memory, as the integer map and
  the string map promise it, and what a client may conclude: a sequence of calls leaves the map
  that the successful ones describe, and a lookup returns the last value stored under its key.
\<close>

datatype ('k, 'v) mop = MSet 'k 'v | MRemove 'k

fun map_run ::
  "('m \<Rightarrow> 'k \<Rightarrow> 'v \<Rightarrow> (bool \<times> 'm) exec) \<Rightarrow> ('m \<Rightarrow> 'k \<Rightarrow> (bool \<times> 'm) exec) \<Rightarrow>
   'm \<Rightarrow> ('k, 'v) mop list \<Rightarrow> (bool list \<times> 'm) exec" where
  "map_run put del m [] = Some ([], m)"
| "map_run put del m (MSet k v # ops) =
     do { (ok, m) \<leftarrow> put m k v; (oks, m) \<leftarrow> map_run put del m ops; Some (ok # oks, m) }"
| "map_run put del m (MRemove k # ops) =
     do { (ok, m) \<leftarrow> del m k; (oks, m) \<leftarrow> map_run put del m ops; Some (ok # oks, m) }"

fun map_effect :: "bool \<times> ('k, 'v) mop \<Rightarrow> ('k \<rightharpoonup> 'v) \<Rightarrow> ('k \<rightharpoonup> 'v)" where
  "map_effect (True, MSet k v) f = f(k \<mapsto> v)"
| "map_effect (True, MRemove k) f = f(k := None)"
| "map_effect (False, _) f = f"

locale fallible_map =
  fixes inv :: "'m \<Rightarrow> bool"
    and content :: "'m \<Rightarrow> ('k \<rightharpoonup> 'v)"
    and key_ok :: "'k \<Rightarrow> bool"
    and put :: "'m \<Rightarrow> 'k \<Rightarrow> 'v \<Rightarrow> (bool \<times> 'm) exec"
    and get :: "'m \<Rightarrow> 'k \<Rightarrow> 'v option exec"
    and del :: "'m \<Rightarrow> 'k \<Rightarrow> (bool \<times> 'm) exec"
  assumes put_law: "inv m \<Longrightarrow> key_ok k \<Longrightarrow>
      \<exists>ok m'. put m k v = Some (ok, m') \<and> inv m' \<and>
              content m' = (if ok then (content m)(k \<mapsto> v) else content m)"
    and put_known: "inv m \<Longrightarrow> key_ok k \<Longrightarrow> k \<in> dom (content m) \<Longrightarrow> \<exists>m'. put m k v = Some (True, m')"
    and get_law: "inv m \<Longrightarrow> key_ok k \<Longrightarrow> get m k = Some (content m k)"
    and del_law: "inv m \<Longrightarrow> key_ok k \<Longrightarrow>
      \<exists>m'. del m k = Some (k \<in> dom (content m), m') \<and> inv m' \<and> content m' = (content m)(k := None)"
begin

lemma run_content:
  assumes "inv m" "\<And>k v. MSet k v \<in> set ops \<Longrightarrow> key_ok k" "\<And>k. MRemove k \<in> set ops \<Longrightarrow> key_ok k"
  shows "\<exists>oks m'. map_run put del m ops = Some (oks, m') \<and> inv m' \<and> length oks = length ops \<and>
           content m' = fold map_effect (zip oks ops) (content m)"
  using assms
proof (induction ops arbitrary: m)
  case Nil
  then show ?case by simp
next
  case (Cons op ops)
  obtain ok m1 where m1: "(case op of MSet k v \<Rightarrow> put m k v | MRemove k \<Rightarrow> del m k) = Some (ok, m1)" "inv m1"
    "content m1 = map_effect (ok, op) (content m)"
  proof (cases op)
    case (MSet k v)
    then obtain ok m1 where "put m k v = Some (ok, m1)" "inv m1" "content m1 = (if ok then (content m)(k \<mapsto> v) else content m)"
      using put_law [OF Cons.prems(1), of k v] Cons.prems(2) [of k v] by auto
    then show thesis using that [of ok m1] MSet by (cases ok) simp_all
  next
    case (MRemove k)
    then obtain m1 where "del m k = Some (k \<in> dom (content m), m1)" "inv m1" "content m1 = (content m)(k := None)"
      using del_law [OF Cons.prems(1), of k] Cons.prems(3) [of k] by auto
    then show thesis using that [of "k \<in> dom (content m)" m1] MRemove
      by (cases "k \<in> dom (content m)") (simp_all add: domIff fun_upd_idem)
  qed
  obtain oks m2 where "map_run put del m1 ops = Some (oks, m2)" "inv m2" "length oks = length ops"
    "content m2 = fold map_effect (zip oks ops) (content m1)"
    using Cons.IH [OF m1(2)] Cons.prems(2,3) by auto
  then show ?case using m1 by (cases op) auto
qed

lemma get_after_put:
  assumes "inv m" "key_ok k" "key_ok k'" "put m k v = Some (True, m')"
  shows "get m' k' = (if k' = k then Some (Some v) else get m k')"
  using put_law [OF assms(1,2), of v] get_law [of m' k'] get_law [OF assms(1,3)] assms(3,4) by auto

end

end
