(* ===== verification/Hashmap.thy ===== *)
theory Hashmap
  imports Map_Interface
begin

text \<open>
  The open-addressing map from 64-bit keys to 64-bit values of \<open>libs/data/hashmap.c\<close>: linear
  probing with tombstones in a table whose capacity is a power of two, rehashed when it would be
  more than seven tenths full. The probe loops run until they meet an empty slot or come back to
  their start; a loop that did not end would be None.
\<close>

datatype slot_state = SLOT_EMPTY | SLOT_FULL | SLOT_TOMBSTONE

record hashmap_entry =
  he_key :: u64
  he_value :: u64
  he_state :: slot_state

record hashmap =
  hm_size :: size_t
  hm_capacity :: size_t
  hm_entries :: "hashmap_entry list ptr"

definition HASHMAP_INITIAL_CAPACITY :: size_t where "HASHMAP_INITIAL_CAPACITY = 16"
definition HASHMAP_LOAD_NUM :: size_t where "HASHMAP_LOAD_NUM = 7"
definition HASHMAP_LOAD_DEN :: size_t where "HASHMAP_LOAD_DEN = 10"

definition hashmap_hash_u64 :: "u64 \<Rightarrow> u64" where
  "hashmap_hash_u64 value =
     (let value = value XOR drop_bit 33 value;
          value = value * 0xff51afd7ed558ccd;
          value = value XOR drop_bit 33 value;
          value = value * 0xc4ceb9fe1a85ec53;
          value = value XOR drop_bit 33 value
      in value)"

definition is_power_of_two :: "size_t \<Rightarrow> bool" where
  "is_power_of_two value \<longleftrightarrow> value \<noteq> 0 \<and> value AND (value - 1) = 0"

function next_pow2_loop :: "size_t \<Rightarrow> size_t \<Rightarrow> size_t" where
  "next_pow2_loop rounded value =
     (if rounded < value
      then let grown = sz_mul rounded 2 in
        if grown \<le> rounded then rounded else next_pow2_loop grown value
      else rounded)"
  by auto
termination
proof (relation "measure (\<lambda>(rounded, value). SIZE_MAX - rounded)")
  fix rounded v grown :: nat
  assume "grown = sz_mul rounded 2" "\<not> grown \<le> rounded"
  then have "rounded < grown" "grown \<le> SIZE_MAX" by simp_all
  then have "SIZE_MAX - grown < SIZE_MAX - rounded" by linarith
  then show "((grown, v), rounded, v) \<in> measure (\<lambda>(rounded, value). SIZE_MAX - rounded)"
    by simp
qed simp

declare next_pow2_loop.simps [simp del]

definition next_power_of_two :: "size_t \<Rightarrow> size_t" where
  "next_power_of_two value = (if value \<le> 1 then 1 else next_pow2_loop 1 value)"

text \<open>The zeroed table that \<open>calloc\<close> returns.\<close>

definition empty_entry :: hashmap_entry where
  "empty_entry = \<lparr>he_key = 0, he_value = 0, he_state = SLOT_EMPTY\<rparr>"

definition home_slot :: "u64 \<Rightarrow> size_t \<Rightarrow> size_t" where
  "home_slot key msk = unat (hashmap_hash_u64 key) AND msk"

text \<open>
  The probe loop of lookup, update and removal: the index of the entry of a key, or None.
\<close>

partial_function (option) hashmap_probe ::
  "hashmap_entry list \<Rightarrow> size_t \<Rightarrow> size_t \<Rightarrow> u64 \<Rightarrow> size_t \<Rightarrow> size_t option exec" where
  "hashmap_probe entries msk start key index =
     do { entry \<leftarrow> load entries index;
          if he_state entry = SLOT_EMPTY then Some None
          else if he_state entry = SLOT_FULL \<and> he_key entry = key then Some (Some index)
          else let index = sz_add index 1 AND msk in
            if index = start then Some None else hashmap_probe entries msk start key index }"

text \<open>The probe loop of insertion: overwrite an entry, fill a slot, or give up.\<close>

datatype insert_at = Overwrite nat | Fill nat | No_Slot

partial_function (option) insert_probe ::
  "hashmap_entry list \<Rightarrow> size_t \<Rightarrow> size_t \<Rightarrow> u64 \<Rightarrow> size_t \<Rightarrow> size_t option \<Rightarrow> insert_at exec" where
  "insert_probe entries msk start key index tombstone =
     do { entry \<leftarrow> load entries index;
          if he_state entry = SLOT_FULL \<and> he_key entry = key then Some (Overwrite index)
          else if he_state entry = SLOT_EMPTY
          then Some (Fill (case tombstone of Some t \<Rightarrow> t | None \<Rightarrow> index))
          else let tombstone = (if he_state entry = SLOT_TOMBSTONE \<and> tombstone = None then Some index else tombstone);
                   index = sz_add index 1 AND msk in
            if index = start
            then Some (case tombstone of Some t \<Rightarrow> Fill t | None \<Rightarrow> No_Slot)
            else insert_probe entries msk start key index tombstone }"

declare hashmap_probe.simps [code] insert_probe.simps [code]

definition hashmap_insert_raw :: "hashmap ptr \<Rightarrow> u64 \<Rightarrow> u64 \<Rightarrow> (bool \<times> hashmap ptr) exec" where
  "hashmap_insert_raw hm key value =
     (case hm of
        None \<Rightarrow> Some (False, hm)
      | Some m \<Rightarrow>
          (case hm_entries m of
             None \<Rightarrow> Some (False, hm)
           | Some entries \<Rightarrow>
               if hm_capacity m = 0 then Some (False, hm)
               else let msk = hm_capacity m - 1; index = home_slot key msk in
                 do { r \<leftarrow> insert_probe entries msk index key index None;
                      case r of
                        Overwrite i \<Rightarrow>
                          do { entry \<leftarrow> load entries i;
                               entries \<leftarrow> store entries i (entry\<lparr>he_value := value\<rparr>);
                               Some (True, Some (m\<lparr>hm_entries := Some entries\<rparr>)) }
                      | Fill i \<Rightarrow>
                          do { entries \<leftarrow> store entries i \<lparr>he_key = key, he_value = value, he_state = SLOT_FULL\<rparr>;
                               Some (True, Some (m\<lparr>hm_entries := Some entries, hm_size := sz_add (hm_size m) 1\<rparr>)) }
                      | No_Slot \<Rightarrow> Some (False, hm) }))"

definition hashmap_update :: "hashmap ptr \<Rightarrow> u64 \<Rightarrow> u64 \<Rightarrow> (bool \<times> hashmap ptr) exec" where
  "hashmap_update hm key value =
     (case hm of
        None \<Rightarrow> Some (False, hm)
      | Some m \<Rightarrow>
          (case hm_entries m of
             None \<Rightarrow> Some (False, hm)
           | Some entries \<Rightarrow>
               if hm_capacity m = 0 then Some (False, hm)
               else let msk = hm_capacity m - 1; index = home_slot key msk in
                 do { r \<leftarrow> hashmap_probe entries msk index key index;
                      case r of
                        None \<Rightarrow> Some (False, hm)
                      | Some i \<Rightarrow>
                          do { entry \<leftarrow> load entries i;
                               entries \<leftarrow> store entries i (entry\<lparr>he_value := value\<rparr>);
                               Some (True, Some (m\<lparr>hm_entries := Some entries\<rparr>)) } }))"

text \<open>\<open>calloc_ok n\<close> tells whether the allocation of a table of \<open>n\<close> entries succeeds.\<close>

function rehash_loop :: "hashmap_entry list \<Rightarrow> size_t \<Rightarrow> hashmap \<Rightarrow> size_t \<Rightarrow> hashmap ptr exec" where
  "rehash_loop entries capacity grown i =
     (if i < capacity
      then do { entry \<leftarrow> load entries i;
                if he_state entry \<noteq> SLOT_FULL then rehash_loop entries capacity grown (i + 1)
                else do { (ok, g) \<leftarrow> hashmap_insert_raw (Some grown) (he_key entry) (he_value entry);
                          if \<not> ok then Some None
                          else do { grown \<leftarrow> g; rehash_loop entries capacity grown (i + 1) } } }
      else Some (Some grown))"
  by auto
termination by (relation "measure (\<lambda>(entries, capacity, grown, i). capacity - i)") auto

declare rehash_loop.simps [simp del]

definition hashmap_rehash :: "(size_t \<Rightarrow> bool) \<Rightarrow> hashmap ptr \<Rightarrow> size_t \<Rightarrow> (bool \<times> hashmap ptr) exec" where
  "hashmap_rehash calloc_ok hm new_capacity =
     (case hm of
        None \<Rightarrow> Some (False, hm)
      | Some m \<Rightarrow>
          let new_capacity = (if \<not> is_power_of_two new_capacity then next_power_of_two new_capacity else new_capacity) in
          if new_capacity = 0 then Some (False, hm)
          else if \<not> calloc_ok new_capacity then Some (False, hm)
          else let grown = m\<lparr>hm_entries := Some (replicate new_capacity empty_entry), hm_capacity := new_capacity, hm_size := 0\<rparr> in
            do { r \<leftarrow> (case hm_entries m of
                         Some entries \<Rightarrow> rehash_loop entries (hm_capacity m) grown 0
                       | None \<Rightarrow> if hm_capacity m = 0 then Some (Some grown) else None);
                 case r of
                   None \<Rightarrow> Some (False, hm)
                 | Some g \<Rightarrow> Some (True, Some (m\<lparr>hm_entries := hm_entries g, hm_capacity := hm_capacity g, hm_size := hm_size g\<rparr>)) })"

definition hashmap_create_sized :: "bool \<Rightarrow> (size_t \<Rightarrow> bool) \<Rightarrow> size_t \<Rightarrow> hashmap ptr" where
  "hashmap_create_sized node_ok calloc_ok capacity =
     (let capacity = (if capacity = 0 then HASHMAP_INITIAL_CAPACITY else capacity);
          capacity = (if \<not> is_power_of_two capacity then next_power_of_two capacity else capacity) in
      if \<not> node_ok then None
      else if \<not> calloc_ok capacity then None
      else Some \<lparr>hm_size = 0, hm_capacity = capacity, hm_entries = Some (replicate capacity empty_entry)\<rparr>)"

definition hashmap_create :: "bool \<Rightarrow> (size_t \<Rightarrow> bool) \<Rightarrow> hashmap ptr" where
  "hashmap_create node_ok calloc_ok = hashmap_create_sized node_ok calloc_ok HASHMAP_INITIAL_CAPACITY"

definition hashmap_clear :: "hashmap ptr \<Rightarrow> hashmap ptr exec" where
  "hashmap_clear hm =
     (case hm of
        None \<Rightarrow> Some None
      | Some m \<Rightarrow>
          (case hm_entries m of
             None \<Rightarrow> Some hm
           | Some entries \<Rightarrow>
               if hm_capacity m = 0 then Some hm
               else do { entries \<leftarrow> memset entries 0 empty_entry (hm_capacity m);
                         Some (Some (m\<lparr>hm_entries := Some entries, hm_size := 0\<rparr>)) }))"

definition hashmap_reserve :: "(size_t \<Rightarrow> bool) \<Rightarrow> hashmap ptr \<Rightarrow> size_t \<Rightarrow> (bool \<times> hashmap ptr) exec" where
  "hashmap_reserve calloc_ok hm capacity =
     (case hm of
        None \<Rightarrow> Some (False, hm)
      | Some m \<Rightarrow>
          let needed = sz_sub (sz_add (sz_mul (hm_size m) HASHMAP_LOAD_DEN) HASHMAP_LOAD_NUM) 1 div HASHMAP_LOAD_NUM;
              min_capacity = (if 0 < hm_size m \<and> capacity < needed then needed else capacity) in
          if min_capacity \<le> hm_capacity m then Some (True, hm)
          else hashmap_rehash calloc_ok hm min_capacity)"

definition hashmap_set :: "(size_t \<Rightarrow> bool) \<Rightarrow> hashmap ptr \<Rightarrow> u64 \<Rightarrow> u64 \<Rightarrow> (bool \<times> hashmap ptr) exec" where
  "hashmap_set calloc_ok hm key value =
     (case hm of
        None \<Rightarrow> Some (False, hm)
      | Some m \<Rightarrow>
          do { (ok, hm) \<leftarrow> (if hm_entries m = None \<or> hm_capacity m = 0
                             then hashmap_rehash calloc_ok hm HASHMAP_INITIAL_CAPACITY else Some (True, hm));
               if \<not> ok then Some (False, hm)
               else do { (ok, hm) \<leftarrow> hashmap_update hm key value;
                 if ok then Some (True, hm)
                 else do { m \<leftarrow> hm;
                   let limit = sz_mul (hm_capacity m) HASHMAP_LOAD_NUM div HASHMAP_LOAD_DEN;
                       next = (if hm_capacity m \<noteq> 0 then sz_mul (hm_capacity m) 2 else HASHMAP_INITIAL_CAPACITY) in
                   do { (ok, hm) \<leftarrow> (if limit < sz_add (hm_size m) 1
                                      then hashmap_rehash calloc_ok hm next else Some (True, hm));
                        if \<not> ok then Some (False, hm)
                        else do { (ok, hm) \<leftarrow> hashmap_insert_raw hm key value;
                          if ok then Some (True, hm)
                          else do { m \<leftarrow> hm;
                            let next = (if hm_capacity m \<noteq> 0 then sz_mul (hm_capacity m) 2 else HASHMAP_INITIAL_CAPACITY) in
                            do { (ok, hm) \<leftarrow> hashmap_rehash calloc_ok hm next;
                                 if \<not> ok then Some (False, hm)
                                 else hashmap_insert_raw hm key value } } } } } } })"

definition hashmap_get :: "hashmap ptr \<Rightarrow> u64 \<Rightarrow> u64 ptr \<Rightarrow> (bool \<times> u64 ptr) exec" where
  "hashmap_get hm key value_out =
     (case hm of
        None \<Rightarrow> Some (False, value_out)
      | Some m \<Rightarrow>
          (case hm_entries m of
             None \<Rightarrow> Some (False, value_out)
           | Some entries \<Rightarrow>
               if hm_capacity m = 0 then Some (False, value_out)
               else let msk = hm_capacity m - 1; index = home_slot key msk in
                 do { r \<leftarrow> hashmap_probe entries msk index key index;
                      case r of
                        None \<Rightarrow> Some (False, value_out)
                      | Some i \<Rightarrow> do { entry \<leftarrow> load entries i; Some (True, map_option (\<lambda>_. he_value entry) value_out) } }))"

definition hashmap_remove :: "hashmap ptr \<Rightarrow> u64 \<Rightarrow> (bool \<times> hashmap ptr) exec" where
  "hashmap_remove hm key =
     (case hm of
        None \<Rightarrow> Some (False, hm)
      | Some m \<Rightarrow>
          (case hm_entries m of
             None \<Rightarrow> Some (False, hm)
           | Some entries \<Rightarrow>
               if hm_capacity m = 0 then Some (False, hm)
               else let msk = hm_capacity m - 1; index = home_slot key msk in
                 do { r \<leftarrow> hashmap_probe entries msk index key index;
                      case r of
                        None \<Rightarrow> Some (False, hm)
                      | Some i \<Rightarrow>
                          do { entries \<leftarrow> store entries i \<lparr>he_key = 0, he_value = 0, he_state = SLOT_TOMBSTONE\<rparr>;
                               Some (True, Some (m\<lparr>hm_entries := Some entries,
                                                   hm_size := (if hm_size m \<noteq> 0 then hm_size m - 1 else hm_size m)\<rparr>)) } }))"


section \<open>Tables and their content\<close>

definition is_full :: "hashmap_entry list \<Rightarrow> nat \<Rightarrow> bool" where
  "is_full es i \<longleftrightarrow> i < length es \<and> he_state (es ! i) = SLOT_FULL"

definition key_at :: "hashmap_entry list \<Rightarrow> u64 \<Rightarrow> nat \<Rightarrow> bool" where
  "key_at es k i \<longleftrightarrow> is_full es i \<and> he_key (es ! i) = k"

text \<open>The slot \<open>d\<close> steps after the home slot of a key.\<close>

definition nth_slot :: "hashmap_entry list \<Rightarrow> u64 \<Rightarrow> nat \<Rightarrow> nat" where
  "nth_slot es k d = (unat (hashmap_hash_u64 k) + d) mod length es"

text \<open>
  A well-formed table: no key twice, and every entry is reached from the home slot of its key
  without meeting an empty slot.
\<close>

definition table_ok :: "hashmap_entry list \<Rightarrow> bool" where
  "table_ok es \<longleftrightarrow>
     (\<exists>n < 64. length es = 2 ^ n) \<and>
     (\<forall>k i j. key_at es k i \<and> key_at es k j \<longrightarrow> i = j) \<and>
     (\<forall>k d. d < length es \<and> key_at es k (nth_slot es k d) \<longrightarrow>
        (\<forall>e < d. he_state (es ! nth_slot es k e) \<noteq> SLOT_EMPTY))"

definition table_map :: "hashmap_entry list \<Rightarrow> (u64 \<rightharpoonup> u64)" where
  "table_map es k = map_option he_value (find (\<lambda>e. he_state e = SLOT_FULL \<and> he_key e = k) es)"

definition full_count :: "hashmap_entry list \<Rightarrow> nat" where
  "full_count es = card {i. is_full es i}"

definition hm_inv :: "hashmap \<Rightarrow> bool" where
  "hm_inv m \<longleftrightarrow> (\<exists>es. hm_entries m = Some es \<and> table_ok es \<and> hm_capacity m = length es \<and> hm_size m = full_count es)"

definition hm_content :: "hashmap \<Rightarrow> (u64 \<rightharpoonup> u64)" where
  "hm_content m = table_map (the (hm_entries m))"


section \<open>Probe sequences\<close>

lemma finite_full [simp]: "finite {i. is_full es i}"
  by (rule finite_subset [of _ "{..<length es}"]) (auto simp: is_full_def)

lemma key_at_full: "key_at es k i \<Longrightarrow> i < length es \<and> he_state (es ! i) = SLOT_FULL"
  by (simp add: key_at_def is_full_def)

lemma table_len: "table_ok es \<Longrightarrow> 0 < length es \<and> 2 * length es \<le> 2 ^ 64"
proof -
  assume "table_ok es"
  then obtain n where n: "n < 64" "length es = 2 ^ n" by (auto simp: table_ok_def)
  have "(2::nat) ^ Suc n \<le> 2 ^ 64" using n(1) by (intro power_increasing) simp_all
  then show ?thesis using n(2) by simp
qed

lemma mask_mod: "table_ok es \<Longrightarrow> x AND (length es - Suc 0) = x mod length es"
  using and_mask_mod by (auto simp: table_ok_def)

lemma home_slot_eq: "table_ok es \<Longrightarrow> home_slot k (length es - 1) = nth_slot es k 0"
  by (simp add: home_slot_def nth_slot_def mask_mod)

lemma nth_slot_less: "0 < length es \<Longrightarrow> nth_slot es k d < length es"
  by (simp add: nth_slot_def)

lemma next_slot:
  assumes "table_ok es"
  shows "sz_add (nth_slot es k d) 1 AND (length es - 1) = nth_slot es k (d + 1)"
proof -
  have l: "0 < length es" "2 * length es \<le> 2 ^ 64" using table_len [OF assms] by simp_all
  have "nth_slot es k d < length es" using l nth_slot_less by blast
  then have "sz_add (nth_slot es k d) 1 = nth_slot es k d + 1" using l(2) by (intro sz_add_exact) (simp add: SIZE_MAX_def)
  then show ?thesis by (simp add: mask_mod [OF assms] nth_slot_def mod_Suc_eq)
qed

lemma nth_slot_inj: "nth_slot es k d = nth_slot es k e \<Longrightarrow> d < length es \<Longrightarrow> e < length es \<Longrightarrow> d = e"
  unfolding nth_slot_def by (rule mod_pos_inj)

lemma nth_slot_wrap: "nth_slot es k (length es) = nth_slot es k 0"
  by (simp add: nth_slot_def)

lemma nth_slot_surj:
  assumes "i < length es"
  shows "\<exists>d < length es. i = nth_slot es k d"
proof -
  let ?n = "length es" and ?h = "unat (hashmap_hash_u64 k) mod length es"
  have h: "?h < ?n" using assms by (cases es) simp_all
  have "nth_slot es k ((i + ?n - ?h) mod ?n) = (?h + (i + ?n - ?h)) mod ?n"
    by (simp add: nth_slot_def mod_add_left_eq mod_add_right_eq)
  also have "?h + (i + ?n - ?h) = i + ?n" using h by simp
  finally have "nth_slot es k ((i + ?n - ?h) mod ?n) = i" using assms by simp
  moreover have "(i + ?n - ?h) mod ?n < ?n" using assms by (intro mod_less_divisor) linarith
  ultimately show ?thesis by metis
qed

lemma nth_slot_update [simp]: "nth_slot (es[i := x]) k d = nth_slot es k d"
  by (simp add: nth_slot_def)

text \<open>A probe that stops on an empty slot, or after all slots, has seen every entry of its key.\<close>

definition key_absent_to :: "hashmap_entry list \<Rightarrow> u64 \<Rightarrow> nat \<Rightarrow> bool" where
  "key_absent_to es k m \<longleftrightarrow> m \<le> length es \<and> (\<forall>e < m. \<not> key_at es k (nth_slot es k e)) \<and>
     (m = length es \<or> he_state (es ! nth_slot es k m) = SLOT_EMPTY)"

lemma key_absent:
  assumes ok: "table_ok es" and m: "key_absent_to es k m"
  shows "\<not> key_at es k i"
proof
  assume k: "key_at es k i"
  then obtain d where d: "d < length es" "i = nth_slot es k d"
    using nth_slot_surj [of i es k] key_at_full by blast
  then have p: "\<forall>e < d. he_state (es ! nth_slot es k e) \<noteq> SLOT_EMPTY"
    using ok k by (auto simp: table_ok_def)
  have "\<not> d < m" using m d k by (auto simp: key_absent_to_def)
  then have "he_state (es ! nth_slot es k m) = SLOT_EMPTY" "m < d \<or> m = d"
    using m d(1) by (auto simp: key_absent_to_def)
  then show False using p k d(2) key_at_full by (metis slot_state.distinct(1))
qed

lemma hashmap_probe_spec:
  assumes ok: "table_ok es" and "d < length es" "\<forall>e < d. \<not> key_at es k (nth_slot es k e)"
  shows "\<exists>r. hashmap_probe es (length es - 1) (nth_slot es k 0) k (nth_slot es k d) = Some r \<and>
           (case r of Some i \<Rightarrow> key_at es k i | None \<Rightarrow> \<exists>m. key_absent_to es k m)"
  using assms(2,3)
proof (induction "length es - d" arbitrary: d rule: less_induct)
  case less
  let ?i = "nth_slot es k d" and ?n = "length es"
  have i: "?i < ?n" using nth_slot_less less.prems(1) by (metis gr_implies_not0 neq0_conv)
  have ld: "load es ?i = Some (es ! ?i)" using i by (simp add: load_ok)
  consider "he_state (es ! ?i) = SLOT_EMPTY" | "key_at es k ?i" | "he_state (es ! ?i) \<noteq> SLOT_EMPTY" "\<not> key_at es k ?i"
    by blast
  then show ?case
  proof cases
    case 1
    then have "key_absent_to es k d" using less.prems by (simp add: key_absent_to_def)
    then show ?thesis using 1 ld by (subst hashmap_probe.simps) auto
  next
    case 2
    then show ?thesis using ld by (subst hashmap_probe.simps) (auto simp: key_at_def is_full_def)
  next
    case 3
    have ab: "\<forall>e < d + 1. \<not> key_at es k (nth_slot es k e)" using less.prems(2) 3(2) by (auto simp: less_Suc_eq)
    have nm: "\<not> (he_state (es ! ?i) = SLOT_FULL \<and> he_key (es ! ?i) = k)" using 3(2) i by (simp add: key_at_def is_full_def)
    have step: "hashmap_probe es (?n - 1) (nth_slot es k 0) k ?i =
        (if nth_slot es k (d + 1) = nth_slot es k 0 then Some None
         else hashmap_probe es (?n - 1) (nth_slot es k 0) k (nth_slot es k (d + 1)))"
      using 3(1) nm ld by (subst hashmap_probe.simps) (auto simp: Let_def next_slot [OF ok, simplified])
    show ?thesis
    proof (cases "d + 1 < ?n")
      case True
      then have "nth_slot es k (d + 1) \<noteq> nth_slot es k 0" using nth_slot_inj [of es k "d + 1" 0] by fastforce
      moreover have "?n - (d + 1) < ?n - d" using True by simp
      ultimately show ?thesis using less.hyps [of "d + 1"] True ab step by auto
    next
      case False
      then have e: "d + 1 = ?n" using less.prems(1) by simp
      then have "key_absent_to es k ?n" using ab by (simp add: key_absent_to_def)
      moreover have "nth_slot es k (d + 1) = nth_slot es k 0" using e nth_slot_wrap by metis
      ultimately show ?thesis using step by auto
    qed
  qed
qed

text \<open>
  The insertion probe. The remembered tombstone is a slot already passed; without one, all slots
  passed are full.
\<close>

definition tomb_ok :: "hashmap_entry list \<Rightarrow> u64 \<Rightarrow> nat \<Rightarrow> nat option \<Rightarrow> bool" where
  "tomb_ok es k d t \<longleftrightarrow> (case t of
       Some i \<Rightarrow> \<exists>e < d. i = nth_slot es k e \<and> \<not> is_full es i
     | None \<Rightarrow> \<forall>e < d. is_full es (nth_slot es k e))"

definition insert_ok :: "hashmap_entry list \<Rightarrow> u64 \<Rightarrow> insert_at \<Rightarrow> bool" where
  "insert_ok es k r \<longleftrightarrow> (case r of
       Overwrite i \<Rightarrow> key_at es k i
     | Fill i \<Rightarrow> (\<exists>m. key_absent_to es k m) \<and>
         (\<exists>e < length es. i = nth_slot es k e \<and> \<not> is_full es i \<and> (\<forall>e' < e. he_state (es ! nth_slot es k e') \<noteq> SLOT_EMPTY))
     | No_Slot \<Rightarrow> (\<exists>m. key_absent_to es k m) \<and> (\<forall>i < length es. is_full es i))"

lemma insert_okI_tomb:
  assumes "tomb_ok es k d t" "\<forall>e < d. he_state (es ! nth_slot es k e) \<noteq> SLOT_EMPTY" "d \<le> length es"
    "key_absent_to es k m"
  shows "t = Some i \<Longrightarrow> insert_ok es k (Fill i)"
    "t = None \<Longrightarrow> d = length es \<Longrightarrow> insert_ok es k No_Slot"
    "t = None \<Longrightarrow> d < length es \<Longrightarrow> he_state (es ! nth_slot es k d) = SLOT_EMPTY \<Longrightarrow> insert_ok es k (Fill (nth_slot es k d))"
proof -
  assume t: "t = Some i"
  then obtain e where e: "e < d" "i = nth_slot es k e" "\<not> is_full es i" using assms(1) by (auto simp: tomb_ok_def)
  then have "e < length es" "\<forall>e' < e. he_state (es ! nth_slot es k e') \<noteq> SLOT_EMPTY" using assms(2,3) by auto
  then show "insert_ok es k (Fill i)" using e assms(4) by (auto simp: insert_ok_def)
next
  assume t: "t = None" "d = length es"
  then have "is_full es i" if "i < length es" for i
    using nth_slot_surj [OF that, of k] assms(1) by (auto simp: tomb_ok_def)
  then show "insert_ok es k No_Slot" using assms(4) by (auto simp: insert_ok_def)
next
  assume "t = None" "d < length es" "he_state (es ! nth_slot es k d) = SLOT_EMPTY"
  then show "insert_ok es k (Fill (nth_slot es k d))"
    using assms by (auto simp: insert_ok_def is_full_def)
qed

lemma insert_probe_spec:
  assumes ok: "table_ok es" and "d < length es" "\<forall>e < d. \<not> key_at es k (nth_slot es k e)"
    "\<forall>e < d. he_state (es ! nth_slot es k e) \<noteq> SLOT_EMPTY" "tomb_ok es k d t"
  shows "\<exists>r. insert_probe es (length es - 1) (nth_slot es k 0) k (nth_slot es k d) t = Some r \<and> insert_ok es k r"
  using assms(2-5)
proof (induction "length es - d" arbitrary: d t rule: less_induct)
  case less
  let ?i = "nth_slot es k d" and ?n = "length es"
  have i: "?i < ?n" using nth_slot_less less.prems(1) by (metis gr_implies_not0 neq0_conv)
  have ld: "load es ?i = Some (es ! ?i)" using i by (simp add: load_ok)
  consider "key_at es k ?i" | "he_state (es ! ?i) = SLOT_EMPTY" | "he_state (es ! ?i) \<noteq> SLOT_EMPTY" "\<not> key_at es k ?i"
    by blast
  then show ?case
  proof cases
    case 1
    then have "insert_probe es (?n - 1) (nth_slot es k 0) k ?i t = Some (Overwrite ?i)"
      using ld by (subst insert_probe.simps) (simp add: key_at_def is_full_def)
    then show ?thesis using 1 by (auto simp: insert_ok_def)
  next
    case 2
    then have ab: "key_absent_to es k d" using less.prems by (simp add: key_absent_to_def)
    have "insert_probe es (?n - 1) (nth_slot es k 0) k ?i t = Some (Fill (case t of Some i \<Rightarrow> i | None \<Rightarrow> ?i))"
      using ld 2 by (subst insert_probe.simps) simp
    moreover have "insert_ok es k (Fill (case t of Some i \<Rightarrow> i | None \<Rightarrow> ?i))"
      using insert_okI_tomb(1,3) [OF less.prems(4,3) _ ab] less.prems(1) 2 by (cases t) simp_all
    ultimately show ?thesis by blast
  next
    case 3
    define t' where "t' = (if he_state (es ! ?i) = SLOT_TOMBSTONE \<and> t = None then Some ?i else t)"
    have ab: "\<forall>e < d + 1. \<not> key_at es k (nth_slot es k e)"
      and ne: "\<forall>e < d + 1. he_state (es ! nth_slot es k e) \<noteq> SLOT_EMPTY"
      using less.prems(2,3) 3 by (auto simp: less_Suc_eq)
    have "he_state (es ! ?i) = SLOT_FULL \<or> he_state (es ! ?i) = SLOT_TOMBSTONE"
      using 3(1) by (cases "he_state (es ! ?i)") simp_all
    then have t': "tomb_ok es k (d + 1) t'"
      using less.prems(4) i by (auto simp: tomb_ok_def t'_def is_full_def less_Suc_eq split: option.splits)
    have nm: "\<not> (he_state (es ! ?i) = SLOT_FULL \<and> he_key (es ! ?i) = k)" using 3(2) i by (simp add: key_at_def is_full_def)
    have step: "insert_probe es (?n - 1) (nth_slot es k 0) k ?i t =
        (if nth_slot es k (Suc d) = nth_slot es k 0 then Some (case t' of Some i \<Rightarrow> Fill i | None \<Rightarrow> No_Slot)
         else insert_probe es (?n - 1) (nth_slot es k 0) k (nth_slot es k (Suc d)) t')"
      unfolding t'_def using 3(1) nm ld
      by (subst insert_probe.simps) (simp add: Let_def next_slot [OF ok, simplified] del: de_Morgan_conj split del: if_split)
    show ?thesis
    proof (cases "d + 1 < ?n")
      case True
      then have "nth_slot es k (d + 1) \<noteq> nth_slot es k 0" using nth_slot_inj [of es k "d + 1" 0] by fastforce
      moreover have "?n - (d + 1) < ?n - d" using True by simp
      ultimately show ?thesis using less.hyps [of "d + 1" t'] True ab ne t' step by auto
    next
      case False
      then have e: "d + 1 = ?n" using less.prems(1) by simp
      then have abs: "key_absent_to es k ?n" using ab by (simp add: key_absent_to_def)
      have "nth_slot es k (d + 1) = nth_slot es k 0" using e nth_slot_wrap by metis
      moreover have "insert_ok es k (case t' of Some i \<Rightarrow> Fill i | None \<Rightarrow> No_Slot)"
        using insert_okI_tomb(1,2) [OF t' ne _ abs] e by (cases t') simp_all
      ultimately show ?thesis using step by auto
    qed
  qed
qed


section \<open>Table updates\<close>

lemma table_map_at:
  assumes "table_ok es" "key_at es k i"
  shows "table_map es k = Some (he_value (es ! i))"
proof -
  let ?P = "\<lambda>e. he_state e = SLOT_FULL \<and> he_key e = k"
  have P: "?P (es ! j) \<and> j < length es \<longleftrightarrow> key_at es k j" for j by (auto simp: key_at_def is_full_def)
  have "\<not> ?P (es ! j)" if "j < i" for j
  proof
    assume "?P (es ! j)"
    moreover have "j < length es" using that key_at_full [OF assms(2)] by simp
    ultimately have "key_at es k j" using P by blast
    then have "j = i" using assms unfolding table_ok_def by blast
    then show False using that by simp
  qed
  then have "find ?P es = Some (es ! i)" using assms(2) P [of i] by (auto simp: find_Some_iff)
  then show ?thesis by (simp add: table_map_def)
qed

lemma table_map_None: "table_map es k = None \<longleftrightarrow> (\<forall>i. \<not> key_at es k i)"
  by (auto simp: table_map_def find_None_iff key_at_def is_full_def in_set_conv_nth)

lemma table_mapI:
  assumes "table_ok es" "\<And>i. key_at es k i \<Longrightarrow> f k = Some (he_value (es ! i))" "(\<forall>i. \<not> key_at es k i) \<Longrightarrow> f k = None"
  shows "table_map es k = f k"
  using assms table_map_at [OF assms(1)] table_map_None [of es k] by (cases "\<exists>i. key_at es k i") auto

lemma overwrite_spec:
  assumes ok: "table_ok es" and k: "key_at es k i" and es'_def: "es' = es[i := (es ! i)\<lparr>he_value := v\<rparr>]"
  shows "table_ok es'" "table_map es' = (table_map es)(k \<mapsto> v)" "full_count es' = full_count es"
proof -
  have i: "i < length es" using k key_at_full by blast
  have full: "is_full es' j \<longleftrightarrow> is_full es j" "he_state (es' ! j) = he_state (es ! j)" "he_key (es' ! j) = he_key (es ! j)" for j
    using i by (auto simp: es'_def is_full_def nth_list_update)
  have key: "key_at es' k' j \<longleftrightarrow> key_at es k' j" for k' j by (simp add: key_at_def full)
  have l: "length es' = length es" "nth_slot es' = nth_slot es" by (auto simp: es'_def nth_slot_def fun_eq_iff)
  show ok': "table_ok es'" using ok by (simp add: table_ok_def key l full)
  show "full_count es' = full_count es" by (simp add: full_count_def full)
  show "table_map es' = (table_map es)(k \<mapsto> v)"
  proof
    fix k'
    show "table_map es' k' = ((table_map es)(k \<mapsto> v)) k'"
    proof (rule table_mapI [OF ok'])
      fix j assume j: "key_at es' k' j"
      then have kj: "key_at es k' j" by (simp add: key)
      have "j = i \<longleftrightarrow> k' = k" using kj k ok by (auto simp: table_ok_def key_at_def)
      then show "((table_map es)(k \<mapsto> v)) k' = Some (he_value (es' ! j))"
        using table_map_at [OF ok kj] i by (auto simp: es'_def)
    next
      assume "\<forall>i. \<not> key_at es' k' i"
      then show "((table_map es)(k \<mapsto> v)) k' = None" using k table_map_None [of es k'] by (auto simp: key)
    qed
  qed
qed

lemma fill_spec:
  assumes ok: "table_ok es" and ab: "\<And>j. \<not> key_at es k j"
    and i: "e < length es" "i = nth_slot es k e" "\<not> is_full es i"
    and path: "\<forall>e' < e. he_state (es ! nth_slot es k e') \<noteq> SLOT_EMPTY"
    and es'_def: "es' = es[i := \<lparr>he_key = k, he_value = v, he_state = SLOT_FULL\<rparr>]"
  shows "table_ok es'" "table_map es' = (table_map es)(k \<mapsto> v)" "full_count es' = full_count es + 1"
proof -
  have il: "i < length es" using i nth_slot_less [of es k e] by fastforce
  have l: "length es' = length es" "nth_slot es' = nth_slot es" by (auto simp: es'_def nth_slot_def fun_eq_iff)
  have full: "is_full es' j \<longleftrightarrow> j = i \<or> is_full es j" for j
    using il by (auto simp: es'_def is_full_def nth_list_update)
  have key: "key_at es' k' j \<longleftrightarrow> (if j = i then k' = k else key_at es k' j)" for k' j
    using il i(3) by (auto simp: key_at_def full) (auto simp: es'_def)
  have ne: "he_state (es ! j) \<noteq> SLOT_EMPTY \<Longrightarrow> he_state (es' ! j) \<noteq> SLOT_EMPTY" for j
    using il by (auto simp: es'_def nth_list_update)
  have uniq: "\<forall>k' j j'. key_at es' k' j \<and> key_at es' k' j' \<longrightarrow> j = j'"
    using ok ab unfolding table_ok_def key by (auto split: if_splits)
  have paths: "he_state (es' ! nth_slot es k' d') \<noteq> SLOT_EMPTY"
    if d: "d < length es" "key_at es' k' (nth_slot es k' d)" "d' < d" for k' d d'
  proof (cases "nth_slot es k' d = i")
    case True
    then have "k' = k" using d(2) by (simp add: key)
    then have "d = e" using nth_slot_inj [of es k d e] True i d(1) by simp
    then show ?thesis using path d(3) \<open>k' = k\<close> ne by blast
  next
    case False
    then have "key_at es k' (nth_slot es k' d)" using d(2) by (simp add: key)
    then show ?thesis using ok d ne unfolding table_ok_def by blast
  qed
  show ok': "table_ok es'"
    unfolding table_ok_def l using ok uniq paths by (auto simp: table_ok_def)
  have "{j. is_full es' j} = insert i {j. is_full es j}" by (auto simp: full)
  moreover have "finite {j. is_full es j}" by (simp add: is_full_def)
  ultimately show "full_count es' = full_count es + 1" using i(3) by (simp add: full_count_def)
  show "table_map es' = (table_map es)(k \<mapsto> v)"
  proof
    fix k'
    show "table_map es' k' = ((table_map es)(k \<mapsto> v)) k'"
    proof (rule table_mapI [OF ok'])
      fix j assume j: "key_at es' k' j"
      show "((table_map es)(k \<mapsto> v)) k' = Some (he_value (es' ! j))"
      proof (cases "j = i")
        case True
        then show ?thesis using j il by (simp add: key) (simp add: es'_def)
      next
        case False
        then have kj: "key_at es k' j" using j by (simp add: key)
        then have "k' \<noteq> k" using ab by auto
        then show ?thesis using table_map_at [OF ok kj] False by (simp add: es'_def)
      qed
    next
      assume "\<forall>i. \<not> key_at es' k' i"
      then have "k' \<noteq> k" "\<forall>i. \<not> key_at es k' i" using key i(3) by (metis, metis key_at_def)
      then show "((table_map es)(k \<mapsto> v)) k' = None" using table_map_None [of es k'] by simp
    qed
  qed
qed

lemma remove_spec:
  assumes ok: "table_ok es" and k: "key_at es k i"
    and es'_def: "es' = es[i := \<lparr>he_key = 0, he_value = 0, he_state = SLOT_TOMBSTONE\<rparr>]"
  shows "table_ok es'" "table_map es' = (table_map es)(k := None)" "full_count es' = full_count es - 1" "0 < full_count es"
proof -
  have il: "i < length es" "is_full es i" using k key_at_full by (auto simp: key_at_def)
  have l: "length es' = length es" "nth_slot es' = nth_slot es" by (auto simp: es'_def nth_slot_def fun_eq_iff)
  have full: "is_full es' j \<longleftrightarrow> j \<noteq> i \<and> is_full es j" for j
    using il by (auto simp: es'_def is_full_def nth_list_update)
  have key: "key_at es' k' j \<longleftrightarrow> j \<noteq> i \<and> key_at es k' j" for k' j
    by (cases "j = i") (simp_all add: key_at_def full, simp add: es'_def)
  have ne: "he_state (es ! j) \<noteq> SLOT_EMPTY \<Longrightarrow> he_state (es' ! j) \<noteq> SLOT_EMPTY" for j
    using il by (auto simp: es'_def nth_list_update)
  show ok': "table_ok es'"
    using ok ne unfolding table_ok_def l key by blast
  have e: "{j. is_full es' j} = {j. is_full es j} - {i}" by (auto simp: full)
  have fin: "finite {j. is_full es j}" by (simp add: is_full_def)
  show "full_count es' = full_count es - 1" using il(2) fin e by (simp add: full_count_def)
  show "0 < full_count es" using il(2) fin by (auto simp: full_count_def card_gt_0_iff)
  show "table_map es' = (table_map es)(k := None)"
  proof
    fix k'
    show "table_map es' k' = ((table_map es)(k := None)) k'"
    proof (rule table_mapI [OF ok'])
      fix j assume "key_at es' k' j"
      then have j: "j \<noteq> i" "key_at es k' j" by (simp_all add: key)
      then have "k' \<noteq> k" using k ok by (auto simp: table_ok_def)
      then show "((table_map es)(k := None)) k' = Some (he_value (es' ! j))"
        using table_map_at [OF ok j(2)] j(1) by (simp add: es'_def)
    next
      assume a: "\<forall>i. \<not> key_at es' k' i"
      show "((table_map es)(k := None)) k' = None"
      proof (cases "k' = k")
        case False
        then have "\<forall>j. \<not> key_at es k' j" using a key k by (metis key_at_def)
        then show ?thesis using False table_map_None [of es k'] by simp
      qed simp
    qed
  qed
qed

lemma empty_table:
  assumes "length es = 2 ^ n" "n < 64" "es = replicate (length es) empty_entry"
  shows "table_ok es" "table_map es = Map.empty" "full_count es = 0"
proof -
  have st: "he_state (es ! i) = SLOT_EMPTY" if "i < length es" for i
    using assms(3) that by (metis nth_replicate empty_entry_def hashmap_entry.select_convs(3))
  then have nf: "\<not> is_full es i" for i by (auto simp: is_full_def)
  then show "table_ok es" using assms(1,2) by (auto simp: table_ok_def key_at_def)
  show "table_map es = Map.empty" using nf table_map_None [of es] by (auto simp: key_at_def)
  show "full_count es = 0" using nf by (simp add: full_count_def)
qed


section \<open>The operations\<close>

lemma hm_invE:
  assumes "hm_inv m"
  obtains es where "hm_entries m = Some es" "table_ok es" "hm_capacity m = length es" "hm_size m = full_count es"
    "hm_content m = table_map es" "0 < length es" "2 * length es \<le> 2 ^ 64"
  using assms table_len by (auto simp: hm_inv_def hm_content_def)

lemma full_count_le: "full_count es \<le> length es"
  using card_mono [of "{..<length es}" "{i. is_full es i}"] by (auto simp: full_count_def is_full_def)

lemma full_count_all: "\<forall>i < length es. is_full es i \<Longrightarrow> full_count es = length es"
proof -
  assume "\<forall>i < length es. is_full es i"
  then have "{i. is_full es i} = {..<length es}" by (auto simp: is_full_def)
  then show ?thesis by (simp add: full_count_def)
qed

lemma hm_size_le: "hm_inv m \<Longrightarrow> hm_size m \<le> hm_capacity m"
  using full_count_le by (auto simp: hm_inv_def)

lemma hashmap_probe_map:
  assumes "table_ok es"
  shows "\<exists>r. hashmap_probe es (length es - 1) (nth_slot es k 0) k (nth_slot es k 0) = Some r \<and>
           (case r of Some i \<Rightarrow> key_at es k i \<and> table_map es k = Some (he_value (es ! i)) \<and> load es i = Some (es ! i)
                    | None \<Rightarrow> table_map es k = None)"
proof -
  obtain r where r: "hashmap_probe es (length es - 1) (nth_slot es k 0) k (nth_slot es k 0) = Some r"
    "case r of Some i \<Rightarrow> key_at es k i | None \<Rightarrow> \<exists>m. key_absent_to es k m"
    using hashmap_probe_spec [OF assms, of 0 k] table_len [OF assms] by auto
  then show ?thesis
    using table_map_at [OF assms] key_absent [OF assms] table_map_None [of es k] key_at_full
    by (cases r) (auto simp: load_ok)
qed

lemma hashmap_get_spec:
  assumes "hm_inv m"
  shows "hashmap_get (Some m) k out =
           Some (hm_content m k \<noteq> None, case hm_content m k of Some v \<Rightarrow> map_option (\<lambda>_. v) out | None \<Rightarrow> out)"
proof -
  obtain es where es: "hm_entries m = Some es" "table_ok es" "hm_capacity m = length es"
    "hm_content m = table_map es" "0 < length es" using hm_invE [OF assms] by metis
  show ?thesis
    using es hashmap_probe_map [OF es(2), of k]
    by (auto simp: hashmap_get_def Let_def home_slot_eq [OF es(2), simplified] split: option.splits)
qed

lemma hashmap_update_spec:
  assumes "hm_inv m"
  shows "\<exists>m'. hashmap_update (Some m) k v = Some (k \<in> dom (hm_content m), Some m') \<and> hm_inv m' \<and>
           (if k \<in> dom (hm_content m) then hm_content m' = (hm_content m)(k \<mapsto> v) else m' = m)"
proof -
  obtain es where es: "hm_entries m = Some es" "table_ok es" "hm_capacity m = length es" "hm_size m = full_count es"
    "hm_content m = table_map es" "0 < length es" using hm_invE [OF assms] by metis
  obtain r where r: "hashmap_probe es (length es - 1) (nth_slot es k 0) k (nth_slot es k 0) = Some r"
    "case r of Some i \<Rightarrow> key_at es k i \<and> table_map es k = Some (he_value (es ! i)) \<and> load es i = Some (es ! i)
             | None \<Rightarrow> table_map es k = None" using hashmap_probe_map [OF es(2), of k] by blast
  show ?thesis
  proof (cases r)
    case None
    then show ?thesis using es r assms
      by (auto simp: hashmap_update_def Let_def home_slot_eq [OF es(2), simplified])
  next
    case (Some i)
    then have i: "key_at es k i" "i < length es" using r key_at_full by auto
    note o = overwrite_spec [OF es(2) i(1) refl, of v]
    let ?m = "m\<lparr>hm_entries := Some (es[i := (es ! i)\<lparr>he_value := v\<rparr>])\<rparr>"
    have "hashmap_update (Some m) k v = Some (True, Some ?m)"
      using es r i Some by (simp add: hashmap_update_def Let_def home_slot_eq [OF es(2), simplified] store_ok)
    moreover have "hm_inv ?m" "hm_content ?m = (hm_content m)(k \<mapsto> v)"
      using es o by (simp_all add: hm_inv_def hm_content_def)
    ultimately show ?thesis using r Some es(5) by auto
  qed
qed

lemma hashmap_remove_spec:
  assumes "hm_inv m"
  shows "\<exists>m'. hashmap_remove (Some m) k = Some (k \<in> dom (hm_content m), Some m') \<and> hm_inv m' \<and>
           hm_content m' = (hm_content m)(k := None)"
proof -
  obtain es where es: "hm_entries m = Some es" "table_ok es" "hm_capacity m = length es" "hm_size m = full_count es"
    "hm_content m = table_map es" "0 < length es" using hm_invE [OF assms] by metis
  obtain r where r: "hashmap_probe es (length es - 1) (nth_slot es k 0) k (nth_slot es k 0) = Some r"
    "case r of Some i \<Rightarrow> key_at es k i \<and> table_map es k = Some (he_value (es ! i)) \<and> load es i = Some (es ! i)
             | None \<Rightarrow> table_map es k = None" using hashmap_probe_map [OF es(2), of k] by blast
  show ?thesis
  proof (cases r)
    case None
    then have "(hm_content m)(k := None) = hm_content m" using r es(5) by (simp add: fun_upd_idem)
    then show ?thesis using es r assms None
      by (auto simp: hashmap_remove_def Let_def home_slot_eq [OF es(2), simplified])
  next
    case (Some i)
    then have i: "key_at es k i" "i < length es" using r key_at_full by auto
    note o = remove_spec [OF es(2) i(1) refl]
    let ?es = "es[i := \<lparr>he_key = 0, he_value = 0, he_state = SLOT_TOMBSTONE\<rparr>]"
    let ?m = "m\<lparr>hm_entries := Some ?es, hm_size := hm_size m - 1\<rparr>"
    have "hashmap_remove (Some m) k = Some (True, Some ?m)"
      using es r i Some o(4) by (simp add: hashmap_remove_def Let_def home_slot_eq [OF es(2), simplified] store_ok)
    moreover have "hm_inv ?m" "hm_content ?m = (hm_content m)(k := None)"
      using es o by (simp_all add: hm_inv_def hm_content_def)
    ultimately show ?thesis using r Some es(5) by auto
  qed
qed

lemma hashmap_insert_raw_spec:
  assumes "hm_inv m"
  shows "\<exists>ok m'. hashmap_insert_raw (Some m) k v = Some (ok, Some m') \<and> hm_inv m' \<and> hm_capacity m' = hm_capacity m \<and>
           (if ok then hm_content m' = (hm_content m)(k \<mapsto> v) \<and> hm_size m' \<le> hm_size m + 1 else m' = m) \<and>
           (hm_size m < hm_capacity m \<longrightarrow> ok)"
proof -
  obtain es where es: "hm_entries m = Some es" "table_ok es" "hm_capacity m = length es" "hm_size m = full_count es"
    "hm_content m = table_map es" "0 < length es" "2 * length es \<le> 2 ^ 64" using hm_invE [OF assms] by metis
  obtain r where r: "insert_probe es (length es - 1) (nth_slot es k 0) k (nth_slot es k 0) None = Some r" "insert_ok es k r"
    using insert_probe_spec [OF es(2), of 0 k None] es(6) by (auto simp: tomb_ok_def)
  show ?thesis
  proof (cases r)
    case (Overwrite i)
    then have i: "key_at es k i" "i < length es" using r key_at_full by (auto simp: insert_ok_def)
    note o = overwrite_spec [OF es(2) i(1) refl, of v]
    let ?m = "m\<lparr>hm_entries := Some (es[i := (es ! i)\<lparr>he_value := v\<rparr>])\<rparr>"
    have "hashmap_insert_raw (Some m) k v = Some (True, Some ?m)"
      using es r i Overwrite by (simp add: hashmap_insert_raw_def Let_def home_slot_eq [OF es(2), simplified] store_ok load_ok)
    moreover have "hm_inv ?m" "hm_content ?m = (hm_content m)(k \<mapsto> v)"
      using es o by (simp_all add: hm_inv_def hm_content_def)
    ultimately show ?thesis by (intro exI [of _ True] exI [of _ ?m]) simp
  next
    case (Fill i)
    then obtain n e where e: "key_absent_to es k n" "e < length es" "i = nth_slot es k e" "\<not> is_full es i"
      "\<forall>e' < e. he_state (es ! nth_slot es k e') \<noteq> SLOT_EMPTY" using r(2) by (auto simp: insert_ok_def)
    note o = fill_spec [OF es(2) key_absent [OF es(2) e(1)] e(2-5) refl, of v]
    have i: "i < length es" using e(3) nth_slot_less [OF es(6)] by simp
    have sz: "sz_add (hm_size m) 1 = hm_size m + 1"
      using es(4,7) full_count_le [of es] by (intro sz_add_exact) (simp add: SIZE_MAX_def)
    let ?m = "m\<lparr>hm_entries := Some (es[i := \<lparr>he_key = k, he_value = v, he_state = SLOT_FULL\<rparr>]), hm_size := hm_size m + 1\<rparr>"
    have "hashmap_insert_raw (Some m) k v = Some (True, Some ?m)"
      using es r i Fill sz by (simp add: hashmap_insert_raw_def Let_def home_slot_eq [OF es(2), simplified] store_ok)
    moreover have "hm_inv ?m" "hm_content ?m = (hm_content m)(k \<mapsto> v)"
      using es o by (simp_all add: hm_inv_def hm_content_def)
    ultimately show ?thesis by (intro exI [of _ True] exI [of _ ?m]) simp
  next
    case No_Slot
    then have "full_count es = length es" using r(2) full_count_all by (auto simp: insert_ok_def)
    then show ?thesis using es r No_Slot assms
      by (intro exI [of _ False] exI [of _ m]) (simp add: hashmap_insert_raw_def Let_def home_slot_eq [OF es(2), simplified])
  qed
qed

lemma next_pow2_loop_pow:
  assumes "j < 64"
  shows "\<exists>n < 64. next_pow2_loop (2 ^ j) v = 2 ^ n"
  using assms
proof (induction "63 - j" arbitrary: j rule: less_induct)
  case less
  show ?case
  proof (cases "(2::nat) ^ j < v \<and> j < 63")
    case True
    then have "(2::nat) ^ Suc j \<le> 2 ^ 63" by (intro power_increasing) simp_all
    then have "sz_mul (2 ^ j) 2 = 2 ^ Suc j" by (subst sz_mul_exact) (simp_all add: SIZE_MAX_def)
    moreover have "\<exists>n < 64. next_pow2_loop (2 ^ Suc j) v = 2 ^ n"
      using True by (intro less.hyps) auto
    ultimately show ?thesis using True by (subst next_pow2_loop.simps) (simp add: Let_def)
  next
    case False
    have "sz_mul (2 ^ 63) 2 = 0" by (simp add: sz_mul_def SIZE_MAX_def)
    moreover have "j = 63" if "(2::nat) ^ j < v" using False that less.prems by simp
    ultimately show ?thesis using less.prems by (subst next_pow2_loop.simps) (auto simp: Let_def)
  qed
qed

lemma next_pow2_loop_ge:
  assumes "j < 64" "v \<le> 2 ^ 63"
  shows "v \<le> next_pow2_loop (2 ^ j) v"
  using assms
proof (induction "63 - j" arbitrary: j rule: less_induct)
  case less
  show ?case
  proof (cases "(2::nat) ^ j < v")
    case True
    then have j: "j < 63" using less.prems power_increasing [of 63 j "2::nat"] by (cases "j < 63") simp_all
    then have "(2::nat) ^ Suc j \<le> 2 ^ 63" by (intro power_increasing) simp_all
    then have "sz_mul (2 ^ j) 2 = 2 ^ Suc j" by (subst sz_mul_exact) (simp_all add: SIZE_MAX_def)
    moreover have "v \<le> next_pow2_loop (2 ^ Suc j) v" using j less.prems(2) by (intro less.hyps) simp_all
    ultimately show ?thesis using True by (subst next_pow2_loop.simps) (simp add: Let_def)
  next
    case False
    then show ?thesis by (subst next_pow2_loop.simps) simp
  qed
qed

text \<open>The capacity a table is rounded to.\<close>

definition round_capacity :: "nat \<Rightarrow> nat" where
  "round_capacity c = (if \<not> is_power_of_two c then next_power_of_two c else c)"

lemma round_capacity_pow:
  assumes "c \<le> SIZE_MAX"
  shows "\<exists>n < 64. round_capacity c = 2 ^ n"
proof (cases "is_power_of_two c")
  case True
  then obtain n where n: "c = 2 ^ n" using and_pred_zero_power2 [of c] by (auto simp: is_power_of_two_def)
  have "n < 64"
  proof (rule ccontr)
    assume "\<not> n < 64"
    then have "(2::nat) ^ 64 \<le> 2 ^ n" by (intro power_increasing) simp_all
    then show False using n assms by (simp add: SIZE_MAX_def)
  qed
  then show ?thesis using True n by (auto simp: round_capacity_def)
next
  case False
  then show ?thesis
    using next_pow2_loop_pow [of 0 c] by (auto simp: round_capacity_def next_power_of_two_def intro: exI [of _ 0])
qed

lemma round_capacity_ge: "c \<le> 2 ^ 63 \<Longrightarrow> c \<le> round_capacity c"
  using next_pow2_loop_ge [of 0 c] by (simp add: round_capacity_def next_power_of_two_def)

lemma is_power_of_two_pow: "is_power_of_two (2 ^ n)"
proof -
  have "(2::nat) ^ n AND (2 ^ n - Suc 0) = 0" using and_mask_mod [of "2 ^ n" n] by simp
  then show ?thesis by (simp add: is_power_of_two_def)
qed

lemma fresh_table:
  assumes "n < 64"
  shows "hm_inv (m\<lparr>hm_entries := Some (replicate (2 ^ n) empty_entry), hm_capacity := 2 ^ n, hm_size := 0\<rparr>)"
    "hm_content (m\<lparr>hm_entries := Some (replicate (2 ^ n) empty_entry), hm_capacity := 2 ^ n, hm_size := 0\<rparr>) = Map.empty"
  using empty_table [of "replicate (2 ^ n) empty_entry" n] assms by (simp_all add: hm_inv_def hm_content_def)

text \<open>Rehashing keeps the map; it can only fail when the new table is too small.\<close>

lemma rehash_loop_spec:
  assumes ok: "table_ok es"
    and "hm_inv g" "i \<le> length es"
    and "hm_content g = (\<lambda>k. if \<exists>j < i. key_at es k j then table_map es k else None)"
    and "hm_size g \<le> card {j. j < i \<and> is_full es j}"
  shows "\<exists>r. rehash_loop es (length es) g i = Some r \<and>
           (case r of None \<Rightarrow> hm_capacity g < full_count es
            | Some g' \<Rightarrow> hm_inv g' \<and> hm_capacity g' = hm_capacity g \<and> hm_content g' = table_map es \<and> hm_size g' \<le> full_count es)"
  using assms(2-5)
proof (induction "length es - i" arbitrary: i g rule: less_induct)
  case less
  have fin: "finite {j. j < m \<and> is_full es j}" for m by simp
  show ?case
  proof (cases "i < length es")
    case False
    then have e: "i = length es" using less.prems(2) by simp
    have "table_map es k = None" if "\<forall>j < length es. \<not> key_at es k j" for k
      using that table_map_None [of es k] by (auto simp: key_at_def is_full_def)
    then have "hm_content g = table_map es" using less.prems(3) e by (intro ext) auto
    moreover have "{j. j < length es \<and> is_full es j} = {j. is_full es j}" by (auto simp: is_full_def)
    ultimately show ?thesis using less.prems e by (subst rehash_loop.simps) (simp add: full_count_def)
  next
    case True
    have ld: "load es i = Some (es ! i)" using True by (simp add: load_ok)
    have dec: "length es - (i + 1) < length es - i" using True by simp
    show ?thesis
    proof (cases "is_full es i")
      case False
      then have st: "he_state (es ! i) \<noteq> SLOT_FULL" using True by (simp add: is_full_def)
      have below: "{j. j < i + 1 \<and> is_full es j} = {j. j < i \<and> is_full es j}" using False by (auto simp: less_Suc_eq)
      have keys: "(\<exists>j < i + 1. key_at es k j) = (\<exists>j < i. key_at es k j)" for k
        using False by (auto simp: less_Suc_eq key_at_def)
      have "\<exists>r. rehash_loop es (length es) g (i + 1) = Some r \<and>
           (case r of None \<Rightarrow> hm_capacity g < full_count es
            | Some g' \<Rightarrow> hm_inv g' \<and> hm_capacity g' = hm_capacity g \<and> hm_content g' = table_map es \<and> hm_size g' \<le> full_count es)"
      proof (rule less.hyps [OF dec less.prems(1)])
        show "i + 1 \<le> length es" using True by simp
        show "hm_content g = (\<lambda>k. if \<exists>j < i + 1. key_at es k j then table_map es k else None)"
          unfolding keys by (rule less.prems(3))
        show "hm_size g \<le> card {j. j < i + 1 \<and> is_full es j}" unfolding below by (rule less.prems(4))
      qed
      then show ?thesis using True ld st by (subst rehash_loop.simps) simp
    next
      case full: True
      let ?k = "he_key (es ! i)" and ?v = "he_value (es ! i)"
      have key: "key_at es ?k i" using full by (simp add: key_at_def)
      have st: "he_state (es ! i) = SLOT_FULL" using full by (simp add: is_full_def)
      have set1: "{j. j < i + 1 \<and> is_full es j} = insert i {j. j < i \<and> is_full es j}" using full by (auto simp: less_Suc_eq)
      have card1: "card {j. j < i + 1 \<and> is_full es j} = card {j. j < i \<and> is_full es j} + 1" unfolding set1 using fin by simp
      have fc: "card {j. j < i \<and> is_full es j} < full_count es"
        unfolding full_count_def
      proof (rule psubset_card_mono [OF finite_full])
        have "i \<in> {j. is_full es j}" "i \<notin> {j. j < i \<and> is_full es j}" using full by simp_all
        then show "{j. j < i \<and> is_full es j} \<subset> {j. is_full es j}" by blast
      qed
      obtain b g1 where g1: "hashmap_insert_raw (Some g) ?k ?v = Some (b, Some g1)" "hm_inv g1" "hm_capacity g1 = hm_capacity g"
        "if b then hm_content g1 = (hm_content g)(?k \<mapsto> ?v) \<and> hm_size g1 \<le> hm_size g + 1 else g1 = g"
        "hm_size g < hm_capacity g \<longrightarrow> b"
        using hashmap_insert_raw_spec [OF less.prems(1), of ?k ?v] by blast
      show ?thesis
      proof (cases b)
        case no: False
        then have "hm_capacity g < full_count es" using g1(5) less.prems(4) fc by simp
        then show ?thesis using True ld st g1(1) no by (subst rehash_loop.simps) simp
      next
        case yes: True
        have ct: "hm_content g1 = (\<lambda>k. if \<exists>j < i + 1. key_at es k j then table_map es k else None)"
        proof
          fix k
          have c1: "hm_content g1 = (hm_content g)(?k \<mapsto> ?v)" using g1(4) yes by simp
          show "hm_content g1 k = (if \<exists>j < i + 1. key_at es k j then table_map es k else None)"
          proof (cases "k = ?k")
            case True
            have "\<exists>j < i + 1. key_at es k j" unfolding True by (intro exI [of _ i] conjI key) simp
            moreover have "hm_content g1 k = table_map es k"
              unfolding True c1 table_map_at [OF ok key] by simp
            ultimately show ?thesis by (simp only: if_True)
          next
            case False
            then have iff: "(\<exists>j < i + 1. key_at es k j) = (\<exists>j < i. key_at es k j)"
              by (auto simp: less_Suc_eq key_at_def)
            have same: "hm_content g1 k = hm_content g k" using False by (simp add: c1)
            show ?thesis unfolding iff same by (rule fun_cong [OF less.prems(3)])
          qed
        qed
        have sz: "hm_size g1 \<le> card {j. j < i + 1 \<and> is_full es j}"
          using g1(4) yes less.prems(4) unfolding card1 by simp
        have "\<exists>r. rehash_loop es (length es) g1 (i + 1) = Some r \<and>
           (case r of None \<Rightarrow> hm_capacity g1 < full_count es
            | Some g' \<Rightarrow> hm_inv g' \<and> hm_capacity g' = hm_capacity g1 \<and> hm_content g' = table_map es \<and> hm_size g' \<le> full_count es)"
          using less.hyps [OF dec g1(2) _ ct sz] True by simp
        then show ?thesis unfolding g1(3) using True ld st g1(1) yes by (subst rehash_loop.simps) simp
      qed
    qed
  qed
qed

lemma hashmap_rehash_spec:
  assumes inv: "hm_inv m" and c: "c \<le> SIZE_MAX"
  shows "\<exists>ok m'. hashmap_rehash calloc_ok (Some m) c = Some (ok, Some m') \<and> hm_inv m' \<and> hm_content m' = hm_content m \<and>
           (if ok then hm_capacity m' = round_capacity c \<and> hm_size m' \<le> hm_size m else m' = m) \<and>
           (calloc_ok (round_capacity c) \<and> hm_size m \<le> round_capacity c \<longrightarrow> ok)"
proof -
  obtain es where es: "hm_entries m = Some es" "table_ok es" "hm_capacity m = length es" "hm_size m = full_count es"
    "hm_content m = table_map es" using hm_invE [OF inv] by metis
  obtain n where n: "n < 64" "round_capacity c = 2 ^ n" using round_capacity_pow [OF c] by blast
  let ?g = "m\<lparr>hm_entries := Some (replicate (2 ^ n) empty_entry), hm_capacity := 2 ^ n, hm_size := 0\<rparr>"
  note f = fresh_table [OF n(1), of m]
  obtain r where r: "rehash_loop es (length es) ?g 0 = Some r"
    "case r of None \<Rightarrow> hm_capacity ?g < full_count es
     | Some g' \<Rightarrow> hm_inv g' \<and> hm_capacity g' = hm_capacity ?g \<and> hm_content g' = table_map es \<and> hm_size g' \<le> full_count es"
    using rehash_loop_spec [OF es(2) f(1), of 0] f(2) by auto
  have run: "hashmap_rehash calloc_ok (Some m) c =
      (if \<not> calloc_ok (2 ^ n) then Some (False, Some m)
       else case r of None \<Rightarrow> Some (False, Some m)
            | Some g \<Rightarrow> Some (True, Some (m\<lparr>hm_entries := hm_entries g, hm_capacity := hm_capacity g, hm_size := hm_size g\<rparr>)))"
    unfolding hashmap_rehash_def option.case Let_def round_capacity_def [symmetric] n(2) es(1,3)
    using r(1) by simp
  show ?thesis
  proof (cases "calloc_ok (2 ^ n) \<and> r \<noteq> None")
    case True
    then obtain g where g: "r = Some g" by blast
    let ?m = "m\<lparr>hm_entries := hm_entries g, hm_capacity := hm_capacity g, hm_size := hm_size g\<rparr>"
    have "hashmap_rehash calloc_ok (Some m) c = Some (True, Some ?m)" using run True g by simp
    moreover have "hm_inv ?m" "hm_content ?m = hm_content m" "hm_capacity ?m = round_capacity c" "hm_size ?m \<le> hm_size m"
      using r(2) g es(4,5) n(2) by (auto simp: hm_inv_def hm_content_def)
    ultimately show ?thesis by (intro exI [of _ True] exI [of _ ?m]) simp
  next
    case False
    then have "hashmap_rehash calloc_ok (Some m) c = Some (False, Some m)" using run by (auto split: option.splits)
    moreover have "\<not> (calloc_ok (round_capacity c) \<and> hm_size m \<le> round_capacity c)"
      using False r(2) es(4) n(2) by (auto split: option.splits)
    ultimately show ?thesis using inv by (intro exI [of _ False] exI [of _ m]) simp
  qed
qed

lemma sz_mul_le_mult: "sz_mul a b \<le> a * b"
  by (simp add: sz_mul_def)

lemma double_capacity:
  assumes "hm_inv m" "hm_capacity m \<le> 2 ^ 62"
  shows "sz_mul (hm_capacity m) 2 = 2 * hm_capacity m" "round_capacity (2 * hm_capacity m) = 2 * hm_capacity m"
proof -
  show "sz_mul (hm_capacity m) 2 = 2 * hm_capacity m" using assms(2) by (subst sz_mul_exact) (simp_all add: SIZE_MAX_def)
  obtain n where "hm_capacity m = 2 ^ n" using assms(1) by (auto simp: hm_inv_def table_ok_def)
  then show "round_capacity (2 * hm_capacity m) = 2 * hm_capacity m"
    using is_power_of_two_pow [of "Suc n"] by (simp add: round_capacity_def)
qed

text \<open>The part of \<open>hashmap_set\<close> after a failed update: grow when the load would pass the limit, then insert.\<close>

lemma hashmap_set_new_spec:
  assumes inv: "hm_inv m"
  defines "next \<equiv> sz_mul (hm_capacity m) 2" and "limit \<equiv> sz_mul (hm_capacity m) HASHMAP_LOAD_NUM div HASHMAP_LOAD_DEN"
  shows "\<exists>b m1. (if limit < sz_add (hm_size m) 1 then hashmap_rehash co (Some m) next else Some (True, Some m)) = Some (b, Some m1) \<and>
           hm_inv m1 \<and> hm_content m1 = hm_content m \<and>
           ((\<forall>n. co n) \<and> hm_capacity m \<le> 2 ^ 62 \<longrightarrow> b \<and> hm_size m1 < hm_capacity m1)"
proof (cases "limit < sz_add (hm_size m) 1")
  case True
  have nm: "next \<le> SIZE_MAX" by (simp add: next_def)
  obtain b m1 where m1: "hashmap_rehash co (Some m) next = Some (b, Some m1)" "hm_inv m1" "hm_content m1 = hm_content m"
    "if b then hm_capacity m1 = round_capacity next \<and> hm_size m1 \<le> hm_size m else m1 = m"
    "co (round_capacity next) \<and> hm_size m \<le> round_capacity next \<longrightarrow> b"
    using hashmap_rehash_spec [OF inv nm, of co] by blast
  have "b \<and> hm_size m1 < hm_capacity m1" if "\<forall>n. co n" "hm_capacity m \<le> 2 ^ 62"
  proof -
    have r: "round_capacity next = 2 * hm_capacity m" using double_capacity [OF inv that(2)] by (simp add: next_def)
    have "0 < hm_capacity m" using hm_invE [OF inv] by metis
    then show ?thesis using m1(4,5) r that(1) hm_size_le [OF inv] by auto
  qed
  then show ?thesis using True m1 by auto
next
  case False
  have "limit \<le> hm_capacity m"
    using sz_mul_le_mult [of "hm_capacity m" 7] by (simp add: limit_def HASHMAP_LOAD_NUM_def HASHMAP_LOAD_DEN_def)
  moreover have "2 * hm_capacity m \<le> 2 ^ 64" using hm_invE [OF inv] by metis
  then have "sz_add (hm_size m) 1 = hm_size m + 1"
    using hm_size_le [OF inv] by (intro sz_add_exact) (simp add: SIZE_MAX_def)
  ultimately show ?thesis using False inv by auto
qed

lemma hashmap_set_spec:
  assumes inv: "hm_inv m"
  shows "\<exists>ok m'. hashmap_set co (Some m) k v = Some (ok, Some m') \<and> hm_inv m' \<and>
           hm_content m' = (if ok then (hm_content m)(k \<mapsto> v) else hm_content m) \<and>
           (k \<in> dom (hm_content m) \<or> (\<forall>n. co n) \<and> hm_capacity m \<le> 2 ^ 62 \<longrightarrow> ok)"
proof -
  let ?next = "sz_mul (hm_capacity m) 2"
  obtain es where ne: "hm_entries m = Some es" "0 < hm_capacity m" using hm_invE [OF inv] by metis
  obtain m0 where u: "hashmap_update (Some m) k v = Some (k \<in> dom (hm_content m), Some m0)" "hm_inv m0"
    "if k \<in> dom (hm_content m) then hm_content m0 = (hm_content m)(k \<mapsto> v) else m0 = m"
    using hashmap_update_spec [OF inv, of k v] by blast
  show ?thesis
  proof (cases "k \<in> dom (hm_content m)")
    case True
    then have "hashmap_set co (Some m) k v = Some (True, Some m0)" using u(1) ne by (simp add: hashmap_set_def)
    then show ?thesis using u True by auto
  next
    case new: False
    obtain b m1 where m1: "(if sz_mul (hm_capacity m) HASHMAP_LOAD_NUM div HASHMAP_LOAD_DEN < sz_add (hm_size m) 1
        then hashmap_rehash co (Some m) ?next else Some (True, Some m)) = Some (b, Some m1)" "hm_inv m1" "hm_content m1 = hm_content m"
      "(\<forall>n. co n) \<and> hm_capacity m \<le> 2 ^ 62 \<longrightarrow> b \<and> hm_size m1 < hm_capacity m1"
      using hashmap_set_new_spec [OF inv, of co] by blast
    obtain c m2 where m2: "hashmap_insert_raw (Some m1) k v = Some (c, Some m2)" "hm_inv m2"
      "if c then hm_content m2 = (hm_content m1)(k \<mapsto> v) \<and> hm_size m2 \<le> hm_size m1 + 1 else m2 = m1" "hm_size m1 < hm_capacity m1 \<longrightarrow> c"
      using hashmap_insert_raw_spec [OF m1(2), of k v] by blast
    have ne1: "0 < hm_capacity m1" using hm_invE [OF m1(2)] by metis
    have u': "hashmap_update (Some m) k v = Some (False, Some m)" using u new by simp
    have run: "hashmap_set co (Some m) k v =
        (if \<not> b then Some (False, Some m1)
         else if c then Some (True, Some m2)
         else do { (d, h) \<leftarrow> hashmap_rehash co (Some m1) (sz_mul (hm_capacity m1) 2);
                   if \<not> d then Some (False, h) else hashmap_insert_raw h k v })"
      using ne ne1 u' m1(1) m2(1,3)
      by (cases "sz_mul (hm_capacity m) HASHMAP_LOAD_NUM div HASHMAP_LOAD_DEN < sz_add (hm_size m) 1"; cases b; cases c)
        (simp_all add: hashmap_set_def Let_def)
    consider "\<not> b" | "b" "c" | "b" "\<not> c" by blast
    then show ?thesis
    proof cases
      case 1
      then show ?thesis using run m1 new by (intro exI [of _ False] exI [of _ m1]) auto
    next
      case 2
      then show ?thesis using run m1 m2 by (intro exI [of _ True] exI [of _ m2]) auto
    next
      case 3
      then have nok: "\<not> ((\<forall>n. co n) \<and> hm_capacity m \<le> 2 ^ 62)" using m1(4) m2(4) by blast
      obtain d m3 where m3: "hashmap_rehash co (Some m1) (sz_mul (hm_capacity m1) 2) = Some (d, Some m3)" "hm_inv m3"
        "hm_content m3 = hm_content m1"
        using hashmap_rehash_spec [OF m1(2), of "sz_mul (hm_capacity m1) 2" co] by auto
      obtain e m4 where m4: "hashmap_insert_raw (Some m3) k v = Some (e, Some m4)" "hm_inv m4"
        "if e then hm_content m4 = (hm_content m3)(k \<mapsto> v) \<and> hm_size m4 \<le> hm_size m3 + 1 else m4 = m3"
        using hashmap_insert_raw_spec [OF m3(2), of k v] by blast
      have r: "hashmap_set co (Some m) k v = (if \<not> d then Some (False, Some m3) else Some (e, Some m4))"
        using run 3 m3(1) m4(1) by simp
      show ?thesis
      proof (cases "d \<and> e")
        case True
        then show ?thesis using r m4 m3(3) m1(3) by (intro exI [of _ True] exI [of _ m4]) simp
      next
        case False
        then have "hashmap_set co (Some m) k v = Some (False, Some m3)" using r m4(3) by auto
        then show ?thesis using m3 m1(3) new nok by (intro exI [of _ False] exI [of _ m3]) simp
      qed
    qed
  qed
qed



section \<open>Creation, clearing and reserving\<close>

lemma hashmap_create_sized_spec:
  assumes "hashmap_create_sized node_ok co c = Some m" "c \<le> SIZE_MAX"
  shows "hm_inv m" "hm_content m = Map.empty"
proof -
  let ?c = "if c = 0 then HASHMAP_INITIAL_CAPACITY else c"
  have "?c \<le> SIZE_MAX" using assms(2) by (simp add: HASHMAP_INITIAL_CAPACITY_def SIZE_MAX_def)
  then obtain n where n: "n < 64" "round_capacity ?c = 2 ^ n" using round_capacity_pow by blast
  have m: "m = \<lparr>hm_size = 0, hm_capacity = 2 ^ n, hm_entries = Some (replicate (2 ^ n) empty_entry)\<rparr>"
    using assms(1) unfolding hashmap_create_sized_def Let_def round_capacity_def [symmetric] n(2)
    by (simp split: if_splits)
  show "hm_inv m" "hm_content m = Map.empty" using fresh_table [OF n(1), of m] by (simp_all add: m)
qed

lemma hashmap_clear_spec:
  assumes "hm_inv m"
  shows "\<exists>m'. hashmap_clear (Some m) = Some (Some m') \<and> hm_inv m' \<and> hm_content m' = Map.empty \<and> hm_capacity m' = hm_capacity m"
proof -
  obtain es where es: "hm_entries m = Some es" "table_ok es" "hm_capacity m = length es" "0 < length es"
    using hm_invE [OF assms] by metis
  obtain n where n: "n < 64" "length es = 2 ^ n" using es(2) by (auto simp: table_ok_def)
  have same: "m\<lparr>hm_entries := e, hm_capacity := 2 ^ n, hm_size := z\<rparr> = m\<lparr>hm_entries := e, hm_size := z\<rparr>" for e z
    using es(3) n(2) by (cases m) simp
  show ?thesis using fresh_table [OF n(1), of m] es n(2) unfolding same
    by (simp add: hashmap_clear_def memset_ok)
qed

lemma hashmap_reserve_spec:
  assumes inv: "hm_inv m" and c: "c \<le> SIZE_MAX"
  shows "\<exists>ok m'. hashmap_reserve co (Some m) c = Some (ok, Some m') \<and> hm_inv m' \<and> hm_content m' = hm_content m \<and>
           (if ok then c \<le> 2 ^ 63 \<longrightarrow> c \<le> hm_capacity m' else m' = m)"
proof -
  define needed where "needed = sz_sub (sz_add (sz_mul (hm_size m) HASHMAP_LOAD_DEN) HASHMAP_LOAD_NUM) 1 div HASHMAP_LOAD_NUM"
  define c' where "c' = (if 0 < hm_size m \<and> c < needed then needed else c)"
  have "needed \<le> SIZE_MAX div HASHMAP_LOAD_NUM" unfolding needed_def by (rule div_le_mono) simp
  then have small: "needed \<le> 2 ^ 63" by (simp add: SIZE_MAX_def HASHMAP_LOAD_NUM_def)
  then have c': "c' \<le> SIZE_MAX" "c \<le> c'" using c by (simp_all add: c'_def SIZE_MAX_def)
  have run: "hashmap_reserve co (Some m) c =
      (if c' \<le> hm_capacity m then Some (True, Some m) else hashmap_rehash co (Some m) c')"
    by (simp add: hashmap_reserve_def Let_def c'_def needed_def)
  show ?thesis
  proof (cases "c' \<le> hm_capacity m")
    case True
    then show ?thesis using run inv c'(2) by auto
  next
    case False
    obtain ok m' where m': "hashmap_rehash co (Some m) c' = Some (ok, Some m')" "hm_inv m'" "hm_content m' = hm_content m"
      "if ok then hm_capacity m' = round_capacity c' \<and> hm_size m' \<le> hm_size m else m' = m"
      using hashmap_rehash_spec [OF inv c'(1), of co] by blast
    have "c \<le> round_capacity c'" if "c \<le> 2 ^ 63"
      using that small round_capacity_ge [of c'] c'(2) by (auto simp: c'_def)
    then show ?thesis using run False m' by (intro exI [of _ ok] exI [of _ m']) simp
  qed
qed


section \<open>The map contract\<close>

definition hmp_inv :: "hashmap ptr \<Rightarrow> bool" where
  "hmp_inv hm = (case hm of None \<Rightarrow> False | Some m \<Rightarrow> hm_inv m)"

definition hmp_content :: "hashmap ptr \<Rightarrow> u64 \<rightharpoonup> u64" where
  "hmp_content hm = (case hm of None \<Rightarrow> Map.empty | Some m \<Rightarrow> hm_content m)"

text \<open>What a caller of \<open>hashmap_get\<close> reads: the value left in its variable when the call returns true.\<close>

definition hashmap_lookup :: "hashmap ptr \<Rightarrow> u64 \<Rightarrow> u64 option exec" where
  "hashmap_lookup hm key = do { (found, out) \<leftarrow> hashmap_get hm key (Some 0); Some (if found then out else None) }"

lemma hashmap_lookup_spec: "hm_inv m \<Longrightarrow> hashmap_lookup (Some m) k = Some (hm_content m k)"
  by (simp add: hashmap_lookup_def hashmap_get_spec split: option.splits)

interpretation int_map: fallible_map hmp_inv hmp_content "\<lambda>_. True" "hashmap_set co" hashmap_lookup hashmap_remove
  for co
proof unfold_locales
  fix hm :: "hashmap ptr" and k v
  assume "hmp_inv hm"
  then obtain m where m: "hm = Some m" "hm_inv m" by (auto simp: hmp_inv_def split: option.splits)
  note setm = hashmap_set_spec [OF m(2), of co k v]
  show "\<exists>ok hm'. hashmap_set co hm k v = Some (ok, hm') \<and> hmp_inv hm' \<and>
      hmp_content hm' = (if ok then (hmp_content hm)(k \<mapsto> v) else hmp_content hm)"
    using setm by (auto simp: m(1) hmp_inv_def hmp_content_def)
  show "hashmap_lookup hm k = Some (hmp_content hm k)"
    using hashmap_lookup_spec [OF m(2)] by (simp add: m(1) hmp_content_def)
  show "\<exists>hm'. hashmap_remove hm k = Some (k \<in> dom (hmp_content hm), hm') \<and> hmp_inv hm' \<and>
      hmp_content hm' = (hmp_content hm)(k := None)"
    using hashmap_remove_spec [OF m(2), of k] by (auto simp: m(1) hmp_inv_def hmp_content_def)
  show "\<exists>hm'. hashmap_set co hm k v = Some (True, hm')" if "k \<in> dom (hmp_content hm)"
    using setm that by (auto simp: m(1) hmp_content_def)
qed


section \<open>Properties\<close>



text \<open>
  (C34) \<open>hashmap_set\<close> always returns and keeps the table well formed. If it reports failure every
  key still maps to what it did before, even when a rehash had already succeeded; if it reports success only
  the given key changed. It succeeds when the key is already present, and, up to a capacity of
  \<open>2 ^ 62\<close> slots, whenever the allocator does.
\<close>

theorem hashmap_set_total:
  assumes "hm_inv m"
  shows "\<exists>ok m'. hashmap_set co (Some m) k v = Some (ok, Some m') \<and> hm_inv m' \<and>
           (\<forall>k'. hashmap_get (Some m') k' (Some d) =
              (if ok \<and> k' = k then Some (True, Some v) else hashmap_get (Some m) k' (Some d))) \<and>
           (\<not> ok \<longrightarrow> hashmap_get (Some m) k (Some d) = Some (False, Some d) \<and> \<not> ((\<forall>n. co n) \<and> hm_capacity m \<le> 2 ^ 62))"
proof -
  obtain ok m' where s: "hashmap_set co (Some m) k v = Some (ok, Some m')" "hm_inv m'"
    "hm_content m' = (if ok then (hm_content m)(k \<mapsto> v) else hm_content m)"
    "k \<in> dom (hm_content m) \<or> (\<forall>n. co n) \<and> hm_capacity m \<le> 2 ^ 62 \<longrightarrow> ok"
    using hashmap_set_spec [OF assms, of co k v] by blast
  have "hashmap_get (Some m') k' (Some d) = (if ok \<and> k' = k then Some (True, Some v) else hashmap_get (Some m) k' (Some d))" for k'
    using s(3) hashmap_get_spec [OF assms] hashmap_get_spec [OF s(2)] by simp
  moreover have "hashmap_get (Some m) k (Some d) = Some (False, Some d)" if "\<not> ok"
    using that s(4) hashmap_get_spec [OF assms, of k "Some d"] by (simp add: domIff)
  ultimately show ?thesis using s by blast
qed

theorem hashmap_set_total_witness:
  "\<exists>m ok m'. hashmap_create_sized True (\<lambda>_. True) 2 = Some m \<and> hashmap_set (\<lambda>_. False) (Some m) 7 8 = Some (ok, Some m') \<and>
     hashmap_get (Some m') 9 (Some 3) = hashmap_get (Some m) 9 (Some 3)"
proof -
  obtain m where m: "hashmap_create_sized True (\<lambda>_. True) 2 = Some m"
    by (simp add: hashmap_create_sized_def is_power_of_two_def Let_def)
  have "hm_inv m" by (rule hashmap_create_sized_spec [OF m]) (simp add: SIZE_MAX_def)
  from hashmap_set_total [OF this, of "\<lambda>_. False" 7 8 3] m show ?thesis by fastforce
qed

text \<open>
  (C35) \<open>hashmap_reserve\<close> keeps the content of the map on every path; when it reports success for a request of at most
  \<open>2 ^ 63\<close> slots the table has at least that many, and when it fails the map is untouched.
\<close>

theorem hashmap_reserve_bounds:
  assumes "hm_inv m" "c \<le> SIZE_MAX"
  shows "\<exists>ok m'. hashmap_reserve co (Some m) c = Some (ok, Some m') \<and> hm_inv m' \<and>
           (\<forall>k out. hashmap_get (Some m') k out = hashmap_get (Some m) k out) \<and>
           (if ok then c \<le> 2 ^ 63 \<longrightarrow> c \<le> hm_capacity m' else m' = m)"
proof -
  obtain ok m' where r: "hashmap_reserve co (Some m) c = Some (ok, Some m')" "hm_inv m'" "hm_content m' = hm_content m"
    "if ok then c \<le> 2 ^ 63 \<longrightarrow> c \<le> hm_capacity m' else m' = m"
    using hashmap_reserve_spec [OF assms, of co] by blast
  then show ?thesis using hashmap_get_spec [OF assms(1)] hashmap_get_spec [OF r(2)]
    by (intro exI [of _ ok] exI [of _ m']) simp
qed

theorem hashmap_reserve_bounds_witness:
  "\<exists>m m'. hashmap_create_sized True (\<lambda>_. True) 2 = Some m \<and> hashmap_reserve (\<lambda>_. True) (Some m) 5 = Some (True, Some m') \<and>
     5 \<le> hm_capacity m'"
proof -
  obtain m where m: "hashmap_create_sized True (\<lambda>_. True) 2 = Some m"
    by (simp add: hashmap_create_sized_def is_power_of_two_def Let_def)
  have inv: "hm_inv m" by (rule hashmap_create_sized_spec [OF m]) (simp add: SIZE_MAX_def)
  have "map_option fst (do { m \<leftarrow> hashmap_create_sized True (\<lambda>_. True) 2; hashmap_reserve (\<lambda>_. True) (Some m) 5 }) = Some True"
    by code_simp
  then have "map_option fst (hashmap_reserve (\<lambda>_. True) (Some m) 5) = Some True" by (simp add: m)
  then show ?thesis using hashmap_reserve_bounds [OF inv, of 5 "\<lambda>_. True"] m by (auto simp: SIZE_MAX_def)
qed

end
