(* ===== verification/Sched_State.thy ===== *)
theory Sched_State
  imports Prelude
begin

text \<open>
  The state of the scheduler (\<open>kernel/sched/scheduler.h\<close>, \<open>kernel/sched/internal.h\<close>) and its
  inline accessors.

  \<^item> A \<open>sched_thread_t *\<close> is the address \<open>tid\<close> of a thread; the threads live in a store
    from addresses to records, so that two pointers to one thread see each other's writes.
  \<^item> The arrays of the scheduler are lists accessed with bounds checks.
  \<^item> The functions run under the scheduler lock, so each is one step: locks and memory orders are
    not part of the state. A panic is the value None, as an access out of bounds is.
  \<^item> \<open>sched_env\<close> holds what the scheduler reads and does not change: the cores and
    the answers of the architecture layer.
\<close>

type_synonym tid = nat
type_synonym pid_t = int

definition UINT32_MAX :: nat where "UINT32_MAX = 4294967295"
definition MAX_CORES :: size_t where "MAX_CORES = 64"
definition SCHED_RQ_CAPACITY :: size_t where "SCHED_RQ_CAPACITY = 4096"
definition SCHED_SLEEP_CAPACITY :: size_t where "SCHED_SLEEP_CAPACITY = SCHED_RQ_CAPACITY"
definition SCHED_LATENCY_NS :: u64 where "SCHED_LATENCY_NS = 12000000"
definition SCHED_MIN_GRANULARITY_NS :: u64 where "SCHED_MIN_GRANULARITY_NS = 1000000"
definition SCHED_IDLE_STEAL_BATCH :: nat where "SCHED_IDLE_STEAL_BATCH = 2"
definition SCHED_PUSH_BATCH :: nat where "SCHED_PUSH_BATCH = 2"
definition SCHED_WAKE_LOAD_SLOP :: nat where "SCHED_WAKE_LOAD_SLOP = 2"

text \<open>\<open>u32\<close> indices are natural numbers with the wrap-around written out.\<close>

definition u32_add :: "nat \<Rightarrow> nat \<Rightarrow> nat" where "u32_add a b = (a + b) mod (UINT32_MAX + 1)"
definition u32_mul :: "nat \<Rightarrow> nat \<Rightarrow> nat" where "u32_mul a b = (a * b) mod (UINT32_MAX + 1)"
definition to_u32 :: "nat \<Rightarrow> nat" where "to_u32 n = n mod (UINT32_MAX + 1)"

definition to_int :: "nat \<Rightarrow> int" where
  "to_int n = (if to_u32 n < 2 ^ 31 then int (to_u32 n) else int (to_u32 n) - 2 ^ 32)"

datatype thread_state = THREAD_READY | THREAD_RUNNING | THREAD_SLEEPING | THREAD_STOPPED | THREAD_ZOMBIE

record sched_thread =
  th_state :: thread_state
  th_affinity_core :: size_t
  th_last_cpu :: size_t
  th_allowed_cpu_mask :: u64
  th_affinity_user_set :: bool
  th_vruntime_ns :: u64
  th_sum_exec_ns :: u64
  th_in_run_queue :: bool
  th_on_rq :: bool
  th_rq_index :: nat
  th_context :: u64
  th_user_thread :: bool
  th_pid :: pid_t
  th_ppid :: pid_t
  th_pgid :: pid_t
  th_sid :: pid_t
  th_did_exec :: bool
  th_ruid :: u32
  th_uid :: u32
  th_suid :: u32
  th_rgid :: u32
  th_gid :: u32
  th_sgid :: u32
  th_groups :: "u32 list"
  th_group_count :: size_t
  th_umask :: u32
  th_exit_code :: int
  th_exit_signal :: int
  th_in_wait_queue :: bool
  th_blocked_on :: "nat ptr"
  th_in_zombie_list :: bool
  th_in_all_list :: bool
  th_refcount :: u32
  th_lifecycle_flags :: u32
  th_in_reap_list :: bool
  th_wake_tick :: u64
  th_sleep_queued :: bool
  th_sleep_index :: size_t
  th_wait_deadline_tick :: u64
  th_wait_flags :: u32
  th_wait_result :: u8
  th_wait_cookie :: u8
  th_signal_pending :: u32
  th_signal_mask :: u32
  th_current_signal :: u32
  th_stop_signal :: int
  th_stop_reported :: bool
  th_signal_saved_valid :: u32
  th_signal_trampoline :: u64
  th_signal_saved_state :: u64
  th_signal_handlers :: "u64 list"
  th_tty_index :: int
  th_running_cpu :: int

type_synonym thread_store = "tid \<Rightarrow> sched_thread"

record sched_rq =
  rq_heap :: "tid ptr list ptr"
  rq_capacity :: nat
  rq_nr_running :: size_t
  rq_min_vruntime :: u64

record sched_cpu =
  cpu_current :: "tid ptr"
  cpu_idle_thread :: "tid ptr"
  cpu_handoff_ready :: "tid ptr"
  cpu_preempt_depth :: size_t
  cpu_sched_lock_depth :: size_t
  cpu_slice_ns :: u64
  cpu_need_resched :: bool
  cpu_force_resched :: bool
  cpu_resched_irq :: bool

record sched_metrics =
  m_migrations :: u64
  m_steals :: u64
  m_wake_ipi :: u64
  m_runqueue_max :: u64
  m_balance_runs :: u64
  m_wait_timeout_count :: u64

record sched_sleep =
  sl_heap :: "tid ptr list"
  sl_count :: size_t

record sched_state =
  threads :: thread_store
  all_list :: "tid list ptr"
  runqueues :: "sched_rq list"
  wake_rr_cursor :: u32
  cpus :: "sched_cpu list"
  sleep :: sched_sleep
  metrics :: sched_metrics
  running :: bool

record cpu_core =
  core_valid :: bool
  core_online :: bool

record sched_env =
  env_cpu_id :: size_t
  env_core_count :: size_t
  env_cores_local :: "cpu_core list"
  env_irq_enabled :: bool
  env_resched_cpu :: "size_t \<Rightarrow> bool"

definition upd_thread :: "tid \<Rightarrow> (sched_thread \<Rightarrow> sched_thread) \<Rightarrow> sched_state \<Rightarrow> sched_state" where
  "upd_thread t f s = s\<lparr>threads := (threads s)(t := f (threads s t))\<rparr>"

definition upd_metrics :: "(sched_metrics \<Rightarrow> sched_metrics) \<Rightarrow> sched_state \<Rightarrow> sched_state" where
  "upd_metrics f s = s\<lparr>metrics := f (metrics s)\<rparr>"

definition upd_cpu :: "size_t \<Rightarrow> (sched_cpu \<Rightarrow> sched_cpu) \<Rightarrow> sched_state \<Rightarrow> sched_state exec" where
  "upd_cpu c f s = do { cpu \<leftarrow> load (cpus s) c; cs \<leftarrow> store (cpus s) c (f cpu); Some (s\<lparr>cpus := cs\<rparr>) }"


section \<open>Accessors of internal.h\<close>

definition thread_get_state :: "sched_state \<Rightarrow> tid ptr \<Rightarrow> thread_state" where
  "thread_get_state s thread = (case thread of None \<Rightarrow> THREAD_ZOMBIE | Some t \<Rightarrow> th_state (threads s t))"

definition thread_set_state :: "tid \<Rightarrow> thread_state \<Rightarrow> sched_state \<Rightarrow> sched_state" where
  "thread_set_state t st = upd_thread t (\<lambda>x. x\<lparr>th_state := st\<rparr>)"

definition thread_cpu :: "sched_state \<Rightarrow> tid ptr \<Rightarrow> int" where
  "thread_cpu s thread = (case thread of None \<Rightarrow> -1 | Some t \<Rightarrow> th_running_cpu (threads s t))"

definition thread_set_cpu :: "tid \<Rightarrow> int \<Rightarrow> sched_state \<Rightarrow> sched_state" where
  "thread_set_cpu t c = upd_thread t (\<lambda>x. x\<lparr>th_running_cpu := c\<rparr>)"

definition thread_unclaim :: "tid \<Rightarrow> sched_state \<Rightarrow> sched_state" where
  "thread_unclaim t = thread_set_cpu t (-1)"

definition thread_claim :: "tid \<Rightarrow> size_t \<Rightarrow> sched_state \<Rightarrow> sched_state" where
  "thread_claim t c s = thread_set_state t THREAD_RUNNING (thread_set_cpu t (to_int c) s)"

definition thread_on_local_cpu :: "sched_state \<Rightarrow> tid ptr \<Rightarrow> bool exec" where
  "thread_on_local_cpu s thread =
     (let running_cpu = thread_cpu s thread in
      if thread = None \<or> running_cpu < 0 \<or> MAX_CORES \<le> nat running_cpu then Some False
      else do { cpu \<leftarrow> load (cpus s) (nat running_cpu); Some (cpu_current cpu = thread) })"

definition thread_in_handoff :: "sched_state \<Rightarrow> tid ptr \<Rightarrow> bool exec" where
  "thread_in_handoff s thread =
     (let running_cpu = thread_cpu s thread in
      if thread = None \<or> running_cpu < 0 \<or> MAX_CORES \<le> nat running_cpu then Some False
      else do { cpu \<leftarrow> load (cpus s) (nat running_cpu); Some (cpu_handoff_ready cpu = thread) })"

definition thread_is_owned :: "sched_state \<Rightarrow> tid ptr \<Rightarrow> bool exec" where
  "thread_is_owned s thread =
     do { local \<leftarrow> thread_on_local_cpu s thread;
          if local then Some True else thread_in_handoff s thread }"

fun online_mask_loop :: "sched_env \<Rightarrow> nat \<Rightarrow> size_t \<Rightarrow> u64 \<Rightarrow> u64 exec" where
  "online_mask_loop e 0 i m = Some m"
| "online_mask_loop e (Suc n) i m =
     do { core \<leftarrow> load (env_cores_local e) i;
          online_mask_loop e n (i + 1) (if core_valid core \<and> core_online core then m OR push_bit i 1 else m) }"

definition sched_online_cpu_mask :: "sched_env \<Rightarrow> u64 exec" where
  "sched_online_cpu_mask e =
     do { m \<leftarrow> online_mask_loop e (min (env_core_count e) (min MAX_CORES 64)) 0 0;
          Some (if m = 0 then 1 else m) }"

definition sched_cpu_allowed :: "sched_env \<Rightarrow> sched_state \<Rightarrow> tid ptr \<Rightarrow> size_t \<Rightarrow> bool exec" where
  "sched_cpu_allowed e s thread cpu_id =
     (case thread of
        None \<Rightarrow> Some False
      | Some t \<Rightarrow>
          if 64 \<le> cpu_id then Some False
          else do { m \<leftarrow> (if th_allowed_cpu_mask (threads s t) = 0 then sched_online_cpu_mask e
                           else Some (th_allowed_cpu_mask (threads s t)));
                    Some (m AND push_bit cpu_id 1 \<noteq> 0) })"

definition sched_local_current :: "sched_env \<Rightarrow> sched_state \<Rightarrow> tid ptr exec" where
  "sched_local_current e s = do { cpu \<leftarrow> load (cpus s) (env_cpu_id e); Some (cpu_current cpu) }"

definition sched_local_idle :: "sched_env \<Rightarrow> sched_state \<Rightarrow> tid ptr exec" where
  "sched_local_idle e s = do { cpu \<leftarrow> load (cpus s) (env_cpu_id e); Some (cpu_idle_thread cpu) }"


section \<open>Well-formed environments and states\<close>

definition env_ok :: "sched_env \<Rightarrow> bool" where
  "env_ok e \<longleftrightarrow> env_cpu_id e < MAX_CORES \<and> length (env_cores_local e) = MAX_CORES"

lemma online_mask_loop_some:
  "i + n \<le> length (env_cores_local e) \<Longrightarrow> \<exists>m'. online_mask_loop e n i m = Some m'"
  by (induction e n i m rule: online_mask_loop.induct) (simp_all add: load_ok)

lemma sched_online_cpu_mask_some:
  assumes "env_ok e"
  obtains m where "sched_online_cpu_mask e = Some m" "m \<noteq> 0"
proof -
  obtain m' where "online_mask_loop e (min (env_core_count e) (min MAX_CORES 64)) 0 0 = Some m'"
    using online_mask_loop_some [of 0 "min (env_core_count e) (min MAX_CORES 64)" e 0] assms
    by (auto simp: env_ok_def min_le_iff_disj)
  then have "sched_online_cpu_mask e = Some (if m' = 0 then 1 else m')" by (simp add: sched_online_cpu_mask_def)
  then show thesis by (rule that) simp
qed

text \<open>Whether a thread may run on a core, as a total predicate.\<close>

definition cpu_allowed :: "sched_env \<Rightarrow> sched_thread \<Rightarrow> size_t \<Rightarrow> bool" where
  "cpu_allowed e x c \<longleftrightarrow>
     c < 64 \<and> (if th_allowed_cpu_mask x = 0 then the (sched_online_cpu_mask e) else th_allowed_cpu_mask x) AND push_bit c 1 \<noteq> 0"

lemma sched_cpu_allowed_eq:
  assumes "env_ok e"
  shows "sched_cpu_allowed e s (Some t) c = Some (cpu_allowed e (threads s t) c)"
proof -
  obtain m where "sched_online_cpu_mask e = Some m" using sched_online_cpu_mask_some [OF assms] by blast
  then show ?thesis by (simp add: sched_cpu_allowed_def cpu_allowed_def)
qed

lemma threads_upd_thread [simp]: "threads (upd_thread t f s) = (threads s)(t := f (threads s t))"
  by (simp add: upd_thread_def)

lemma upd_thread_others [simp]:
  "runqueues (upd_thread t f s) = runqueues s" "cpus (upd_thread t f s) = cpus s"
  "all_list (upd_thread t f s) = all_list s" "sleep (upd_thread t f s) = sleep s"
  "metrics (upd_thread t f s) = metrics s" "running (upd_thread t f s) = running s"
  "wake_rr_cursor (upd_thread t f s) = wake_rr_cursor s"
  by (simp_all add: upd_thread_def)

lemma upd_metrics_others [simp]:
  "threads (upd_metrics f s) = threads s" "runqueues (upd_metrics f s) = runqueues s" "cpus (upd_metrics f s) = cpus s"
  "all_list (upd_metrics f s) = all_list s" "sleep (upd_metrics f s) = sleep s"
  by (simp_all add: upd_metrics_def)


section \<open>Small instances\<close>

text \<open>The zeroed thread that \<open>calloc\<close> returns, and a machine of \<open>n\<close> cores with empty queues.\<close>

definition zero_thread :: sched_thread where
  "zero_thread = \<lparr>th_state = THREAD_READY, th_affinity_core = 0, th_last_cpu = 0, th_allowed_cpu_mask = 0, th_affinity_user_set = False,
     th_vruntime_ns = 0, th_sum_exec_ns = 0, th_in_run_queue = False, th_on_rq = False, th_rq_index = 0, th_context = 0,
     th_user_thread = False, th_pid = 0, th_ppid = 0, th_pgid = 0, th_sid = 0, th_did_exec = False,
     th_ruid = 0, th_uid = 0, th_suid = 0, th_rgid = 0, th_gid = 0, th_sgid = 0, th_groups = replicate 16 0, th_group_count = 0,
     th_umask = 0, th_exit_code = 0, th_exit_signal = 0, th_in_wait_queue = False, th_blocked_on = None,
     th_in_zombie_list = False, th_in_all_list = False, th_refcount = 0, th_lifecycle_flags = 0, th_in_reap_list = False, th_wake_tick = 0, th_sleep_queued = False, th_sleep_index = 0,
     th_wait_deadline_tick = 0, th_wait_flags = 0, th_wait_result = 0, th_wait_cookie = 0,
     th_signal_pending = 0, th_signal_mask = 0, th_current_signal = 0,
     th_stop_signal = 0, th_stop_reported = False, th_signal_saved_valid = 0, th_signal_trampoline = 0,
     th_signal_saved_state = 0, th_signal_handlers = replicate 32 0, th_tty_index = 0, th_running_cpu = 0\<rparr>"

definition demo_thread :: "pid_t \<Rightarrow> sched_thread" where
  "demo_thread p = zero_thread\<lparr>th_rq_index := UINT32_MAX, th_running_cpu := -1, th_pid := p, th_context := 4096, th_user_thread := True\<rparr>"

definition empty_rq :: sched_rq where
  "empty_rq = \<lparr>rq_heap = Some (replicate SCHED_RQ_CAPACITY None), rq_capacity = SCHED_RQ_CAPACITY, rq_nr_running = 0, rq_min_vruntime = 0\<rparr>"

definition demo_state :: sched_state where
  "demo_state = \<lparr>threads = (\<lambda>t. demo_thread (int t + 1)), all_list = Some [0, 1, 2, 3],
     runqueues = replicate MAX_CORES empty_rq, wake_rr_cursor = 0,
     cpus = replicate MAX_CORES \<lparr>cpu_current = None, cpu_idle_thread = None, cpu_handoff_ready = None, cpu_preempt_depth = 0,
       cpu_sched_lock_depth = 0, cpu_slice_ns = 0, cpu_need_resched = False, cpu_force_resched = False, cpu_resched_irq = False\<rparr>,
     sleep = \<lparr>sl_heap = replicate SCHED_SLEEP_CAPACITY None, sl_count = 0\<rparr>,
     metrics = \<lparr>m_migrations = 0, m_steals = 0, m_wake_ipi = 0, m_runqueue_max = 0, m_balance_runs = 0, m_wait_timeout_count = 0\<rparr>, running = True\<rparr>"

definition demo_env :: "nat \<Rightarrow> sched_env" where
  "demo_env n = \<lparr>env_cpu_id = 0, env_core_count = n,
     env_cores_local = replicate n \<lparr>core_valid = True, core_online = True\<rparr> @ replicate (MAX_CORES - n) \<lparr>core_valid = False, core_online = False\<rparr>,
     env_irq_enabled = True, env_resched_cpu = (\<lambda>_. True)\<rparr>"

end
