(* ===== verification/Thread_Heap.thy ===== *)
theory Thread_Heap
  imports Sched_State
begin

text \<open>
  Binary heaps of threads. The run queues and the sleep queue both keep an array of thread
  pointers in heap order and store in each thread its position in the array. The first section is
  about heap order alone, on sequences of keys; the locale \<open>thread_heap\<close> states what sifting
  relies on (the comparison, the exchange of two entries, and the two loops as the code writes them)
  and proves once that sifting restores the order, keeps the threads and keeps the stored
  positions right.
\<close>

section \<open>Heap order on key sequences\<close>

definition par :: "nat \<Rightarrow> nat" where
  "par i = (i - 1) div 2"

definition heap_ok :: "(nat \<Rightarrow> 'k::linorder) \<Rightarrow> nat \<Rightarrow> bool" where
  "heap_ok K n \<longleftrightarrow> (\<forall>i < n. 0 < i \<longrightarrow> K (par i) \<le> K i)"

text \<open>Heap order but for the edges at one position, whose parent is still below its children.\<close>

definition hole_ok :: "(nat \<Rightarrow> 'k::linorder) \<Rightarrow> nat \<Rightarrow> nat \<Rightarrow> bool" where
  "hole_ok K n i \<longleftrightarrow>
     (\<forall>j < n. 0 < j \<longrightarrow> j \<noteq> i \<longrightarrow> par j \<noteq> i \<longrightarrow> K (par j) \<le> K j) \<and>
     (\<forall>j < n. 0 < j \<longrightarrow> par j = i \<longrightarrow> 0 < i \<longrightarrow> K (par i) \<le> K j)"

definition up_ok :: "(nat \<Rightarrow> 'k::linorder) \<Rightarrow> nat \<Rightarrow> nat \<Rightarrow> bool" where
  "up_ok K n i \<longleftrightarrow> hole_ok K n i \<and> (\<forall>j < n. 0 < j \<longrightarrow> par j = i \<longrightarrow> K i \<le> K j)"

definition down_ok :: "(nat \<Rightarrow> 'k::linorder) \<Rightarrow> nat \<Rightarrow> nat \<Rightarrow> bool" where
  "down_ok K n i \<longleftrightarrow> hole_ok K n i \<and> (0 < i \<longrightarrow> K (par i) \<le> K i)"

lemma par_less [simp]: "0 < i \<Longrightarrow> par i < i"
  by (auto simp: par_def)

lemma par_children: "par j = i \<Longrightarrow> 0 < j \<Longrightarrow> j = 2 * i + 1 \<or> j = 2 * i + 2"
  unfolding par_def by presburger

lemma par_left [simp]: "par (2 * i + 1) = i" "par (Suc (2 * i)) = i" "par (2 * i + 2) = i" "par (Suc (Suc (2 * i))) = i"
  by (simp_all add: par_def)

lemma heap_root_min:
  assumes "heap_ok K n" "i < n"
  shows "K 0 \<le> K i"
  using assms(2)
proof (induction i rule: less_induct)
  case (less i)
  show ?case
  proof (cases "i = 0")
    case False
    then have "K 0 \<le> K (par i)" using less by (meson gr0I less_trans par_less)
    also have "\<dots> \<le> K i" using assms(1) less.prems False by (simp add: heap_ok_def)
    finally show ?thesis .
  qed simp
qed

lemma heap_up_ok:
  assumes "heap_ok K n" "i < n"
  shows "up_ok K n i"
proof -
  have e: "K (par j) \<le> K j" if "j < n" "0 < j" for j using assms(1) that by (simp add: heap_ok_def)
  have "K (par i) \<le> K j" if "j < n" "0 < j" "par j = i" "0 < i" for j
    using e [OF that(1,2)] e [OF assms(2) that(4)] that(3) by simp
  then show ?thesis using e by (auto simp: up_ok_def hole_ok_def)
qed

lemma up_done:
  assumes "up_ok K n i" "i = 0 \<or> K (par i) \<le> K i"
  shows "heap_ok K n"
  unfolding heap_ok_def
proof (intro allI impI)
  fix j assume "j < n" "0 < j"
  then show "K (par j) \<le> K j"
    using assms unfolding up_ok_def hole_ok_def by (cases "j = i"; cases "par j = i") auto
qed

lemma down_done:
  assumes "down_ok K n i" "\<And>j. j < n \<Longrightarrow> 0 < j \<Longrightarrow> par j = i \<Longrightarrow> K i \<le> K j"
  shows "heap_ok K n"
  unfolding heap_ok_def
proof (intro allI impI)
  fix j assume "j < n" "0 < j"
  then show "K (par j) \<le> K j"
    using assms(1) assms(2) [of j] unfolding down_ok_def hole_ok_def by (cases "j = i"; cases "par j = i") auto
qed

lemma hole_cases:
  assumes "hole_ok K n i"
  shows "if 0 < i \<and> K i < K (par i) then up_ok K n i else down_ok K n i"
proof (cases "0 < i \<and> K i < K (par i)")
  case True
  then have "K i \<le> K j" if "j < n" "0 < j" "par j = i" for j
  proof -
    have "K (par i) \<le> K j" using assms that True unfolding hole_ok_def by blast
    then show ?thesis using True by (auto dest: less_imp_le intro: order.trans)
  qed
  then show ?thesis using assms True by (simp add: up_ok_def)
next
  case False
  then show ?thesis using assms by (auto simp: down_ok_def)
qed

lemma up_okI:
  assumes "\<And>j. j < n \<Longrightarrow> 0 < j \<Longrightarrow> j \<noteq> i \<Longrightarrow> K (par j) \<le> K j"
    and "\<And>j. j < n \<Longrightarrow> 0 < j \<Longrightarrow> par j = i \<Longrightarrow> 0 < i \<Longrightarrow> K (par i) \<le> K j"
  shows "up_ok K n i"
proof -
  have "K i \<le> K j" if "j < n" "0 < j" "par j = i" for j using assms(1) [OF that(1,2)] that(3) par_less [OF that(2)] by auto
  then show ?thesis unfolding up_ok_def hole_ok_def using assms by simp
qed

lemma down_okI:
  assumes "\<And>j. j < n \<Longrightarrow> 0 < j \<Longrightarrow> par j \<noteq> i \<Longrightarrow> K (par j) \<le> K j"
    and "\<And>j. j < n \<Longrightarrow> 0 < j \<Longrightarrow> par j = i \<Longrightarrow> 0 < i \<Longrightarrow> K (par i) \<le> K j" and "i < n"
  shows "down_ok K n i"
proof -
  have "K (par i) \<le> K i" if "0 < i" using assms(1) [OF assms(3) that] par_less [OF that] by simp
  then show ?thesis unfolding down_ok_def hole_ok_def using assms by simp
qed

lemma up_step:
  assumes ok: "up_ok K n i" and i: "0 < i" "i < n" and lt: "K i < K (par i)"
  shows "up_ok (K(i := K (par i), par i := K i)) n (par i)"
proof -
  let ?p = "par i" and ?L = "K(i := K (par i), par i := K i)"
  have p: "?p < i" using i by simp
  have e: "K (par j) \<le> K j" if "j < n" "0 < j" "j \<noteq> i" for j
    using ok that unfolding up_ok_def hole_ok_def by (cases "par j = i") auto
  have g: "K ?p \<le> K j" if "j < n" "0 < j" "par j = i" for j
    using ok that i unfolding up_ok_def hole_ok_def by auto
  have "?L (par j) \<le> ?L j" if "j < n" "0 < j" "j \<noteq> ?p" for j
  proof -
    consider "j = i" | "j \<noteq> i" "par j = ?p" | "j \<noteq> i" "par j = i" | "j \<noteq> i" "par j \<noteq> i" "par j \<noteq> ?p" by blast
    then show ?thesis
    proof cases
      case 1
      then show ?thesis using lt p by simp
    next
      case 2
      then show ?thesis using e [OF that(1,2)] lt p that(3) by simp
    next
      case 3
      then show ?thesis using g [OF that(1,2)] that(3) p by simp
    next
      case 4
      then show ?thesis using e [OF that(1,2)] that(3) by simp
    qed
  qed
  moreover have "?L (par ?p) \<le> ?L j" if "j < n" "0 < j" "par j = ?p" "0 < ?p" for j
  proof -
    have "K (par ?p) \<le> K ?p" using e [of ?p] that(4) p i by simp
    moreover have "par ?p \<noteq> i" "par ?p \<noteq> ?p" "j \<noteq> ?p" using p that par_less [OF that(4)] par_less [OF that(2)] by auto
    ultimately show ?thesis using e [OF that(1,2)] that(3) p by (cases "j = i") auto
  qed
  ultimately show ?thesis by (rule up_okI)
qed

lemma down_step:
  assumes ok: "down_ok K n i" and b: "0 < b" "b < n" "par b = i" and lt: "K b < K i"
    and best: "\<And>j. j < n \<Longrightarrow> 0 < j \<Longrightarrow> par j = i \<Longrightarrow> K b \<le> K j"
  shows "down_ok (K(i := K b, b := K i)) n b"
proof -
  let ?L = "K(i := K b, b := K i)"
  have ib: "i < b" using b by auto
  have e: "K (par j) \<le> K j" if "j < n" "0 < j" "par j \<noteq> i" for j
    using ok that unfolding down_ok_def hole_ok_def by (cases "j = i") auto
  have g: "K (par i) \<le> K j" if "j < n" "0 < j" "par j = i" "0 < i" for j
    using ok that unfolding down_ok_def hole_ok_def by auto
  have "?L (par j) \<le> ?L j" if "j < n" "0 < j" "par j \<noteq> b" for j
  proof -
    consider "j = b" | "j = i" | "j \<noteq> b" "j \<noteq> i" "par j = i" | "j \<noteq> b" "j \<noteq> i" "par j \<noteq> i" by blast
    then show ?thesis
    proof cases
      case 1
      then show ?thesis using lt ib b(3) by simp
    next
      case 2
      then have "par j \<noteq> i" "par j \<noteq> b" using that ib par_less [OF that(2)] by auto
      then show ?thesis using 2 g [OF b(2,1,3)] that ib by simp
    next
      case 3
      then show ?thesis using best [OF that(1,2)] ib by simp
    next
      case 4
      then show ?thesis using e [OF that(1,2)] that(3) by simp
    qed
  qed
  moreover have "?L (par b) \<le> ?L j" if "j < n" "0 < j" "par j = b" for j
  proof -
    have "K b \<le> K j" using e [OF that(1,2)] that(3) ib by simp
    then show ?thesis using that par_less [OF that(2)] ib b(3) by auto
  qed
  ultimately show ?thesis using b(2) by (rule down_okI)
qed


section \<open>Arrays of threads that know their position\<close>

definition members :: "tid ptr list \<Rightarrow> nat \<Rightarrow> tid set" where
  "members h n = {t. \<exists>i < n. h ! i = Some t}"

definition slots_ok :: "(sched_thread \<Rightarrow> nat) \<Rightarrow> tid ptr list \<Rightarrow> nat \<Rightarrow> thread_store \<Rightarrow> bool" where
  "slots_ok idx h n th \<longleftrightarrow> n \<le> length h \<and> (\<forall>i < n. \<exists>t. h ! i = Some t \<and> idx (th t) = i)"

definition keys :: "(sched_thread \<Rightarrow> 'k) \<Rightarrow> tid ptr list \<Rightarrow> thread_store \<Rightarrow> nat \<Rightarrow> 'k" where
  "keys key h th i = key (th (the (h ! i)))"

lemma slots_okE:
  assumes "slots_ok idx h n th" "i < n"
  obtains t where "h ! i = Some t" "idx (th t) = i" "i < length h"
  using assms by (auto simp: slots_ok_def)

lemma slot_thread:
  assumes "slots_ok idx h n th" "i < n"
  shows "h ! i = Some (the (h ! i))" "idx (th (the (h ! i))) = i" "the (h ! i) \<in> members h n"
proof -
  obtain t where "h ! i = Some t" "idx (th t) = i" using assms by (auto simp: slots_ok_def)
  then show "h ! i = Some (the (h ! i))" "idx (th (the (h ! i))) = i" "the (h ! i) \<in> members h n"
    using assms(2) by (auto simp: members_def)
qed

lemma slots_distinct: "slots_ok idx h n th \<Longrightarrow> i < n \<Longrightarrow> j < n \<Longrightarrow> h ! i = h ! j \<Longrightarrow> i = j"
  unfolding slots_ok_def by (metis option.inject)

lemma slots_member:
  assumes "slots_ok idx h n th" "t \<in> members h n"
  shows "idx (th t) < n" "h ! idx (th t) = Some t"
  using assms by (auto simp: slots_ok_def members_def)

lemma members_update:
  assumes "slots_ok idx h n th" "i < n" "h ! i = Some t"
  shows "members (h[i := Some u]) n = insert u (members h n - {t})"
proof -
  have "n \<le> length h" using assms(1) by (simp add: slots_ok_def)
  moreover have "h ! j \<noteq> Some t" if "j < n" "j \<noteq> i" for j
    using slots_distinct [OF assms(1) that(1) assms(2)] assms(3) that(2) by auto
  ultimately have "v \<in> members (h[i := Some u]) n \<longleftrightarrow> v = u \<or> v \<in> members h n \<and> v \<noteq> t" for v
    using assms(2,3) unfolding members_def by (auto simp: nth_list_update) (metis option.inject)+
  then show ?thesis by auto
qed

lemma members_swap:
  assumes "i < n" "j < n" "n \<le> length h" "h ! i = Some a" "h ! j = Some b"
  shows "members (h[i := Some b, j := Some a]) n = members h n"
proof -
  have eq: "h[i := Some b, j := Some a] ! k = h ! (if k = j then i else if k = i then j else k)" if "k < n" for k
    using assms that by (auto simp: nth_list_update)
  have "\<exists>m < n. h ! m = Some t" if "k < n" "h[i := Some b, j := Some a] ! k = Some t" for k t
    using that eq [OF that(1)] assms(1,2) by (metis (full_types))
  moreover have "\<exists>m < n. h[i := Some b, j := Some a] ! m = Some t" if "k < n" "h ! k = Some t" for k t
    using that eq assms(1,2) by (intro exI [of _ "if k = i then j else if k = j then i else k"]) auto
  ultimately show ?thesis by (auto simp: members_def)
qed

locale thread_heap =
  fixes heap_of :: "'q \<Rightarrow> tid ptr list exec"
    and put_heap :: "tid ptr list \<Rightarrow> 'q \<Rightarrow> 'q"
    and count :: "'q \<Rightarrow> nat"
    and key :: "sched_thread \<Rightarrow> 'k::linorder"
    and idx :: "sched_thread \<Rightarrow> nat"
    and put_idx :: "nat \<Rightarrow> sched_thread \<Rightarrow> sched_thread"
    and lt :: "thread_store \<Rightarrow> tid ptr \<Rightarrow> tid ptr \<Rightarrow> bool"
    and hswap :: "'q \<Rightarrow> thread_store \<Rightarrow> nat \<Rightarrow> nat \<Rightarrow> ('q \<times> thread_store) exec"
    and up :: "'q \<Rightarrow> thread_store \<Rightarrow> nat \<Rightarrow> ('q \<times> thread_store) exec"
    and down :: "'q \<Rightarrow> thread_store \<Rightarrow> nat \<Rightarrow> ('q \<times> thread_store) exec"
    and limit :: nat
  assumes heap_of_put: "heap_of (put_heap h q) = Some h"
    and put_put: "put_heap h (put_heap h' q) = put_heap h q"
    and put_same: "heap_of q = Some h \<Longrightarrow> put_heap h q = q"
    and count_put: "count (put_heap h q) = count q"
    and idx_put: "idx (put_idx i x) = i"
    and key_put: "key (put_idx i x) = key x"
    and put_idx_put: "put_idx i (put_idx j x) = put_idx i x"
    and put_idx_same: "put_idx (idx x) x = x"
    and lt_key: "lt th (Some a) (Some b) \<longleftrightarrow> key (th a) < key (th b)"
    and swap_eq: "heap_of q = Some h \<Longrightarrow> i < length h \<Longrightarrow> j < length h \<Longrightarrow> h ! i = Some a \<Longrightarrow> h ! j = Some b \<Longrightarrow> a \<noteq> b \<Longrightarrow>
        hswap q th i j = Some (put_heap (h[i := Some b, j := Some a]) q, th(b := put_idx i (th b), a := put_idx j (th a)))"
    and up_eq: "up q th i =
        (if 0 < i
         then do { h \<leftarrow> heap_of q; a \<leftarrow> load h i; b \<leftarrow> load h (par i);
                   if \<not> lt th a b then Some (q, th)
                   else do { (q, th) \<leftarrow> hswap q th i (par i); up q th (par i) } }
         else Some (q, th))"
    and down_eq: "i < count q \<Longrightarrow> count q \<le> limit \<Longrightarrow> heap_of q = Some h \<Longrightarrow> down q th i =
        do { l \<leftarrow> (if 2 * i + 1 < count q
                     then do { a \<leftarrow> load h (2 * i + 1); b \<leftarrow> load h i; Some (lt th a b) } else Some False);
             let best = (if l then 2 * i + 1 else i) in
             do { r \<leftarrow> (if 2 * i + 2 < count q
                         then do { a \<leftarrow> load h (2 * i + 2); b \<leftarrow> load h best; Some (lt th a b) } else Some False);
                  let best = (if r then 2 * i + 2 else best) in
                  if best = i then Some (q, th)
                  else do { (q, th) \<leftarrow> hswap q th i best; down q th best } } }"
begin

definition moved :: "tid ptr list \<Rightarrow> nat \<Rightarrow> thread_store \<Rightarrow> tid ptr list \<Rightarrow> thread_store \<Rightarrow> bool" where
  "moved h n th h' th' \<longleftrightarrow> length h' = length h \<and> drop n h' = drop n h \<and> members h' n = members h n \<and> slots_ok idx h' n th' \<and>
     (\<forall>t. th' t = (if t \<in> members h n then put_idx (idx (th' t)) (th t) else th t))"

lemma moved_refl: "slots_ok idx h n th \<Longrightarrow> moved h n th h th"
  by (simp add: moved_def put_idx_same)

lemma moved_trans:
  assumes "moved h n th h1 th1" "moved h1 n th1 h2 th2"
  shows "moved h n th h2 th2"
proof -
  have "th2 t = (if t \<in> members h n then put_idx (idx (th2 t)) (th t) else th t)" for t
    using assms unfolding moved_def by (metis put_idx_put)
  then show ?thesis using assms by (simp add: moved_def)
qed

lemma moved_key: "moved h n th h' th' \<Longrightarrow> key (th' t) = key (th t)"
  unfolding moved_def by (metis key_put)

lemma swap_moved:
  assumes h: "heap_of q = Some h" and ok: "slots_ok idx h n th" and ij: "i < n" "j < n" "i \<noteq> j"
  obtains h' th' where "hswap q th i j = Some (put_heap h' q, th')" "moved h n th h' th'"
    "keys key h' th' = (keys key h th)(i := keys key h th j, j := keys key h th i)"
proof -
  obtain a where a: "h ! i = Some a" "idx (th a) = i" "i < length h" using slots_okE [OF ok ij(1)] by blast
  obtain b where b: "h ! j = Some b" "idx (th b) = j" "j < length h" using slots_okE [OF ok ij(2)] by blast
  have ab: "a \<noteq> b" using a b ij by auto
  have n: "n \<le> length h" using ok by (simp add: slots_ok_def)
  let ?h = "h[i := Some b, j := Some a]" and ?th = "th(b := put_idx i (th b), a := put_idx j (th a))"
  have ix: "idx (?th t) = k" if "k < n" "?h ! k = Some t" for k t
  proof -
    consider "k = i" | "k = j" | "k \<noteq> i" "k \<noteq> j" by blast
    then show ?thesis
    proof cases
      case 3
      then have t: "h ! k = Some t" using that by simp
      then have "t \<noteq> a" "t \<noteq> b" using slots_distinct [OF ok that(1) ij(1)] slots_distinct [OF ok that(1) ij(2)] a b 3 by auto
      then show ?thesis using slots_okE [OF ok that(1)] t by fastforce
    qed (use that a b ab ij in \<open>auto simp: idx_put\<close>)
  qed
  have "slots_ok idx ?h n ?th"
    unfolding slots_ok_def
  proof (intro conjI allI impI)
    show "n \<le> length ?h" using n by simp
    fix k assume kn: "k < n"
    obtain t where "h ! k = Some t" using slots_okE [OF ok kn] by blast
    then have "\<exists>t. ?h ! k = Some t" using a(3) b(3) by (auto simp: nth_list_update)
    then show "\<exists>t. ?h ! k = Some t \<and> idx (?th t) = k" using ix [OF kn] by blast
  qed
  moreover have "a \<in> members h n" "b \<in> members h n" using a b ij by (auto simp: members_def)
  ultimately have mv: "moved h n th ?h ?th"
    using ij members_swap [OF ij(1,2) n a(1) b(1)] by (auto simp: moved_def idx_put put_idx_same drop_update_cancel)
  have ks: "keys key ?h ?th = (keys key h th)(i := keys key h th j, j := keys key h th i)"
    using a b ab ij by (auto simp: keys_def key_put fun_eq_iff nth_list_update)
  show thesis by (rule that [OF swap_eq [OF h a(3) b(3) a(1) b(1) ab] mv ks])
qed

lemma up_spec:
  assumes "heap_of q = Some h" "count q = n" "slots_ok idx h n th" "i < n" "up_ok (keys key h th) n i"
  shows "\<exists>h' th'. up q th i = Some (put_heap h' q, th') \<and> moved h n th h' th' \<and> heap_ok (keys key h' th') n"
  using assms
proof (induction i arbitrary: q h th rule: less_induct)
  case (less i)
  show ?case
  proof (cases "0 < i \<and> keys key h th i < keys key h th (par i)")
    case True
    then have p: "par i < i" by simp
    then have p: "par i < i" "par i < n" "i \<noteq> par i" using less.prems(4) by simp_all
    obtain a where a: "h ! i = Some a" "i < length h" using slots_okE [OF less.prems(3,4)] by metis
    obtain b where b: "h ! par i = Some b" "par i < length h" using slots_okE [OF less.prems(3) p(2)] by metis
    obtain h1 th1 where s: "hswap q th i (par i) = Some (put_heap h1 q, th1)" "moved h n th h1 th1"
      "keys key h1 th1 = (keys key h th)(i := keys key h th (par i), par i := keys key h th i)"
      using swap_moved [OF less.prems(1,3,4) p(2,3)] by metis
    have "up_ok (keys key h1 th1) n (par i)" unfolding s(3) using True by (intro up_step less.prems) simp_all
    moreover have "slots_ok idx h1 n th1" using s(2) by (simp add: moved_def)
    ultimately obtain h2 th2 where r: "up (put_heap h1 q) th1 (par i) = Some (put_heap h2 (put_heap h1 q), th2)" "moved h1 n th1 h2 th2"
      "heap_ok (keys key h2 th2) n"
      using less.IH [OF p(1) heap_of_put _ _ p(2), of h1 q th1] less.prems(2) by (auto simp: count_put)
    have "up q th i = Some (put_heap h2 q, th2)"
      using True less.prems(1) a b s(1) r(1) by (subst up_eq) (simp add: load_ok lt_key keys_def put_put)
    then show ?thesis using moved_trans [OF s(2) r(2)] r(3) by blast
  next
    case False
    then have "heap_ok (keys key h th) n" by (intro up_done [OF less.prems(5)]) auto
    moreover have "up q th i = Some (put_heap h q, th)"
    proof (cases "i = 0")
      case True
      then show ?thesis using put_same [OF less.prems(1)] by (subst up_eq) simp
    next
      case i: False
      then have "par i < i" by simp
      then have "par i < n" using less.prems(4) by simp
      then obtain b where b: "h ! par i = Some b" "par i < length h" using slots_okE [OF less.prems(3)] by metis
      obtain a where a: "h ! i = Some a" "i < length h" using slots_okE [OF less.prems(3,4)] by metis
      show ?thesis using i False a b less.prems(1) put_same [OF less.prems(1)]
        by (subst up_eq) (simp add: load_ok lt_key keys_def)
    qed
    ultimately show ?thesis using moved_refl [OF less.prems(3)] by blast
  qed
qed

text \<open>One round of the downward loop, in terms of keys.\<close>

definition best_child :: "(nat \<Rightarrow> 'k) \<Rightarrow> nat \<Rightarrow> nat \<Rightarrow> nat" where
  "best_child K n i =
     (let best = (if 2 * i + 1 < n \<and> K (2 * i + 1) < K i then 2 * i + 1 else i) in
      if 2 * i + 2 < n \<and> K (2 * i + 2) < K best then 2 * i + 2 else best)"

lemma down_round:
  assumes "heap_of q = Some h" "count q = n" "n \<le> limit" "slots_ok idx h n th" "i < n"
  shows "down q th i =
           (let best = best_child (keys key h th) n i in
            if best = i then Some (q, th) else do { (q, th) \<leftarrow> hswap q th i best; down q th best })"
proof -
  have ld: "load h j = Some (Some (the (h ! j)))" if "j < n" for j
    using slot_thread(1) [OF assms(4) that] that assms(4) by (simp add: load_def slots_ok_def)
  show ?thesis
    using assms(2,3,5) ld [of i] ld [of "2 * i + 1"] ld [of "2 * i + 2"]
    by (subst down_eq [OF _ _ assms(1)]) (simp_all add: best_child_def Let_def lt_key keys_def)
qed

lemma children_all:
  "(\<forall>j < n. 0 < j \<longrightarrow> par j = i \<longrightarrow> P j) \<longleftrightarrow> (2 * i + 1 < n \<longrightarrow> P (2 * i + 1)) \<and> (2 * i + 2 < n \<longrightarrow> P (2 * i + 2))"
proof (intro iffI allI impI)
  fix j assume "(2 * i + 1 < n \<longrightarrow> P (2 * i + 1)) \<and> (2 * i + 2 < n \<longrightarrow> P (2 * i + 2))" "j < n" "0 < j" "par j = i"
  then show "P j" using par_children [of j i] by auto
qed auto

lemma best_child_cases:
  assumes "i < n"
  shows "(best_child K n i = i \<and> (\<forall>j < n. 0 < j \<longrightarrow> par j = i \<longrightarrow> K i \<le> K j)) \<or>
         (i < best_child K n i \<and> best_child K n i < n \<and> par (best_child K n i) = i \<and> K (best_child K n i) < K i \<and>
          (\<forall>j < n. 0 < j \<longrightarrow> par j = i \<longrightarrow> K (best_child K n i) \<le> K j))"
  unfolding children_all best_child_def Let_def by (auto simp: not_less)

lemma down_stop:
  assumes "heap_of q = Some h" "count q = n" "n \<le> limit" "slots_ok idx h n th" "i < n"
    and "\<And>j. j < n \<Longrightarrow> 0 < j \<Longrightarrow> par j = i \<Longrightarrow> keys key h th i \<le> keys key h th j"
  shows "down q th i = Some (put_heap h q, th)"
proof -
  have "best_child (keys key h th) n i = i"
    using best_child_cases [OF assms(5), of "keys key h th"] assms(6) by (metis leD gr_zeroI not_less_zero)
  then show ?thesis using down_round [OF assms(1-5)] put_same [OF assms(1)] by simp
qed

lemma down_spec:
  assumes "heap_of q = Some h" "count q = n" "n \<le> limit" "slots_ok idx h n th" "i < n" "down_ok (keys key h th) n i"
  shows "\<exists>h' th'. down q th i = Some (put_heap h' q, th') \<and> moved h n th h' th' \<and> heap_ok (keys key h' th') n"
  using assms
proof (induction "n - i" arbitrary: i q h th rule: less_induct)
  case less
  let ?K = "keys key h th" let ?b = "best_child ?K n i"
  from best_child_cases [OF less.prems(5), of ?K] show ?case
  proof (elim disjE conjE)
    assume "?b = i" "\<forall>j<n. 0 < j \<longrightarrow> par j = i \<longrightarrow> ?K i \<le> ?K j"
    then show ?thesis
      using down_stop [OF less.prems(1-5)] down_done [OF less.prems(6)] moved_refl [OF less.prems(4)] by blast
  next
    assume b: "i < ?b" "?b < n" "par ?b = i" "?K ?b < ?K i" "\<forall>j<n. 0 < j \<longrightarrow> par j = i \<longrightarrow> ?K ?b \<le> ?K j"
    then have ne: "i \<noteq> ?b" by simp
    obtain h1 th1 where s: "hswap q th i ?b = Some (put_heap h1 q, th1)" "moved h n th h1 th1"
      "keys key h1 th1 = ?K(i := ?K ?b, ?b := ?K i)"
      using swap_moved [OF less.prems(1,4,5) b(2) ne] by metis
    have "down_ok (keys key h1 th1) n ?b" unfolding s(3) using b by (intro down_step less.prems) simp_all
    moreover have "slots_ok idx h1 n th1" using s(2) by (simp add: moved_def)
    moreover have "n - ?b < n - i" using b by simp
    ultimately obtain h2 th2 where r: "down (put_heap h1 q) th1 ?b = Some (put_heap h2 (put_heap h1 q), th2)" "moved h1 n th1 h2 th2"
      "heap_ok (keys key h2 th2) n"
      using less.hyps [OF _ heap_of_put _ less.prems(3) _ b(2), of h1 q th1] less.prems(2) by (auto simp: count_put)
    have "down q th i = Some (put_heap h2 q, th2)"
      using down_round [OF less.prems(1-5)] ne s(1) r(1) by (simp add: put_put)
    then show ?thesis using moved_trans [OF s(2) r(2)] r(3) by blast
  qed
qed

text \<open>Repairing the order at one position, in either of the two ways the code does it.\<close>

lemma fix_up_or_down:
  assumes "heap_of q = Some h" "count q = n" "n \<le> limit" "slots_ok idx h n th" "i < n" "hole_ok (keys key h th) n i"
  shows "\<exists>h' th'. (if 0 < i \<and> keys key h th i < keys key h th (par i) then up q th i else down q th i) = Some (put_heap h' q, th') \<and>
           moved h n th h' th' \<and> heap_ok (keys key h' th') n"
  using hole_cases [OF assms(6)] up_spec [OF assms(1,2,4,5)] down_spec [OF assms(1-5)] by (auto split: if_splits)

lemma fix_down_then_up:
  assumes "heap_of q = Some h" "count q = n" "n \<le> limit" "slots_ok idx h n th" "i < n" "hole_ok (keys key h th) n i"
  shows "\<exists>h' th'. do { (q, th) \<leftarrow> down q th i; up q th i } = Some (put_heap h' q, th') \<and>
           moved h n th h' th' \<and> heap_ok (keys key h' th') n"
proof (cases "0 < i \<and> keys key h th i < keys key h th (par i)")
  case True
  then have u: "up_ok (keys key h th) n i" using hole_cases [OF assms(6)] by simp
  then have "down q th i = Some (q, th)"
    using down_stop [OF assms(1-5)] put_same [OF assms(1)] by (simp add: up_ok_def)
  then show ?thesis using up_spec [OF assms(1,2,4,5) u] by simp
next
  case False
  then have "down_ok (keys key h th) n i" using hole_cases [OF assms(6)] by simp
  then obtain h1 th1 where d: "down q th i = Some (put_heap h1 q, th1)" "moved h n th h1 th1" "heap_ok (keys key h1 th1) n"
    using down_spec [OF assms(1-5)] by blast
  have "slots_ok idx h1 n th1" using d(2) by (simp add: moved_def)
  then obtain h2 th2 where u: "up (put_heap h1 q) th1 i = Some (put_heap h2 (put_heap h1 q), th2)" "moved h1 n th1 h2 th2" "heap_ok (keys key h2 th2) n"
    using up_spec [OF heap_of_put [of h1 q] _ _ assms(5) heap_up_ok [OF d(3) assms(5)]] assms(2) by (auto simp: count_put)
  then show ?thesis using d moved_trans [OF d(2) u(2)] by (auto simp: put_put)
qed

text \<open>Appending a thread, and moving the last one into a hole, before the order is repaired.\<close>

lemma append_slot:
  fixes x :: sched_thread
  assumes ok: "slots_ok idx h n th" and hp: "heap_ok (keys key h th) n" and t: "t \<notin> members h n" and n: "n < length h"
  defines "h1 \<equiv> h[n := Some t]" and "th1 \<equiv> th(t := put_idx n x)"
  shows "slots_ok idx h1 (Suc n) th1" "up_ok (keys key h1 th1) (Suc n) n" "members h1 (Suc n) = insert t (members h n)"
proof -
  have old: "h1 ! j = h ! j" if "j < n" for j using that by (simp add: h1_def)
  have new: "h1 ! n = Some t" using n by (simp add: h1_def)
  have ne: "the (h ! j) \<noteq> t" if "j < n" for j
    using slot_thread(3) [OF ok that] t by auto
  show "slots_ok idx h1 (Suc n) th1"
    unfolding slots_ok_def
  proof (intro conjI allI impI)
    show "Suc n \<le> length h1" using n by (simp add: h1_def)
    fix j assume "j < Suc n"
    then consider "j = n" | "j < n" by linarith
    then show "\<exists>u. h1 ! j = Some u \<and> idx (th1 u) = j"
    proof cases
      case 1
      then show ?thesis using new by (simp add: th1_def idx_put)
    next
      case 2
      obtain u where "h ! j = Some u" "idx (th u) = j" using slots_okE [OF ok 2] by blast
      then show ?thesis using old [OF 2] ne [OF 2] by (auto simp: th1_def)
    qed
  qed
  have k: "keys key h1 th1 j = keys key h th j" if "j < n" for j
    using old [OF that] ne [OF that] by (simp add: keys_def th1_def)
  show "up_ok (keys key h1 th1) (Suc n) n"
  proof (rule up_okI)
    fix j assume j: "j < Suc n" "0 < j" "j \<noteq> n"
    then have "j < n" "par j < n" using par_less [of j] by linarith+
    then show "keys key h1 th1 (par j) \<le> keys key h1 th1 j" using hp j k by (simp add: heap_ok_def)
  next
    fix j assume "j < Suc n" "0 < j" "par j = n"
    then show "keys key h1 th1 (par n) \<le> keys key h1 th1 j" using par_less [of j] by linarith
  qed
  show "members h1 (Suc n) = insert t (members h n)"
    unfolding members_def using old new by (auto simp: less_Suc_eq)
qed

lemma fill_hole:
  assumes ok: "slots_ok idx h (Suc n) th" and hp: "heap_ok (keys key h th) (Suc n)" and i: "i < n"
    and l: "h ! n = Some l" and r: "h ! i = Some r"
    and h1: "length h1 = length h" "\<And>j. j < n \<Longrightarrow> h1 ! j = (if j = i then h ! n else h ! j)"
    and th1: "\<And>t. t \<noteq> r \<Longrightarrow> th1 t = (if t = l then put_idx i (th l) else th t)"
  shows "slots_ok idx h1 n th1" "hole_ok (keys key h1 th1) n i" "members h1 n = members h (Suc n) - {r}"
proof -
  have lr: "l \<noteq> r" using slots_distinct [OF ok, of n i] l r i by auto
  have nr: "the (h ! j) \<noteq> r" "the (h ! j) \<noteq> l" "h ! j = Some (the (h ! j))" if "j < n" "j \<noteq> i" for j
    using slots_distinct [OF ok, of j i] slots_distinct [OF ok, of j n] slot_thread(1) [OF ok, of j] that l r i by auto
  show "slots_ok idx h1 n th1"
    unfolding slots_ok_def
  proof (intro conjI allI impI)
    show "n \<le> length h1" using ok h1(1) by (simp add: slots_ok_def)
    fix j assume j: "j < n"
    show "\<exists>u. h1 ! j = Some u \<and> idx (th1 u) = j"
    proof (cases "j = i")
      case True
      then show ?thesis using h1(2) [OF j] l th1 [OF lr] by (simp add: idx_put)
    next
      case False
      have "idx (th (the (h ! j))) = j" using slot_thread(2) [OF ok, of j] j by simp
      then show ?thesis using h1(2) [OF j] False nr [OF j False] th1 [of "the (h ! j)"] by auto
    qed
  qed
  have ki: "keys key h1 th1 i = keys key h th n" using h1(2) [OF i] l th1 [OF lr] by (simp add: keys_def key_put)
  have k: "keys key h1 th1 j = keys key h th j" if "j < n" "j \<noteq> i" for j
    using h1(2) [OF that(1)] that(2) nr [OF that] th1 by (simp add: keys_def)
  have e: "keys key h th (par j) \<le> keys key h th j" if "j < n" "0 < j" for j using hp that by (simp add: heap_ok_def)
  have pl: "par j < n" if "j < n" "0 < j" for j using par_less [OF that(2)] that(1) by linarith
  show "hole_ok (keys key h1 th1) n i"
    unfolding hole_ok_def
  proof (intro conjI allI impI)
    fix j assume j: "j < n" "0 < j" "j \<noteq> i" "par j \<noteq> i"
    then show "keys key h1 th1 (par j) \<le> keys key h1 th1 j" using e [OF j(1,2)] k [OF j(1,3)] k [OF pl [OF j(1,2)] j(4)] by simp
  next
    fix j assume j: "j < n" "0 < j" "par j = i" "0 < i"
    have "j \<noteq> i" "par i \<noteq> i" using par_less [OF j(2)] par_less [OF j(4)] j(3) by auto
    then show "keys key h1 th1 (par i) \<le> keys key h1 th1 j"
      using e [OF j(1,2)] e [OF i j(4)] j(3) k [OF j(1)] k [OF pl [OF i j(4)]] by simp
  qed
  show "members h1 n = members h (Suc n) - {r}"
  proof (intro set_eqI iffI)
    fix t assume "t \<in> members h1 n"
    then obtain j where "j < n" "h1 ! j = Some t" by (auto simp: members_def)
    then show "t \<in> members h (Suc n) - {r}" using h1(2) [of j] l lr nr [of j]
      by (cases "j = i") (auto simp: members_def less_Suc_eq)
  next
    fix t assume "t \<in> members h (Suc n) - {r}"
    then obtain j where j: "j < Suc n" "h ! j = Some t" "t \<noteq> r" by (auto simp: members_def)
    then show "t \<in> members h1 n" using h1(2) [of i] h1(2) [of j] i r
      by (cases "j = n"; cases "j = i") (auto simp: members_def less_Suc_eq)
  qed
qed

lemma drop_last:
  assumes ok: "slots_ok idx h (Suc n) th" and hp: "heap_ok (keys key h th) (Suc n)" and r: "h ! n = Some r"
    and h1: "length h1 = length h" "\<And>j. j < n \<Longrightarrow> h1 ! j = h ! j" and th1: "\<And>t. t \<noteq> r \<Longrightarrow> th1 t = th t"
  shows "slots_ok idx h1 n th1" "heap_ok (keys key h1 th1) n" "members h1 n = members h (Suc n) - {r}"
proof -
  have nr: "the (h ! j) \<noteq> r" "h ! j = Some (the (h ! j))" "idx (th (the (h ! j))) = j" if "j < n" for j
    using slots_distinct [OF ok, of j n] slot_thread(1,2) [OF ok, of j] that r by auto
  show "slots_ok idx h1 n th1"
    unfolding slots_ok_def
  proof (intro conjI allI impI)
    show "n \<le> length h1" using ok h1(1) by (simp add: slots_ok_def)
    fix j assume j: "j < n"
    show "\<exists>u. h1 ! j = Some u \<and> idx (th1 u) = j" using h1(2) [OF j] nr [OF j] th1 [of "the (h ! j)"] by auto
  qed
  have "keys key h1 th1 j = keys key h th j" if "j < n" for j using h1(2) [OF that] nr [OF that] th1 by (simp add: keys_def)
  moreover have "par j < n" if "j < n" "0 < j" for j using par_less [OF that(2)] that(1) by linarith
  ultimately show "heap_ok (keys key h1 th1) n" using hp by (simp add: heap_ok_def)
  show "members h1 n = members h (Suc n) - {r}"
  proof (intro set_eqI iffI)
    fix t assume "t \<in> members h1 n"
    then obtain j where "j < n" "h1 ! j = Some t" by (auto simp: members_def)
    then show "t \<in> members h (Suc n) - {r}" using h1(2) [of j] nr [of j] by (auto simp: members_def less_Suc_eq)
  next
    fix t assume "t \<in> members h (Suc n) - {r}"
    then obtain j where j: "j < Suc n" "h ! j = Some t" "t \<noteq> r" by (auto simp: members_def)
    then show "t \<in> members h1 n" using h1(2) [of j] r by (auto simp: members_def less_Suc_eq)
  qed
qed

end

end
