(* ===== verification/Sleep_Heap.thy ===== *)
theory Sleep_Heap
  imports Thread_Heap "HOL-Library.Product_Lexorder"
begin

text \<open>
  The heap of sleeping threads of \<open>kernel/sched/state.c\<close>, ordered by wake-up tick and pid. The
  functions take the heap and the thread store and return both. Sifting interprets \<open>thread_heap\<close>.
\<close>

section \<open>Order and sifting\<close>

definition sleep_before :: "thread_store \<Rightarrow> tid ptr \<Rightarrow> tid ptr \<Rightarrow> bool" where
  "sleep_before th a b =
     (case a of
        None \<Rightarrow> False
      | Some x \<Rightarrow>
          (case b of
             None \<Rightarrow> True
           | Some y \<Rightarrow>
               if th_wake_tick (th x) \<noteq> th_wake_tick (th y) then th_wake_tick (th x) < th_wake_tick (th y)
               else th_pid (th x) < th_pid (th y)))"

definition sleep_heap_less :: "sched_sleep \<Rightarrow> thread_store \<Rightarrow> size_t \<Rightarrow> size_t \<Rightarrow> bool exec" where
  "sleep_heap_less sl th left right =
     do { a \<leftarrow> load (sl_heap sl) left; b \<leftarrow> load (sl_heap sl) right; Some (sleep_before th a b) }"

definition sleep_heap_contains :: "sched_sleep \<Rightarrow> thread_store \<Rightarrow> tid ptr \<Rightarrow> bool exec" where
  "sleep_heap_contains sl th thread =
     (case thread of
        None \<Rightarrow> Some False
      | Some t \<Rightarrow>
          if \<not> th_sleep_queued (th t) then Some False
          else if sl_count sl \<le> th_sleep_index (th t) then Some False
          else do { p \<leftarrow> load (sl_heap sl) (th_sleep_index (th t)); Some (p = thread) })"

definition set_sleep_index :: "size_t \<Rightarrow> sched_thread \<Rightarrow> sched_thread" where
  "set_sleep_index i x = x\<lparr>th_sleep_index := i\<rparr>"

definition note_sleep_index :: "tid ptr \<Rightarrow> size_t \<Rightarrow> thread_store \<Rightarrow> thread_store" where
  "note_sleep_index p i th = (case p of None \<Rightarrow> th | Some t \<Rightarrow> th(t := set_sleep_index i (th t)))"

definition sleep_heap_swap :: "sched_sleep \<Rightarrow> thread_store \<Rightarrow> size_t \<Rightarrow> size_t \<Rightarrow> (sched_sleep \<times> thread_store) exec" where
  "sleep_heap_swap sl th left right =
     do { saved \<leftarrow> load (sl_heap sl) left;
          r \<leftarrow> load (sl_heap sl) right;
          h \<leftarrow> store (sl_heap sl) left r;
          h \<leftarrow> store h right saved;
          l \<leftarrow> load h left;
          let th = note_sleep_index l left th in
          do { r \<leftarrow> load h right;
               Some (sl\<lparr>sl_heap := h\<rparr>, note_sleep_index r right th) } }"

function sleep_heap_sift_up :: "sched_sleep \<Rightarrow> thread_store \<Rightarrow> size_t \<Rightarrow> (sched_sleep \<times> thread_store) exec" where
  "sleep_heap_sift_up sl th index =
     (if 0 < index
      then let parent = (index - 1) div 2 in
        do { less \<leftarrow> sleep_heap_less sl th index parent;
             if \<not> less then Some (sl, th)
             else do { (sl, th) \<leftarrow> sleep_heap_swap sl th index parent; sleep_heap_sift_up sl th parent } }
      else Some (sl, th))"
  by auto
termination by (relation "measure (\<lambda>(sl, th, index). index)") auto

declare sleep_heap_sift_up.simps [simp del]

partial_function (option) sleep_heap_sift_down :: "sched_sleep \<Rightarrow> thread_store \<Rightarrow> size_t \<Rightarrow> (sched_sleep \<times> thread_store) exec" where
  "sleep_heap_sift_down sl th index =
     (let left = sz_add (sz_mul index 2) 1; right = sz_add left 1 in
      do { l \<leftarrow> (if left < sl_count sl then sleep_heap_less sl th left index else Some False);
           let best = (if l then left else index) in
           do { r \<leftarrow> (if right < sl_count sl then sleep_heap_less sl th right best else Some False);
                let best = (if r then right else best) in
                if best = index then Some (sl, th)
                else do { (sl, th) \<leftarrow> sleep_heap_swap sl th index best; sleep_heap_sift_down sl th best } } })"

declare sleep_heap_sift_down.simps [code]


section \<open>Operations\<close>

fun sleep_find_loop :: "tid ptr list \<Rightarrow> tid \<Rightarrow> nat \<Rightarrow> size_t \<Rightarrow> int exec" where
  "sleep_find_loop h t 0 i = Some (-1)"
| "sleep_find_loop h t (Suc n) i = do { p \<leftarrow> load h i; if p = Some t then Some (int i) else sleep_find_loop h t n (i + 1) }"

definition sleep_heap_find :: "sched_sleep \<Rightarrow> tid ptr \<Rightarrow> int exec" where
  "sleep_heap_find sl thread =
     (case thread of None \<Rightarrow> Some (-1) | Some t \<Rightarrow> sleep_find_loop (sl_heap sl) t (sl_count sl) 0)"

definition clear_sleep :: "sched_thread \<Rightarrow> sched_thread" where
  "clear_sleep x = x\<lparr>th_sleep_queued := False, th_sleep_index := 0\<rparr>"

definition sleep_heap_remove_at :: "sched_sleep \<Rightarrow> thread_store \<Rightarrow> size_t \<Rightarrow> (sched_sleep \<times> thread_store) exec" where
  "sleep_heap_remove_at sl th index =
     (if sl_count sl \<le> index then Some (sl, th)
      else do { removed \<leftarrow> load (sl_heap sl) index;
                let last = sl_count sl - 1; sl = sl\<lparr>sl_count := last\<rparr> in
                do { (sl, th) \<leftarrow> (if index \<noteq> last
                                   then do { l \<leftarrow> load (sl_heap sl) last;
                                             h \<leftarrow> store (sl_heap sl) index l;
                                             let sl = sl\<lparr>sl_heap := h\<rparr>; th = note_sleep_index l index th in
                                             do { (sl, th) \<leftarrow> sleep_heap_sift_down sl th index;
                                                  sleep_heap_sift_up sl th index } }
                                   else Some (sl, th));
                     h \<leftarrow> store (sl_heap sl) (sl_count sl) None;
                     Some (sl\<lparr>sl_heap := h\<rparr>, case removed of None \<Rightarrow> th | Some t \<Rightarrow> th(t := clear_sleep (th t))) } })"

text \<open>Removal of a thread that may carry a stale position, before it is inserted again.\<close>

definition sleep_heap_forget :: "sched_sleep \<Rightarrow> thread_store \<Rightarrow> tid \<Rightarrow> (sched_sleep \<times> thread_store) exec" where
  "sleep_heap_forget sl th t =
     do { found \<leftarrow> sleep_heap_find sl (Some t);
          if 0 \<le> found then sleep_heap_remove_at sl th (nat found) else Some (sl, th) }"

definition sleep_heap_insert :: "sched_sleep \<Rightarrow> thread_store \<Rightarrow> tid ptr \<Rightarrow> (bool \<times> sched_sleep \<times> thread_store) exec" where
  "sleep_heap_insert sl th thread =
     (case thread of
        None \<Rightarrow> Some (True, sl, th)
      | Some t \<Rightarrow>
          do { (sl, th) \<leftarrow> (if th_sleep_queued (th t)
                             then do { here \<leftarrow> sleep_heap_contains sl th thread;
                                       (sl, th) \<leftarrow> (if here then sleep_heap_remove_at sl th (th_sleep_index (th t))
                                                     else sleep_heap_forget sl th t);
                                       Some (sl, th(t := clear_sleep (th t))) }
                             else Some (sl, th));
               (sl, th) \<leftarrow> sleep_heap_forget sl th t;
               if SCHED_SLEEP_CAPACITY \<le> sl_count sl then Some (False, sl, th)
               else let index = sl_count sl in
                 do { h \<leftarrow> store (sl_heap sl) index (Some t);
                      let sl = sl\<lparr>sl_heap := h, sl_count := sz_add index 1\<rparr>;
                          th = th(t := (th t)\<lparr>th_sleep_queued := True, th_sleep_index := index\<rparr>) in
                      do { (sl, th) \<leftarrow> sleep_heap_sift_up sl th index; Some (True, sl, th) } } })"

definition sleep_heap_remove :: "sched_sleep \<Rightarrow> thread_store \<Rightarrow> tid ptr \<Rightarrow> (sched_sleep \<times> thread_store) exec" where
  "sleep_heap_remove sl th thread =
     (case thread of
        None \<Rightarrow> Some (sl, th)
      | Some t \<Rightarrow>
          do { here \<leftarrow> sleep_heap_contains sl th thread;
               if here then sleep_heap_remove_at sl th (th_sleep_index (th t))
               else do { found \<leftarrow> sleep_heap_find sl thread;
                         if 0 \<le> found
                         then sleep_heap_remove_at sl (th(t := (th t)\<lparr>th_sleep_queued := True, th_sleep_index := nat found\<rparr>)) (nat found)
                         else Some (sl, th(t := clear_sleep (th t))) } })"

definition sleep_heap_top :: "sched_sleep \<Rightarrow> tid ptr exec" where
  "sleep_heap_top sl = (if sl_count sl = 0 then Some None else load (sl_heap sl) 0)"


section \<open>Sifting\<close>

definition sleep_key :: "sched_thread \<Rightarrow> u64 \<times> pid_t" where
  "sleep_key x = (th_wake_tick x, th_pid x)"

lemma sleep_before_key: "sleep_before th (Some a) (Some b) \<longleftrightarrow> sleep_key (th a) < sleep_key (th b)"
  by (auto simp: sleep_before_def sleep_key_def less_prod_def)

interpretation slh: thread_heap "\<lambda>q. Some (sl_heap q)" "\<lambda>h q. q\<lparr>sl_heap := h\<rparr>" sl_count sleep_key th_sleep_index set_sleep_index
  sleep_before sleep_heap_swap sleep_heap_sift_up sleep_heap_sift_down SCHED_SLEEP_CAPACITY
proof unfold_locales
  fix q :: sched_sleep and h i j a b and th :: thread_store
  assume "Some (sl_heap q) = Some h" "i < length h" "j < length h" "h ! i = Some a" "h ! j = Some b" "a \<noteq> b"
  moreover from this have "i \<noteq> j" by auto
  ultimately show "sleep_heap_swap q th i j =
      Some (q\<lparr>sl_heap := h[i := Some b, j := Some a]\<rparr>, th(b := set_sleep_index i (th b), a := set_sleep_index j (th a)))"
    by (auto simp: sleep_heap_swap_def load_ok store_ok note_sleep_index_def)
next
  fix q :: sched_sleep and th i
  show "sleep_heap_sift_up q th i =
    (if 0 < i then do { h \<leftarrow> Some (sl_heap q); a \<leftarrow> load h i; b \<leftarrow> load h (par i);
                        if \<not> sleep_before th a b then Some (q, th)
                        else do { (q, th) \<leftarrow> sleep_heap_swap q th i (par i); sleep_heap_sift_up q th (par i) } } else Some (q, th))"
    by (subst sleep_heap_sift_up.simps) (unfold par_def Let_def sleep_heap_less_def, simp)
next
  fix i and q :: sched_sleep and h th
  assume "i < sl_count q" "sl_count q \<le> SCHED_SLEEP_CAPACITY" "Some (sl_heap q) = Some h"
  then have e: "sz_add (sz_mul i 2) 1 = 2 * i + 1" "sz_add (2 * i + 1) 1 = 2 * i + 2" "h = sl_heap q"
    by (simp_all add: SCHED_SLEEP_CAPACITY_def SCHED_RQ_CAPACITY_def sz_add_def sz_mul_def SIZE_MAX_def)
  show "sleep_heap_sift_down q th i =
    do { l \<leftarrow> (if 2 * i + 1 < sl_count q
                 then do { a \<leftarrow> load h (2 * i + 1); b \<leftarrow> load h i; Some (sleep_before th a b) } else Some False);
         let best = (if l then 2 * i + 1 else i) in
         do { r \<leftarrow> (if 2 * i + 2 < sl_count q
                     then do { a \<leftarrow> load h (2 * i + 2); b \<leftarrow> load h best; Some (sleep_before th a b) } else Some False);
              let best = (if r then 2 * i + 2 else best) in
              if best = i then Some (q, th)
              else do { (q, th) \<leftarrow> sleep_heap_swap q th i best; sleep_heap_sift_down q th best } } }"
    unfolding e(3) by (subst sleep_heap_sift_down.simps) (simp only: Let_def sleep_heap_less_def e(1,2))
qed (simp_all add: set_sleep_index_def sleep_key_def sleep_before_key)


section \<open>The invariant\<close>

definition sleepers :: "sched_sleep \<Rightarrow> tid set" where
  "sleepers sl = members (sl_heap sl) (sl_count sl)"

definition sleep_ok :: "sched_sleep \<Rightarrow> thread_store \<Rightarrow> bool" where
  "sleep_ok sl th \<longleftrightarrow> length (sl_heap sl) = SCHED_SLEEP_CAPACITY \<and> slots_ok th_sleep_index (sl_heap sl) (sl_count sl) th \<and>
     heap_ok (keys sleep_key (sl_heap sl) th) (sl_count sl) \<and> (\<forall>t. th_sleep_queued (th t) \<longleftrightarrow> t \<in> sleepers sl)"

text \<open>Threads other than \<open>t\<close> may only change their position.\<close>

definition sleep_change :: "tid \<Rightarrow> thread_store \<Rightarrow> thread_store \<Rightarrow> bool" where
  "sleep_change t th th' \<longleftrightarrow> (\<forall>u. u \<noteq> t \<longrightarrow> (\<exists>i. th' u = set_sleep_index i (th u)))"

lemma set_sleep_index_simps [simp]:
  "set_sleep_index i (set_sleep_index j x) = set_sleep_index i x" "set_sleep_index (th_sleep_index x) x = x"
  "th_sleep_queued (set_sleep_index i x) = th_sleep_queued x" "th_wake_tick (set_sleep_index i x) = th_wake_tick x"
  "sleep_key (set_sleep_index i x) = sleep_key x" "th_sleep_index (set_sleep_index i x) = i"
  by (simp_all add: set_sleep_index_def sleep_key_def)

lemma set_sleep_index_ex [simp]: "\<exists>i. x = set_sleep_index i x"
  by (rule exI [of _ "th_sleep_index x"]) simp

lemma slh_movedD:
  assumes "slh.moved h n th h' th'"
  shows "u \<notin> members h n \<Longrightarrow> th' u = th u" "\<exists>i. th' u = set_sleep_index i (th u)" "length h' = length h" "slots_ok th_sleep_index h' n th'"
    "members h' n = members h n"
proof -
  have u: "th' u = (if u \<in> members h n then set_sleep_index (th_sleep_index (th' u)) (th u) else th u)" for u
    using assms unfolding slh.moved_def by blast
  show "th' u = th u" if "u \<notin> members h n" using u [of u] that by simp
  show "\<exists>i. th' u = set_sleep_index i (th u)" using u [of u] by (cases "u \<in> members h n") auto
  show "length h' = length h" "slots_ok th_sleep_index h' n th'" "members h' n = members h n" using assms unfolding slh.moved_def by simp_all
qed

lemma heap_frame:
  assumes ok: "slots_ok idx h n th" and hp: "heap_ok (keys key h th) n" and n: "n \<le> length h'"
    and h': "\<And>j. j < n \<Longrightarrow> h' ! j = h ! j" and th': "\<And>t. t \<in> members h n \<Longrightarrow> th' t = th t"
  shows "slots_ok idx h' n th'" "heap_ok (keys key h' th') n" "members h' n = members h n"
proof -
  have m: "the (h ! j) \<in> members h n" if "j < n" for j using slot_thread(3) [OF ok that] .
  show "slots_ok idx h' n th'"
    unfolding slots_ok_def
  proof (intro conjI allI impI n)
    fix i assume i: "i < n"
    show "\<exists>t. h' ! i = Some t \<and> idx (th' t) = i" using slot_thread(1,2) [OF ok i] h' [OF i] th' [OF m [OF i]] by auto
  qed
  have "keys key h' th' i = keys key h th i" if "i < n" for i using h' [OF that] th' [OF m [OF that]] by (simp add: keys_def)
  moreover have "par i < n" if "i < n" "0 < i" for i using par_less [OF that(2)] that(1) by linarith
  ultimately show "heap_ok (keys key h' th') n" using hp by (simp add: heap_ok_def)
  show "members h' n = members h n" using h' by (auto simp: members_def)
qed

lemma sleep_heap_remove_at_spec:
  assumes ok: "sleep_ok sl th" and i: "i < sl_count sl" and t: "sl_heap sl ! i = Some t"
  obtains sl' th' where "sleep_heap_remove_at sl th i = Some (sl', th')" "sleep_ok sl' th'" "sleepers sl' = sleepers sl - {t}"
    "th' t = clear_sleep (th t)" "sleep_change t th th'" "sl_count sl' = sl_count sl - 1"
proof -
  let ?h = "sl_heap sl"
  obtain n where n: "sl_count sl = Suc n" using i by (cases "sl_count sl") auto
  have h: "length ?h = SCHED_SLEEP_CAPACITY" "slots_ok th_sleep_index ?h (Suc n) th" "heap_ok (keys sleep_key ?h th) (Suc n)"
    "\<And>u. th_sleep_queued (th u) \<longleftrightarrow> u \<in> members ?h (Suc n)" using ok n by (simp_all add: sleep_ok_def sleepers_def)
  have len: "n < length ?h" using h(2) by (simp add: slots_ok_def)
  let ?M = "members ?h (Suc n) - {t}"
  have "\<exists>h' th'. sleep_heap_remove_at sl th i = Some (sl\<lparr>sl_heap := h', sl_count := n\<rparr>, th'(t := clear_sleep (th t))) \<and> length h' = length ?h \<and>
      slots_ok th_sleep_index h' n (th'(t := clear_sleep (th t))) \<and> heap_ok (keys sleep_key h' (th'(t := clear_sleep (th t)))) n \<and>
      members h' n = ?M \<and> (\<forall>u. u \<noteq> t \<longrightarrow> (\<exists>i. th' u = set_sleep_index i (th u)))"
  proof (cases "i = n")
    case True
    have r: "?h ! n = Some t" using t True by simp
    note d = slh.drop_last [OF h(2,3) r, of "?h[n := None]" "th(t := clear_sleep (th t))"]
    have "sleep_heap_remove_at sl th i = Some (sl\<lparr>sl_heap := ?h[n := None], sl_count := n\<rparr>, th(t := clear_sleep (th t)))"
      using n len r True by (simp add: sleep_heap_remove_at_def load_def store_def Let_def)
    then show ?thesis using d by (intro exI [of _ "?h[n := None]"] exI [of _ th]) simp
  next
    case False
    then have i': "i < n" using i n by simp
    obtain l where l: "?h ! n = Some l" using slot_thread(1) [OF h(2), of n] by auto
    let ?h1 = "?h[i := Some l]" let ?w = "th(l := set_sleep_index i (th l))" let ?q = "sl\<lparr>sl_count := n, sl_heap := ?h1\<rparr>"
    have f: "slots_ok th_sleep_index ?h1 n ?w" "hole_ok (keys sleep_key ?h1 ?w) n i" "members ?h1 n = ?M"
      by (rule slh.fill_hole [OF h(2,3) i' l t]; use i' len l in \<open>auto simp: nth_list_update\<close>)+
    have cap: "n \<le> SCHED_SLEEP_CAPACITY" using len h(1) by simp
    obtain h' th' where r: "do { (q, th) \<leftarrow> sleep_heap_sift_down ?q ?w i; sleep_heap_sift_up q th i } = Some (?q\<lparr>sl_heap := h'\<rparr>, th')"
      "slh.moved ?h1 n ?w h' th'" "heap_ok (keys sleep_key h' th') n"
      using slh.fix_down_then_up [of ?q ?h1 n ?w i, OF _ _ cap f(1) i' f(2)] by auto
    note m = slh_movedD [OF r(2)]
    have lt: "l \<noteq> t" using slots_distinct [OF h(2), of i n] i' t l by auto
    have tt: "th' t = th t" using m(1) [of t] f(3) lt by simp
    have e: "load ?h i = Some (Some t)" "load ?h n = Some (Some l)" "store ?h i (Some l) = Some ?h1" "store h' n None = Some (h'[n := None])"
      using t l i' len m(3) by (simp_all add: load_def store_def)
    have run: "sleep_heap_remove_at sl th i = Some (sl\<lparr>sl_heap := h'[n := None], sl_count := n\<rparr>, th'(t := clear_sleep (th t)))"
      using n i' e r(1) tt unfolding sleep_heap_remove_at_def Let_def by (simp add: note_sleep_index_def)
    have fr: "slots_ok th_sleep_index (h'[n := None]) n (th'(t := clear_sleep (th t)))"
      "heap_ok (keys sleep_key (h'[n := None]) (th'(t := clear_sleep (th t)))) n" "members (h'[n := None]) n = members h' n"
      by (rule heap_frame [OF m(4) r(3)]; use m(3,5) f(3) len in auto)+
    have "\<exists>i. th' u = set_sleep_index i (th u)" for u using m(2) [of u] by (cases "u = l") auto
    then show ?thesis using run fr m(3,5) f(3) by (intro exI [of _ "h'[n := None]"] exI [of _ th']) simp
  qed
  then obtain h' th' where r: "sleep_heap_remove_at sl th i = Some (sl\<lparr>sl_heap := h', sl_count := n\<rparr>, th'(t := clear_sleep (th t)))" "length h' = length ?h"
      "slots_ok th_sleep_index h' n (th'(t := clear_sleep (th t)))" "heap_ok (keys sleep_key h' (th'(t := clear_sleep (th t)))) n"
      "members h' n = ?M" "\<And>u. u \<noteq> t \<Longrightarrow> \<exists>i. th' u = set_sleep_index i (th u)" by blast
  have "th_sleep_queued ((th'(t := clear_sleep (th t))) u) \<longleftrightarrow> u \<in> ?M" for u
    using h(4) [of u] r(6) [of u] by (cases "u = t") (auto simp: clear_sleep_def)
  then show thesis using that [OF r(1)] r(2-6) n h(1) by (simp add: sleep_ok_def sleepers_def sleep_change_def)
qed

lemma sleep_find_loop_spec:
  assumes "i + n \<le> length h"
  shows "(\<exists>j. i \<le> j \<and> j < i + n \<and> h ! j = Some t \<and> sleep_find_loop h t n i = Some (int j)) \<or>
    (\<forall>j. i \<le> j \<longrightarrow> j < i + n \<longrightarrow> h ! j \<noteq> Some t) \<and> sleep_find_loop h t n i = Some (-1)"
  using assms
proof (induction h t n i rule: sleep_find_loop.induct)
  case (1 h t i)
  then show ?case by simp
next
  case (2 h t n i)
  have ld: "load h i = Some (h ! i)" using 2(2) by (simp add: load_ok)
  show ?case
  proof (cases "h ! i = Some t")
    case True
    then show ?thesis using ld by auto
  next
    case False
    have run: "sleep_find_loop h t (Suc n) i = sleep_find_loop h t n (i + 1)" using ld False by simp
    have le: "i \<le> j \<longleftrightarrow> j = i \<or> i + 1 \<le> j" for j by auto
    from 2(1) [OF ld False] 2(2) show ?thesis unfolding run le using False by auto
  qed
qed

lemma sleep_heap_find_spec:
  assumes "sleep_ok sl th"
  shows "(\<exists>j. t \<in> sleepers sl \<and> sleep_heap_find sl (Some t) = Some (int j) \<and> j < sl_count sl \<and> sl_heap sl ! j = Some t) \<or>
    t \<notin> sleepers sl \<and> sleep_heap_find sl (Some t) = Some (-1)"
proof -
  have "sl_count sl \<le> length (sl_heap sl)" using assms by (simp add: sleep_ok_def slots_ok_def)
  then show ?thesis using sleep_find_loop_spec [of 0 "sl_count sl" "sl_heap sl" t] by (auto simp: sleep_heap_find_def sleepers_def members_def)
qed

lemma sleep_heap_contains_eq:
  assumes "sleep_ok sl th"
  shows "sleep_heap_contains sl th (Some t) = Some (t \<in> sleepers sl)"
    "t \<in> sleepers sl \<Longrightarrow> th_sleep_index (th t) < sl_count sl \<and> sl_heap sl ! th_sleep_index (th t) = Some t"
proof -
  have sl: "slots_ok th_sleep_index (sl_heap sl) (sl_count sl) th" "th_sleep_queued (th t) \<longleftrightarrow> t \<in> sleepers sl"
    using assms by (simp_all add: sleep_ok_def)
  then show p: "t \<in> sleepers sl \<Longrightarrow> th_sleep_index (th t) < sl_count sl \<and> sl_heap sl ! th_sleep_index (th t) = Some t"
    using slots_member [OF sl(1), of t] by (simp add: sleepers_def)
  have "load (sl_heap sl) (th_sleep_index (th t)) = Some (Some t)" if "t \<in> sleepers sl"
    using p [OF that] sl(1) by (simp add: load_def slots_ok_def)
  then show "sleep_heap_contains sl th (Some t) = Some (t \<in> sleepers sl)" using p sl(2) by (auto simp: sleep_heap_contains_def)
qed

lemma sleep_change_refl: "sleep_change t th th"
  by (simp add: sleep_change_def)

lemma sleep_change_trans:
  assumes "sleep_change t th th1" "sleep_change t th1 th2"
  shows "sleep_change t th th2"
  unfolding sleep_change_def
proof (intro allI impI)
  fix u assume u: "u \<noteq> t"
  obtain i j where "th1 u = set_sleep_index i (th u)" "th2 u = set_sleep_index j (th1 u)"
    using assms u unfolding sleep_change_def by blast
  then show "\<exists>i. th2 u = set_sleep_index i (th u)" by auto
qed

lemma sleep_change_upd: "sleep_change t th (th(t := x))"
  by (simp add: sleep_change_def)

text \<open>Whatever the thread's marks say, removal takes it out and clears them.\<close>

lemma sleep_heap_remove_spec:
  assumes ok: "sleep_ok sl th"
  obtains sl' th' where "sleep_heap_remove sl th (Some t) = Some (sl', th')" "sleep_ok sl' th'" "sleepers sl' = sleepers sl - {t}"
    "th' t = clear_sleep (th t)" "sleep_change t th th'"
proof (cases "t \<in> sleepers sl")
  case True
  note c = sleep_heap_contains_eq [OF ok, of t]
  obtain sl' th' where "sleep_heap_remove_at sl th (th_sleep_index (th t)) = Some (sl', th')" "sleep_ok sl' th'" "sleepers sl' = sleepers sl - {t}"
    "th' t = clear_sleep (th t)" "sleep_change t th th'"
    using sleep_heap_remove_at_spec [OF ok, of "th_sleep_index (th t)" t] c(2) [OF True] by blast
  then show thesis using that c(1) True by (simp add: sleep_heap_remove_def)
next
  case False
  have "sleep_heap_remove sl th (Some t) = Some (sl, th(t := clear_sleep (th t)))"
    using sleep_heap_contains_eq(1) [OF ok, of t] sleep_heap_find_spec [OF ok, of t] False by (auto simp: sleep_heap_remove_def)
  moreover have "sleep_ok sl (th(t := clear_sleep (th t)))"
  proof -
    have h: "slots_ok th_sleep_index (sl_heap sl) (sl_count sl) th" "heap_ok (keys sleep_key (sl_heap sl) th) (sl_count sl)"
      "sl_count sl \<le> length (sl_heap sl)" using ok by (simp_all add: sleep_ok_def slots_ok_def)
    have "slots_ok th_sleep_index (sl_heap sl) (sl_count sl) (th(t := clear_sleep (th t)))"
      "heap_ok (keys sleep_key (sl_heap sl) (th(t := clear_sleep (th t)))) (sl_count sl)"
      by (rule heap_frame [OF h]; use False in \<open>auto simp: sleepers_def\<close>)+
    then show ?thesis using ok False by (simp add: sleep_ok_def clear_sleep_def)
  qed
  ultimately show thesis using that False sleep_change_upd by auto
qed

lemma sleep_heap_forget_spec:
  assumes ok: "sleep_ok sl th"
  shows "t \<notin> sleepers sl \<Longrightarrow> sleep_heap_forget sl th t = Some (sl, th)"
  using sleep_heap_find_spec [OF ok, of t] by (auto simp: sleep_heap_forget_def)

lemma sleep_heap_insert_spec:
  assumes ok: "sleep_ok sl th" and room: "t \<in> sleepers sl \<or> sl_count sl < SCHED_SLEEP_CAPACITY"
  obtains sl' th' i where "sleep_heap_insert sl th (Some t) = Some (True, sl', th')" "sleep_ok sl' th'" "sleepers sl' = insert t (sleepers sl)"
    "th' t = (th t)\<lparr>th_sleep_queued := True, th_sleep_index := i\<rparr>" "sleep_change t th th'"
proof -
  have "\<exists>sl1 th1. (if th_sleep_queued (th t)
        then do { here \<leftarrow> sleep_heap_contains sl th (Some t);
                  (sl, th) \<leftarrow> (if here then sleep_heap_remove_at sl th (th_sleep_index (th t)) else sleep_heap_forget sl th t);
                  Some (sl, th(t := clear_sleep (th t))) }
        else Some (sl, th)) = Some (sl1, th1) \<and> sleep_ok sl1 th1 \<and> sleepers sl1 = sleepers sl - {t} \<and> sl_count sl1 < SCHED_SLEEP_CAPACITY \<and>
      (\<exists>q i. th1 t = (th t)\<lparr>th_sleep_queued := q, th_sleep_index := i\<rparr>) \<and> sleep_change t th th1"
  proof (cases "t \<in> sleepers sl")
    case True
    note c = sleep_heap_contains_eq [OF ok, of t]
    obtain sl' th' where s: "sleep_heap_remove_at sl th (th_sleep_index (th t)) = Some (sl', th')" "sleep_ok sl' th'" "sleepers sl' = sleepers sl - {t}"
      "th' t = clear_sleep (th t)" "sleep_change t th th'" "sl_count sl' = sl_count sl - 1"
      using sleep_heap_remove_at_spec [OF ok, of "th_sleep_index (th t)" t] c(2) [OF True] by blast
    have "sl_count sl' < SCHED_SLEEP_CAPACITY" using s(6) c(2) [OF True] ok by (auto simp: sleep_ok_def slots_ok_def)
    moreover have "th'(t := clear_sleep (th' t)) = th'" using s(4) by (simp add: clear_sleep_def fun_upd_idem)
    moreover have "th_sleep_queued (th t)" using True ok by (simp add: sleep_ok_def)
    ultimately show ?thesis using s c(1) True by (auto simp: clear_sleep_def)
  next
    case False
    then have "\<not> th_sleep_queued (th t)" using ok by (simp add: sleep_ok_def)
    then show ?thesis using ok room False sleep_change_refl
      by (auto intro!: exI [of _ "th_sleep_queued (th t)"] exI [of _ "th_sleep_index (th t)"])
  qed
  then obtain sl1 th1 q j where s1: "(if th_sleep_queued (th t)
        then do { here \<leftarrow> sleep_heap_contains sl th (Some t);
                  (sl, th) \<leftarrow> (if here then sleep_heap_remove_at sl th (th_sleep_index (th t)) else sleep_heap_forget sl th t);
                  Some (sl, th(t := clear_sleep (th t))) }
        else Some (sl, th)) = Some (sl1, th1)" "sleep_ok sl1 th1" "sleepers sl1 = sleepers sl - {t}" "sl_count sl1 < SCHED_SLEEP_CAPACITY"
      "th1 t = (th t)\<lparr>th_sleep_queued := q, th_sleep_index := j\<rparr>" "sleep_change t th th1" by blast
  let ?n = "sl_count sl1" let ?x = "(th1 t)\<lparr>th_sleep_queued := True\<rparr>" let ?h = "sl_heap sl1"
  have h: "length ?h = SCHED_SLEEP_CAPACITY" "slots_ok th_sleep_index ?h ?n th1" "heap_ok (keys sleep_key ?h th1) ?n" "t \<notin> members ?h ?n"
    using s1(2,3) by (simp_all add: sleep_ok_def sleepers_def)
  have len: "?n < length ?h" using h(1) s1(4) by simp
  let ?h1 = "?h[?n := Some t]" let ?w = "th1(t := set_sleep_index ?n ?x)" let ?q = "sl1\<lparr>sl_heap := ?h1, sl_count := Suc ?n\<rparr>"
  note a = slh.append_slot(1,2) [OF h(2,3,4) len, of ?x] slh.append_slot(3) [OF h(2,3,4) len]
  obtain h' th' where r: "sleep_heap_sift_up ?q ?w ?n = Some (?q\<lparr>sl_heap := h'\<rparr>, th')" "slh.moved ?h1 (Suc ?n) ?w h' th'" "heap_ok (keys sleep_key h' th') (Suc ?n)"
    using slh.up_spec [of ?q ?h1 "Suc ?n" ?w ?n] a(1,2) by auto
  note m = slh_movedD [OF r(2)]
  have "sz_add ?n 1 = Suc ?n" using s1(4) by (simp add: sz_add_def SCHED_SLEEP_CAPACITY_def SCHED_RQ_CAPACITY_def SIZE_MAX_def)
  then have run: "sleep_heap_insert sl th (Some t) = Some (True, ?q\<lparr>sl_heap := h'\<rparr>, th')"
    using s1(1,4) sleep_heap_forget_spec [OF s1(2), of t] s1(3) len r(1)
    unfolding sleep_heap_insert_def option.case Option.bind.simps s1(1) prod.case
    by (simp add: store_ok Let_def set_sleep_index_def)
  obtain i where ti: "th' t = set_sleep_index i (set_sleep_index ?n ?x)" using m(2) [of t] by auto
  have uu: "\<exists>i. th' u = set_sleep_index i (th1 u)" if "u \<noteq> t" for u using m(2) [of u] that by simp
  have mem: "members h' (Suc ?n) = insert t (sleepers sl)" using m(5) a(3) s1(3) by (auto simp: sleepers_def)
  have "th_sleep_queued (th' u) \<longleftrightarrow> u \<in> members h' (Suc ?n)" for u
  proof (cases "u = t")
    case True
    then show ?thesis using ti mem by simp
  next
    case False
    obtain k where "th' u = set_sleep_index k (th1 u)" using uu [OF False] by blast
    moreover have "th_sleep_queued (th1 u) \<longleftrightarrow> u \<in> sleepers sl - {t}" using s1(2,3) by (simp add: sleep_ok_def)
    ultimately show ?thesis using mem False by simp
  qed
  then have fin: "sleep_ok (?q\<lparr>sl_heap := h'\<rparr>) th'" using m(3,4) r(3) h(1) by (simp add: sleep_ok_def sleepers_def)
  have me: "sleepers (?q\<lparr>sl_heap := h'\<rparr>) = insert t (sleepers sl)" using mem by (simp add: sleepers_def)
  have tt: "th' t = (th t)\<lparr>th_sleep_queued := True, th_sleep_index := i\<rparr>" using ti s1(5) by (simp add: set_sleep_index_def)
  have "sleep_change t th1 th'" using uu by (simp add: sleep_change_def)
  then show thesis by (rule that [OF run fin me tt sleep_change_trans [OF s1(6)]])
qed

lemma sleep_heap_insert_full:
  assumes ok: "sleep_ok sl th" and t: "t \<notin> sleepers sl" "SCHED_SLEEP_CAPACITY \<le> sl_count sl"
  shows "sleep_heap_insert sl th (Some t) = Some (False, sl, th)"
proof -
  have "\<not> th_sleep_queued (th t)" using ok t(1) by (simp add: sleep_ok_def)
  then show ?thesis using sleep_heap_forget_spec [OF ok t(1)] t(2) by (simp add: sleep_heap_insert_def)
qed

lemma sleep_heap_top_spec:
  assumes ok: "sleep_ok sl th"
  obtains "sleep_heap_top sl = Some None" "sleepers sl = {}"
  | m where "sleep_heap_top sl = Some (Some m)" "m \<in> sleepers sl" "sl_heap sl ! 0 = Some m" "0 < sl_count sl"
      "\<And>u. u \<in> sleepers sl \<Longrightarrow> sleep_key (th m) \<le> sleep_key (th u)"
proof (cases "sl_count sl = 0")
  case True
  then show thesis using that(1) by (simp add: sleep_heap_top_def sleepers_def members_def)
next
  case False
  have h: "slots_ok th_sleep_index (sl_heap sl) (sl_count sl) th" "heap_ok (keys sleep_key (sl_heap sl) th) (sl_count sl)"
    using ok by (simp_all add: sleep_ok_def)
  obtain m where m: "sl_heap sl ! 0 = Some m" using slot_thread(1) [OF h(1), of 0] False by auto
  have "sleep_heap_top sl = Some (Some m)" using False m h(1) by (auto simp: sleep_heap_top_def load_def slots_ok_def)
  moreover have "m \<in> sleepers sl" using m False by (auto simp: sleepers_def members_def)
  moreover have "sleep_key (th m) \<le> sleep_key (th u)" if u: "u \<in> sleepers sl" for u
  proof -
    obtain i where i: "i < sl_count sl" "sl_heap sl ! i = Some u" using u by (auto simp: sleepers_def members_def)
    then show ?thesis using heap_root_min [OF h(2) i(1)] m by (simp add: keys_def)
  qed
  ultimately show thesis using that(2) m False by blast
qed

lemma sleep_ok_upd:
  assumes "sleep_ok sl th" "sleep_key (f (th t)) = sleep_key (th t)" "th_sleep_index (f (th t)) = th_sleep_index (th t)"
    "th_sleep_queued (f (th t)) = th_sleep_queued (th t)"
  shows "sleep_ok sl (th(t := f (th t)))"
proof -
  have "keys sleep_key (sl_heap sl) (th(t := f (th t))) = keys sleep_key (sl_heap sl) th" using assms(2) by (auto simp: keys_def)
  moreover have "slots_ok th_sleep_index (sl_heap sl) (sl_count sl) (th(t := f (th t)))"
    using assms(1,3) unfolding sleep_ok_def slots_ok_def by (metis fun_upd_apply)
  ultimately show ?thesis using assms(1,4) by (simp add: sleep_ok_def)
qed

text \<open>The tick of a thread that does not sleep can be set freely.\<close>

lemma sleep_ok_idle:
  assumes ok: "sleep_ok sl th" and t: "\<not> th_sleep_queued (th t)" "\<not> th_sleep_queued x"
  shows "sleep_ok sl (th(t := x))"
proof -
  have h: "slots_ok th_sleep_index (sl_heap sl) (sl_count sl) th" "heap_ok (keys sleep_key (sl_heap sl) th) (sl_count sl)"
    "sl_count sl \<le> length (sl_heap sl)" "t \<notin> sleepers sl" using ok t(1) by (simp_all add: sleep_ok_def slots_ok_def)
  have "slots_ok th_sleep_index (sl_heap sl) (sl_count sl) (th(t := x))" "heap_ok (keys sleep_key (sl_heap sl) (th(t := x))) (sl_count sl)"
    by (rule heap_frame [OF h(1-3)]; use h(4) in \<open>auto simp: sleepers_def\<close>)+
  then show ?thesis using ok t by (simp add: sleep_ok_def)
qed


section \<open>Properties\<close>

text \<open>
  (C14) The sleep heap is a priority queue of the sleeping threads. From any well-formed heap, inserting a thread
  (again, if it is there already) adds exactly it unless the heap is full, which is reported and changes
  nothing; removing a thread takes out exactly it and clears its marks; the top is a sleeping thread that no other precedes
  by wake-up tick and pid, and NULL exactly when nobody sleeps. No operation faults, the heap stays well
  formed, and of the other threads only positions change.
\<close>

theorem sleep_heap_correct:
  assumes "sleep_ok sl th"
  shows "(\<exists>b sl' th'. sleep_heap_insert sl th (Some t) = Some (b, sl', th') \<and> sleep_ok sl' th' \<and>
       (b \<longleftrightarrow> t \<in> sleepers sl \<or> sl_count sl < SCHED_SLEEP_CAPACITY) \<and> sleepers sl' = (if b then insert t (sleepers sl) else sleepers sl) \<and>
       th_wake_tick (th' t) = th_wake_tick (th t) \<and> (\<forall>u. u \<noteq> t \<longrightarrow> (\<exists>i. th' u = (th u)\<lparr>th_sleep_index := i\<rparr>))) \<and>
    (\<exists>sl' th'. sleep_heap_remove sl th (Some t) = Some (sl', th') \<and> sleep_ok sl' th' \<and> sleepers sl' = sleepers sl - {t} \<and>
       th' t = (th t)\<lparr>th_sleep_queued := False, th_sleep_index := 0\<rparr> \<and> (\<forall>u. u \<noteq> t \<longrightarrow> (\<exists>i. th' u = (th u)\<lparr>th_sleep_index := i\<rparr>))) \<and>
    (\<exists>p. sleep_heap_top sl = Some p \<and>
       (case p of None \<Rightarrow> sleepers sl = {}
        | Some m \<Rightarrow> m \<in> sleepers sl \<and> (\<forall>u \<in> sleepers sl. \<not> sleep_before th (Some u) (Some m))))"
proof (intro conjI)
  show "\<exists>b sl' th'. sleep_heap_insert sl th (Some t) = Some (b, sl', th') \<and> sleep_ok sl' th' \<and>
      (b \<longleftrightarrow> t \<in> sleepers sl \<or> sl_count sl < SCHED_SLEEP_CAPACITY) \<and> sleepers sl' = (if b then insert t (sleepers sl) else sleepers sl) \<and>
      th_wake_tick (th' t) = th_wake_tick (th t) \<and> (\<forall>u. u \<noteq> t \<longrightarrow> (\<exists>i. th' u = (th u)\<lparr>th_sleep_index := i\<rparr>))"
  proof (cases "t \<in> sleepers sl \<or> sl_count sl < SCHED_SLEEP_CAPACITY")
    case True
    obtain sl' th' i where "sleep_heap_insert sl th (Some t) = Some (True, sl', th')" "sleep_ok sl' th'" "sleepers sl' = insert t (sleepers sl)"
      "th' t = (th t)\<lparr>th_sleep_queued := True, th_sleep_index := i\<rparr>" "sleep_change t th th'" by (rule sleep_heap_insert_spec [OF assms True])
    then show ?thesis using True by (intro exI [of _ True]) (simp add: sleep_change_def set_sleep_index_def)
  next
    case False
    then show ?thesis using sleep_heap_insert_full [OF assms] assms
      by (intro exI [of _ False]) (simp add: set_sleep_index_ex [unfolded set_sleep_index_def])
  qed
  obtain sl' th' where "sleep_heap_remove sl th (Some t) = Some (sl', th')" "sleep_ok sl' th'" "sleepers sl' = sleepers sl - {t}"
    "th' t = clear_sleep (th t)" "sleep_change t th th'" by (rule sleep_heap_remove_spec [OF assms])
  then show "\<exists>sl' th'. sleep_heap_remove sl th (Some t) = Some (sl', th') \<and> sleep_ok sl' th' \<and> sleepers sl' = sleepers sl - {t} \<and>
      th' t = (th t)\<lparr>th_sleep_queued := False, th_sleep_index := 0\<rparr> \<and> (\<forall>u. u \<noteq> t \<longrightarrow> (\<exists>i. th' u = (th u)\<lparr>th_sleep_index := i\<rparr>))"
    by (simp add: sleep_change_def set_sleep_index_def clear_sleep_def)
  show "\<exists>p. sleep_heap_top sl = Some p \<and>
      (case p of None \<Rightarrow> sleepers sl = {}
       | Some m \<Rightarrow> m \<in> sleepers sl \<and> (\<forall>u \<in> sleepers sl. \<not> sleep_before th (Some u) (Some m)))"
    by (rule sleep_heap_top_spec [OF assms]) (simp_all add: sleep_before_key not_less)
qed

lemma demo_sleep_ok: "sleep_ok (sleep demo_state) (threads demo_state)"
  by (simp add: sleep_ok_def demo_state_def slots_ok_def heap_ok_def sleepers_def members_def demo_thread_def zero_thread_def)

theorem sleep_heap_correct_witness:
  "\<exists>sl th. sleep_heap_insert (sleep demo_state) (threads demo_state) (Some 2) = Some (True, sl, th) \<and> sleepers sl = {2} \<and> sleep_ok sl th"
  using sleep_heap_correct [OF demo_sleep_ok, of 2]
  by (auto simp: sleepers_def members_def demo_state_def SCHED_SLEEP_CAPACITY_def SCHED_RQ_CAPACITY_def)

end
