(* ===== verification/Cpu_Select.thy ===== *)
theory Cpu_Select
  imports Sched_State
begin

text \<open>
  The choice of a core for a thread: the load and distance functions and \<open>pick_cpu\<close> of
  \<open>kernel/sched/select.c\<close>, and the wake-up placement \<open>pick_target_cpu\<close> of
  \<open>kernel/sched/create.c\<close>. Loops over the cores take the number of iterations left first.
\<close>

definition sched_cpu_load :: "sched_state \<Rightarrow> size_t \<Rightarrow> size_t exec" where
  "sched_cpu_load s cpu_id =
     (if MAX_CORES \<le> cpu_id then Some 0
      else do { rq \<leftarrow> load (runqueues s) cpu_id;
                cpu \<leftarrow> load (cpus s) cpu_id;
                Some (if cpu_current cpu \<noteq> None \<and> cpu_current cpu \<noteq> cpu_idle_thread cpu
                      then sz_add (rq_nr_running rq) 1 else rq_nr_running rq) })"

definition sched_rq_depth :: "sched_state \<Rightarrow> size_t \<Rightarrow> size_t exec" where
  "sched_rq_depth s cpu_id =
     (if MAX_CORES \<le> cpu_id then Some 0
      else do { rq \<leftarrow> load (runqueues s) cpu_id; Some (rq_nr_running rq) })"

definition cpu_needs_ipi :: "sched_state \<Rightarrow> size_t \<Rightarrow> bool exec" where
  "cpu_needs_ipi s cpu_id =
     (if MAX_CORES \<le> cpu_id then Some False
      else do { cpu \<leftarrow> load (cpus s) cpu_id;
                Some (cpu_current cpu = None \<or> cpu_current cpu = cpu_idle_thread cpu) })"

definition sched_cpu_distance :: "size_t \<Rightarrow> size_t \<Rightarrow> size_t \<Rightarrow> size_t" where
  "sched_cpu_distance from_cpu to_cpu cpu_count =
     (if cpu_count = 0 \<or> cpu_count \<le> from_cpu \<or> cpu_count \<le> to_cpu then SIZE_MAX
      else let direct = (if to_cpu < from_cpu then from_cpu - to_cpu else to_cpu - from_cpu);
               wrap = cpu_count - direct in
        if direct < wrap then direct else wrap)"

definition in_mask :: "u64 \<Rightarrow> size_t \<Rightarrow> bool" where
  "in_mask m cpu \<longleftrightarrow> m AND push_bit cpu 1 \<noteq> 0"

fun pick_cpu_loop ::
  "sched_env \<Rightarrow> sched_state \<Rightarrow> u64 \<Rightarrow> size_t \<Rightarrow> nat \<Rightarrow> size_t \<Rightarrow> size_t \<Rightarrow> size_t \<Rightarrow> size_t exec" where
  "pick_cpu_loop e s allowed fallback_cpu 0 cpu best_cpu best_load = Some best_cpu"
| "pick_cpu_loop e s allowed fallback_cpu (Suc n) cpu best_cpu best_load =
     (if \<not> in_mask allowed cpu then pick_cpu_loop e s allowed fallback_cpu n (cpu + 1) best_cpu best_load
      else do { core \<leftarrow> load (env_cores_local e) cpu;
                if \<not> core_valid core \<or> \<not> core_online core
                then pick_cpu_loop e s allowed fallback_cpu n (cpu + 1) best_cpu best_load
                else do { ld \<leftarrow> sched_cpu_load s cpu;
                          let better = (MAX_CORES \<le> best_cpu \<or> ld < best_load);
                              better = (if \<not> better \<and> ld = best_load then cpu = fallback_cpu else better) in
                          if better then pick_cpu_loop e s allowed fallback_cpu n (cpu + 1) cpu ld
                          else pick_cpu_loop e s allowed fallback_cpu n (cpu + 1) best_cpu best_load } })"

fun first_cpu_loop :: "u64 \<Rightarrow> nat \<Rightarrow> size_t \<Rightarrow> size_t" where
  "first_cpu_loop m 0 cpu = 0"
| "first_cpu_loop m (Suc n) cpu = (if in_mask m cpu then cpu else first_cpu_loop m n (cpu + 1))"

definition pick_cpu :: "sched_env \<Rightarrow> sched_state \<Rightarrow> tid ptr \<Rightarrow> size_t \<Rightarrow> size_t exec" where
  "pick_cpu e s thread fallback_cpu =
     (let ncpu = (if MAX_CORES < env_core_count e then MAX_CORES else env_core_count e);
          ncpu = (if ncpu = 0 then 1 else ncpu) in
      do { online \<leftarrow> sched_online_cpu_mask e;
           let allowed = (case thread of Some t \<Rightarrow> th_allowed_cpu_mask (threads s t) | None \<Rightarrow> 0);
               allowed = (if allowed = 0 then online else allowed);
               allowed = allowed AND online in
           if allowed = 0 then Some (if fallback_cpu < ncpu then fallback_cpu else 0)
           else do { best_cpu \<leftarrow> pick_cpu_loop e s allowed fallback_cpu ncpu 0 MAX_CORES SIZE_MAX;
                     if best_cpu < MAX_CORES then Some best_cpu
                     else if fallback_cpu < ncpu \<and> in_mask allowed fallback_cpu then Some fallback_cpu
                     else Some (first_cpu_loop allowed ncpu 0) } })"


section \<open>Wake-up placement\<close>

definition wake_cpu_count :: "sched_env \<Rightarrow> size_t" where
  "wake_cpu_count e =
     (let ncpu = env_core_count e;
          ncpu = (if MAX_CORES < ncpu then MAX_CORES else ncpu);
          ncpu = (if 64 < ncpu then 64 else ncpu) in
      if ncpu = 0 then 1 else ncpu)"

definition wake_mask :: "sched_state \<Rightarrow> tid ptr \<Rightarrow> u64 \<Rightarrow> u64" where
  "wake_mask s thread online =
     (let allowed = (case thread of Some t \<Rightarrow> th_allowed_cpu_mask (threads s t) | None \<Rightarrow> 0);
          allowed = (if allowed = 0 then online else allowed);
          allowed = allowed AND online in
      if allowed = 0 then (if online \<noteq> 0 then online else 1) else allowed)"

definition first_cpu_in_mask :: "u64 \<Rightarrow> size_t \<Rightarrow> size_t" where
  "first_cpu_in_mask m ncpu = first_cpu_loop m ncpu 0"

fun pick_idle_loop :: "u64 \<Rightarrow> size_t \<Rightarrow> size_t \<Rightarrow> nat \<Rightarrow> size_t \<Rightarrow> size_t \<Rightarrow> size_t \<Rightarrow> size_t" where
  "pick_idle_loop idle_mask base_cpu ncpu 0 cpu best_cpu best_distance = best_cpu"
| "pick_idle_loop idle_mask base_cpu ncpu (Suc n) cpu best_cpu best_distance =
     (if \<not> in_mask idle_mask cpu then pick_idle_loop idle_mask base_cpu ncpu n (cpu + 1) best_cpu best_distance
      else let distance = sched_cpu_distance base_cpu cpu ncpu;
               no_best = (MAX_CORES \<le> best_cpu);
               closer = (distance < best_distance);
               tie_break = (distance = best_distance \<and> cpu < best_cpu);
               better = (no_best \<or> closer \<or> tie_break) in
        if better then pick_idle_loop idle_mask base_cpu ncpu n (cpu + 1) cpu distance
        else pick_idle_loop idle_mask base_cpu ncpu n (cpu + 1) best_cpu best_distance)"

definition pick_idle_cpu :: "u64 \<Rightarrow> size_t \<Rightarrow> size_t \<Rightarrow> size_t" where
  "pick_idle_cpu idle_mask base_cpu ncpu = pick_idle_loop idle_mask base_cpu ncpu ncpu 0 MAX_CORES SIZE_MAX"

fun pick_min_loop :: "u64 \<Rightarrow> size_t \<Rightarrow> nat \<Rightarrow> nat \<Rightarrow> size_t \<Rightarrow> size_t" where
  "pick_min_loop min_mask ncpu start 0 step = 0"
| "pick_min_loop min_mask ncpu start (Suc n) step =
     (let cpu = sz_add start step mod ncpu in
      if in_mask min_mask cpu then cpu else pick_min_loop min_mask ncpu start n (step + 1))"

definition pick_min_cpu :: "sched_state \<Rightarrow> u64 \<Rightarrow> size_t \<Rightarrow> size_t \<times> sched_state" where
  "pick_min_cpu s min_mask ncpu =
     (let start = wake_rr_cursor s;
          s = s\<lparr>wake_rr_cursor := start + 1\<rparr> in
      (pick_min_loop min_mask ncpu (unat start) ncpu 0, s))"

definition wake_can_prefer :: "sched_state \<Rightarrow> tid ptr \<Rightarrow> size_t \<Rightarrow> u64 \<Rightarrow> bool" where
  "wake_can_prefer s thread ncpu allowed =
     (case thread of
        None \<Rightarrow> False
      | Some t \<Rightarrow> if ncpu \<le> th_last_cpu (threads s t) then False else in_mask allowed (th_last_cpu (threads s t)))"

fun target_loop ::
  "sched_state \<Rightarrow> u64 \<Rightarrow> nat \<Rightarrow> size_t \<Rightarrow> size_t \<Rightarrow> bool \<Rightarrow> u64 \<Rightarrow> u64 \<Rightarrow> (size_t \<times> bool \<times> u64 \<times> u64) exec" where
  "target_loop s allowed 0 cpu min_load found idle_mask min_mask = Some (min_load, found, idle_mask, min_mask)"
| "target_loop s allowed (Suc n) cpu min_load found idle_mask min_mask =
     (if \<not> in_mask allowed cpu then target_loop s allowed n (cpu + 1) min_load found idle_mask min_mask
      else do { ld \<leftarrow> sched_cpu_load s cpu;
                let idle_mask = (if ld = 0 then idle_mask OR push_bit cpu 1 else idle_mask) in
                if \<not> found \<or> ld < min_load
                then target_loop s allowed n (cpu + 1) ld True idle_mask (push_bit cpu 1)
                else if ld = min_load
                then target_loop s allowed n (cpu + 1) min_load found idle_mask (min_mask OR push_bit cpu 1)
                else target_loop s allowed n (cpu + 1) min_load found idle_mask min_mask })"

definition pick_target_cpu :: "sched_env \<Rightarrow> sched_state \<Rightarrow> tid ptr \<Rightarrow> (size_t \<times> sched_state) exec" where
  "pick_target_cpu e s thread =
     (let ncpu = wake_cpu_count e in
      do { online \<leftarrow> sched_online_cpu_mask e;
           let allowed = wake_mask s thread online in
           do { (min_load, found, idle_mask, min_mask) \<leftarrow> target_loop s allowed ncpu 0 SIZE_MAX False 0 0;
                if \<not> found then Some (0, s)
                else let preferred_cpu = (if wake_can_prefer s thread ncpu allowed
                                          then (case thread of Some t \<Rightarrow> th_last_cpu (threads s t) | None \<Rightarrow> MAX_CORES)
                                          else MAX_CORES);
                         base_cpu = (if ncpu \<le> preferred_cpu \<or> \<not> in_mask allowed preferred_cpu
                                     then first_cpu_in_mask min_mask ncpu else preferred_cpu);
                         best_idle = (if idle_mask \<noteq> 0 then pick_idle_cpu idle_mask base_cpu ncpu else MAX_CORES) in
                  if best_idle < MAX_CORES then Some (best_idle, s)
                  else do { near \<leftarrow> (if preferred_cpu < ncpu
                                       then do { ld \<leftarrow> sched_cpu_load s preferred_cpu; Some (ld \<le> sz_add min_load SCHED_WAKE_LOAD_SLOP) }
                                       else Some False);
                            if near then Some (preferred_cpu, s)
                            else Some (if min_mask \<noteq> 0 then pick_min_cpu s min_mask ncpu else (0, s)) } } })"


section \<open>Masks and loads\<close>

lemma in_mask_bit [simp]: "in_mask m c \<longleftrightarrow> bit m c"
  by (simp add: in_mask_def push_bit_eq_mult and_exp_eq_0_iff_not_bit)

lemma bit_or_push: "c < 64 \<Longrightarrow> bit (m OR 2 ^ k :: u64) c \<longleftrightarrow> bit m c \<or> c = k"
  by (auto simp: bit_simps)

lemma bit_push: "c < 64 \<Longrightarrow> bit (2 ^ k :: u64) c \<longleftrightarrow> c = k"
  by (auto simp: bit_simps)

definition core_usable :: "sched_env \<Rightarrow> size_t \<Rightarrow> bool" where
  "core_usable e c \<longleftrightarrow> core_valid (env_cores_local e ! c) \<and> core_online (env_cores_local e ! c)"

lemma online_mask_loop_bits:
  assumes "i + n \<le> length (env_cores_local e)" "i + n \<le> 64"
  shows "\<exists>m'. online_mask_loop e n i m = Some m' \<and> (\<forall>c < 64. bit m' c \<longleftrightarrow> bit m c \<or> i \<le> c \<and> c < i + n \<and> core_usable e c)"
  using assms
proof (induction e n i m rule: online_mask_loop.induct)
  case (2 e n i m)
  define m1 where "m1 = (if core_usable e i then m OR push_bit i 1 else m)"
  have ld: "load (env_cores_local e) i = Some (env_cores_local e ! i)" using 2 by (simp add: load_ok)
  have b: "bit m1 c \<longleftrightarrow> bit m c \<or> c = i \<and> core_usable e i" if "c < 64" for c
    using bit_or_push [OF that, of m i] by (auto simp: m1_def)
  obtain m' where m': "online_mask_loop e n (i + 1) m1 = Some m'"
    "\<forall>c < 64. bit m' c \<longleftrightarrow> bit m1 c \<or> i + 1 \<le> c \<and> c < i + 1 + n \<and> core_usable e c"
    using 2 ld by (auto simp: m1_def core_usable_def)
  have "(bit m1 c \<or> i + 1 \<le> c \<and> c < i + 1 + n \<and> core_usable e c) = (bit m c \<or> i \<le> c \<and> c < i + Suc n \<and> core_usable e c)" if "c < 64" for c
    using b [OF that] by (cases "c = i") auto
  then show ?case using m' ld by (simp add: m1_def core_usable_def)
qed auto

definition online_core :: "sched_env \<Rightarrow> size_t \<Rightarrow> bool" where
  "online_core e c \<longleftrightarrow> c < env_core_count e \<and> c < MAX_CORES \<and> core_usable e c"

lemma online_mask_bits:
  assumes "env_ok e" "\<exists>c. online_core e c"
  obtains m where "sched_online_cpu_mask e = Some m" "m \<noteq> 0" "\<And>c. bit m c \<longleftrightarrow> online_core e c"
proof -
  let ?n = "min (env_core_count e) (min MAX_CORES 64)"
  obtain m where m: "online_mask_loop e ?n 0 0 = Some m" "\<forall>c < 64. bit m c \<longleftrightarrow> c < ?n \<and> core_usable e c"
    using online_mask_loop_bits [of 0 ?n e 0] assms(1) by (auto simp: env_ok_def min_le_iff_disj)
  have b: "bit m c \<longleftrightarrow> online_core e c" for c
    using m(2) by (cases "c < 64") (auto simp: online_core_def MAX_CORES_def bit_word_def dest: bit_imp_le_length)
  moreover have "m \<noteq> 0" using b assms(2) by auto
  ultimately show thesis using that m(1) by (simp add: sched_online_cpu_mask_def)
qed

text \<open>States whose per-core arrays have their declared size.\<close>

definition cores_ok :: "sched_state \<Rightarrow> bool" where
  "cores_ok s \<longleftrightarrow> length (runqueues s) = MAX_CORES \<and> length (cpus s) = MAX_CORES"

definition core_load :: "sched_state \<Rightarrow> size_t \<Rightarrow> nat" where
  "core_load s c = the (sched_cpu_load s c)"

lemma sched_cpu_load_some: "cores_ok s \<Longrightarrow> sched_cpu_load s c = Some (core_load s c)"
  by (simp add: core_load_def sched_cpu_load_def cores_ok_def load_ok)


section \<open>The least loaded core\<close>

text \<open>\<open>best\<close> is the choice of the loop over a set of candidate cores.\<close>

definition best_core :: "sched_state \<Rightarrow> size_t \<Rightarrow> size_t set \<Rightarrow> size_t \<Rightarrow> size_t \<Rightarrow> bool" where
  "best_core s fallback U best ld \<longleftrightarrow>
     (if U = {} then best = MAX_CORES
      else best \<in> U \<and> ld = core_load s best \<and> (\<forall>c \<in> U. core_load s best \<le> core_load s c) \<and>
           (fallback \<in> U \<and> core_load s fallback = core_load s best \<longrightarrow> best = fallback))"

lemma best_core_insert:
  assumes "best_core s fb U best ld" "\<forall>c \<in> U. c < MAX_CORES" "cpu \<notin> U"
  shows "if MAX_CORES \<le> best \<or> core_load s cpu < ld \<or> core_load s cpu = ld \<and> cpu = fb
         then best_core s fb (insert cpu U) cpu (core_load s cpu) else best_core s fb (insert cpu U) best ld"
proof (cases "U = {}")
  case True
  then show ?thesis using assms(1) by (simp add: best_core_def)
next
  case False
  then have b: "best \<in> U" "ld = core_load s best" "\<forall>c \<in> U. core_load s best \<le> core_load s c"
    "fb \<in> U \<and> core_load s fb = core_load s best \<longrightarrow> best = fb" using assms(1) by (simp_all add: best_core_def)
  have "best < MAX_CORES" using b(1) assms(2) by blast
  consider "core_load s cpu < ld" | "core_load s cpu = ld" "cpu = fb" | "core_load s cpu = ld" "cpu \<noteq> fb" | "ld < core_load s cpu"
    by linarith
  then show ?thesis
  proof cases
    case 1
    then have "\<forall>c \<in> U. core_load s cpu < core_load s c" using b(2,3) by fastforce
    then show ?thesis using 1 by (auto simp: best_core_def)
  qed (use b \<open>best < MAX_CORES\<close> assms(3) in \<open>auto simp: best_core_def\<close>)
qed

lemma pick_cpu_loop_spec:
  assumes "cores_ok s" "length (env_cores_local e) = MAX_CORES" "cpu + n \<le> MAX_CORES"
    and "best_core s fb {c. c < cpu \<and> bit allowed c \<and> core_usable e c} best ld"
  shows "\<exists>r l. pick_cpu_loop e s allowed fb n cpu best ld = Some r \<and>
           best_core s fb {c. c < cpu + n \<and> bit allowed c \<and> core_usable e c} r l"
  using assms
proof (induction e s allowed fb n cpu best ld rule: pick_cpu_loop.induct)
  case (1 e s allowed fb cpu best ld)
  then show ?case by auto
next
  case (2 e s allowed fb n cpu best ld)
  let ?U = "\<lambda>k. {c. c < k \<and> bit allowed c \<and> core_usable e c}"
  have ldc: "load (env_cores_local e) cpu = Some (env_cores_local e ! cpu)" using "2.prems" by (simp add: load_ok)
  show ?case
  proof (cases "bit allowed cpu \<and> core_usable e cpu")
    case False
    then have "?U (Suc cpu) = ?U cpu" by (auto simp: less_Suc_eq)
    then show ?thesis using False 2 ldc by (cases "bit allowed cpu") (auto simp: core_usable_def)
  next
    case True
    then have U: "?U (Suc cpu) = insert cpu (?U cpu)" by (auto simp: less_Suc_eq)
    let ?better = "MAX_CORES \<le> best \<or> core_load s cpu < ld \<or> core_load s cpu = ld \<and> cpu = fb"
    have b: "if ?better then best_core s fb (?U (Suc cpu)) cpu (core_load s cpu) else best_core s fb (?U (Suc cpu)) best ld"
      unfolding U using "2.prems"(3) by (intro best_core_insert [OF "2.prems"(4)]) auto
    have run: "pick_cpu_loop e s allowed fb (Suc n) cpu best ld =
        (if ?better then pick_cpu_loop e s allowed fb n (cpu + 1) cpu (core_load s cpu) else pick_cpu_loop e s allowed fb n (cpu + 1) best ld)"
      using True ldc sched_cpu_load_some [OF "2.prems"(1)] by (auto simp: core_usable_def Let_def)
    show ?thesis
    proof (cases ?better)
      case t: True
      have "\<exists>r l. pick_cpu_loop e s allowed fb n (cpu + 1) cpu (core_load s cpu) = Some r \<and> best_core s fb (?U (cpu + 1 + n)) r l"
        using "2.IH"(3) [OF _ ldc _ sched_cpu_load_some [OF "2.prems"(1)] refl refl] True t b "2.prems" by (auto simp: core_usable_def)
      then show ?thesis using run t by simp
    next
      case f: False
      have "\<exists>r l. pick_cpu_loop e s allowed fb n (cpu + 1) best ld = Some r \<and> best_core s fb (?U (cpu + 1 + n)) r l"
        using "2.IH"(4) [OF _ ldc _ sched_cpu_load_some [OF "2.prems"(1)] refl refl] True f b "2.prems" by (auto simp: core_usable_def)
      then show ?thesis using run f by simp
    qed
  qed
qed

text \<open>The cores a thread may be placed on.\<close>

definition candidates :: "sched_env \<Rightarrow> sched_state \<Rightarrow> tid \<Rightarrow> size_t set" where
  "candidates e s t = {c. online_core e c \<and> (th_allowed_cpu_mask (threads s t) = 0 \<or> bit (th_allowed_cpu_mask (threads s t)) c)}"

lemma pick_cpu_loop_total:
  assumes "cores_ok s" "cpu + n \<le> length (env_cores_local e)"
  shows "\<exists>c. pick_cpu_loop e s allowed fallback n cpu best ld = Some c"
  using assms
proof (induction e s allowed fallback n cpu best ld rule: pick_cpu_loop.induct)
  case (2 e s allowed fallback n cpu best ld)
  then show ?case by (simp add: load_ok sched_cpu_load_some Let_def)
qed simp

lemma pick_cpu_total:
  assumes "env_ok e" "cores_ok s"
  shows "\<exists>c. pick_cpu e s thread fallback = Some c"
proof -
  obtain m where m: "sched_online_cpu_mask e = Some m" using sched_online_cpu_mask_some [OF assms(1)] by blast
  define k where "k = (if MAX_CORES < env_core_count e then MAX_CORES else env_core_count e)"
  define n where "n = (if k = 0 then 1 else k)"
  define allowed where "allowed = (let a = (case thread of Some t \<Rightarrow> th_allowed_cpu_mask (threads s t) | None \<Rightarrow> 0) in if a = 0 then m else a) AND m"
  have "n \<le> MAX_CORES" by (simp add: n_def k_def MAX_CORES_def)
  then obtain c where "pick_cpu_loop e s allowed fallback n 0 MAX_CORES SIZE_MAX = Some c"
    using pick_cpu_loop_total [OF assms(2), of 0 n e allowed fallback MAX_CORES SIZE_MAX] assms(1) by (auto simp: env_ok_def)
  then show ?thesis
    unfolding pick_cpu_def k_def [symmetric] Let_def n_def [symmetric] m Option.bind.simps allowed_def [unfolded Let_def, symmetric]
    by simp
qed

lemma pick_cpu_spec:
  assumes "env_ok e" "cores_ok s" "candidates e s t \<noteq> {}"
  shows "\<exists>c. pick_cpu e s (Some t) fallback = Some c \<and> c \<in> candidates e s t \<and>
           (\<forall>c' \<in> candidates e s t. core_load s c \<le> core_load s c') \<and>
           (fallback \<in> candidates e s t \<and> core_load s fallback = core_load s c \<longrightarrow> c = fallback)"
proof -
  define n where "n = (if MAX_CORES < env_core_count e then MAX_CORES else env_core_count e)"
  obtain c0 where c0: "c0 \<in> candidates e s t" using assms(3) by blast
  then have n0: "n \<noteq> 0" "n \<le> MAX_CORES" by (auto simp: n_def candidates_def online_core_def MAX_CORES_def)
  obtain m where m: "sched_online_cpu_mask e = Some m" "m \<noteq> 0" "\<And>c. bit m c \<longleftrightarrow> online_core e c"
    using online_mask_bits [OF assms(1)] c0 by (auto simp: candidates_def)
  define a where "a = th_allowed_cpu_mask (threads s t)"
  define allowed where "allowed = (if a = 0 then m else a) AND m"
  have al: "bit allowed c \<longleftrightarrow> c \<in> candidates e s t" for c
    by (auto simp: allowed_def a_def bit_and_iff m(3) candidates_def)
  have U: "{c. c < n \<and> bit allowed c \<and> core_usable e c} = candidates e s t"
    unfolding al by (auto simp: candidates_def online_core_def n_def)
  have "allowed \<noteq> 0" using al [of c0] c0 by auto
  moreover obtain r l where r: "pick_cpu_loop e s allowed fallback n 0 MAX_CORES SIZE_MAX = Some r"
    "best_core s fallback (candidates e s t) r l"
    using pick_cpu_loop_spec [OF assms(2), of e 0 n fallback allowed MAX_CORES SIZE_MAX] assms(1) n0(2) U
    by (auto simp: env_ok_def best_core_def)
  moreover have "r \<in> candidates e s t" using r(2) assms(3) by (simp add: best_core_def)
  then have "r < MAX_CORES" by (simp add: candidates_def online_core_def)
  ultimately have "pick_cpu e s (Some t) fallback = Some r"
    using n0(1) m(1) by (simp add: pick_cpu_def Let_def n_def [symmetric] a_def [symmetric] allowed_def [symmetric])
  then show ?thesis using r(2) assms(3) by (auto simp: best_core_def)
qed

text \<open>
  (C9) \<open>pick_cpu\<close> returns an online core the thread is allowed on with the smallest load among them, and
  prefers the fallback core when it is one of the least loaded.
\<close>

theorem pick_cpu_least_loaded:
  assumes "env_ok e" "cores_ok s" "candidates e s t \<noteq> {}"
  shows "\<exists>c. pick_cpu e s (Some t) fallback = Some c \<and> c \<in> candidates e s t \<and>
           (\<forall>c' \<in> candidates e s t. core_load s c \<le> core_load s c') \<and>
           (fallback \<in> candidates e s t \<and> core_load s fallback = core_load s c \<longrightarrow> c = fallback)"
  by (rule pick_cpu_spec [OF assms])

theorem pick_cpu_least_loaded_witness:
  "pick_cpu (demo_env 4) (demo_state\<lparr>threads := (threads demo_state)(0 := (demo_thread 1)\<lparr>th_allowed_cpu_mask := 12\<rparr>)\<rparr>) (Some 0) 3 = Some 3"
proof -
  let ?s = "demo_state\<lparr>threads := (threads demo_state)(0 := (demo_thread 1)\<lparr>th_allowed_cpu_mask := 12\<rparr>)\<rparr>"
  have "env_ok (demo_env 4)" "cores_ok ?s"
    by (simp_all add: env_ok_def demo_env_def cores_ok_def demo_state_def MAX_CORES_def)
  moreover have c: "3 \<in> candidates (demo_env 4) ?s 0"
    by (simp add: candidates_def online_core_def core_usable_def demo_env_def MAX_CORES_def nth_append)
  moreover have "core_load ?s c = 0" if "c < MAX_CORES" for c
    using that by (simp add: core_load_def sched_cpu_load_def demo_state_def empty_rq_def load_ok)
  ultimately show ?thesis
    using pick_cpu_least_loaded [of "demo_env 4" ?s 0 3] by (fastforce simp: candidates_def online_core_def)
qed


section \<open>Wake-up placement\<close>

text \<open>What the scan over the first \<open>k\<close> cores has established.\<close>

definition scanned :: "sched_state \<Rightarrow> size_t set \<Rightarrow> size_t \<Rightarrow> bool \<Rightarrow> u64 \<Rightarrow> u64 \<Rightarrow> bool" where
  "scanned s U min_load found idle_mask min_mask \<longleftrightarrow>
     (found \<longleftrightarrow> U \<noteq> {}) \<and> (found \<longrightarrow> min_load \<in> core_load s ` U \<and> (\<forall>c \<in> U. min_load \<le> core_load s c)) \<and>
     (\<forall>c < 64. bit idle_mask c \<longleftrightarrow> c \<in> U \<and> core_load s c = 0) \<and> (\<forall>c < 64. bit min_mask c \<longleftrightarrow> c \<in> U \<and> (found \<longrightarrow> core_load s c = min_load))"

lemma scanned_insert:
  assumes "scanned s U ml fd im mm" "cpu \<notin> U" and ld: "ld = core_load s cpu"
  defines "im1 \<equiv> if ld = 0 then im OR push_bit cpu 1 else im"
  shows "\<not> fd \<or> ld < ml \<Longrightarrow> scanned s (insert cpu U) ld True im1 (push_bit cpu 1)"
    "fd \<Longrightarrow> ld = ml \<Longrightarrow> scanned s (insert cpu U) ml fd im1 (mm OR push_bit cpu 1)"
    "fd \<Longrightarrow> ml < ld \<Longrightarrow> scanned s (insert cpu U) ml fd im1 mm"
proof -
  have i: "\<forall>c < 64. bit im1 c \<longleftrightarrow> c \<in> insert cpu U \<and> core_load s c = 0"
    using assms(1,2) by (auto simp: im1_def ld scanned_def bit_or_push)
  show "scanned s (insert cpu U) ld True im1 (push_bit cpu 1)" if "\<not> fd \<or> ld < ml"
  proof -
    have le: "core_load s cpu < core_load s c" if "c \<in> U" for c
      using assms(1) \<open>\<not> fd \<or> ld < ml\<close> that by (fastforce simp: scanned_def ld)
    then have "core_load s cpu \<le> core_load s c" if "c \<in> insert cpu U" for c using that by (auto intro: less_imp_le)
    moreover have "bit (push_bit cpu (1::u64)) c \<longleftrightarrow> c \<in> insert cpu U \<and> core_load s c = ld" if "c < 64" for c
      using le [of c] that by (auto simp: bit_push ld)
    ultimately show ?thesis using i by (simp add: scanned_def ld)
  qed
  show "scanned s (insert cpu U) ml fd im1 (mm OR push_bit cpu 1)" if "fd" "ld = ml"
    using assms(1) that i by (auto simp: scanned_def ld bit_or_push)
  show "scanned s (insert cpu U) ml fd im1 mm" if "fd" "ml < ld"
    using assms(1) that i by (auto simp: scanned_def ld)
qed

lemma target_loop_spec:
  assumes "cores_ok s" "cpu + n \<le> 64" "scanned s {c. c < cpu \<and> bit allowed c} ml fd im mm"
  shows "\<exists>ml' fd' im' mm'. target_loop s allowed n cpu ml fd im mm = Some (ml', fd', im', mm') \<and>
           scanned s {c. c < cpu + n \<and> bit allowed c} ml' fd' im' mm'"
  using assms
proof (induction n arbitrary: cpu ml fd im mm)
  case (Suc n)
  have shift: "cpu + Suc n = (cpu + 1) + n" by simp
  show ?case
  proof (cases "bit allowed cpu")
    case False
    then have "{c. c < cpu + 1 \<and> bit allowed c} = {c. c < cpu \<and> bit allowed c}" by (auto simp: less_Suc_eq)
    then show ?thesis using Suc.IH [of "cpu + 1" ml fd im mm] Suc.prems False unfolding shift by simp
  next
    case True
    then have W: "{c. c < cpu + 1 \<and> bit allowed c} = insert cpu {c. c < cpu \<and> bit allowed c}" by (auto simp: less_Suc_eq)
    have ld: "sched_cpu_load s cpu = Some (core_load s cpu)" by (rule sched_cpu_load_some [OF Suc.prems(1)])
    have le: "cpu + 1 + n \<le> 64" using Suc.prems(2) by simp
    have new: "cpu \<notin> {c. c < cpu \<and> bit allowed c}" by simp
    note step = scanned_insert [OF Suc.prems(3) new refl, folded W] and ih = Suc.IH [OF Suc.prems(1) le]
    consider "\<not> fd \<or> core_load s cpu < ml" | "fd" "core_load s cpu = ml" | "fd" "ml < core_load s cpu" by linarith
    then show ?thesis
    proof cases
      case 1
      then show ?thesis using ih [OF step(1) [OF 1]] True ld unfolding shift by (simp add: Let_def)
    next
      case 2
      then show ?thesis using ih [OF step(2) [OF 2]] True ld unfolding shift by (simp add: Let_def)
    next
      case 3
      then show ?thesis using ih [OF step(3) [OF 3]] True ld unfolding shift by (simp add: Let_def)
    qed
  qed
qed auto

text \<open>The nearest idle core.\<close>

definition nearest :: "size_t \<Rightarrow> size_t \<Rightarrow> size_t set \<Rightarrow> size_t \<Rightarrow> size_t \<Rightarrow> bool" where
  "nearest base ncpu U best bd \<longleftrightarrow>
     (if U = {} then best = MAX_CORES
      else best \<in> U \<and> bd = sched_cpu_distance base best ncpu \<and> (\<forall>c \<in> U. bd \<le> sched_cpu_distance base c ncpu))"

lemma nearest_in: "nearest base ncpu U best bd \<Longrightarrow> U \<noteq> {} \<Longrightarrow> best \<in> U"
  by (simp add: nearest_def)

lemma nearest_insert:
  assumes "nearest base ncpu U best bd" "\<forall>c \<in> U. c < cpu" "cpu < MAX_CORES" and d: "d = sched_cpu_distance base cpu ncpu"
  shows "if MAX_CORES \<le> best \<or> d < bd \<or> d = bd \<and> cpu < best then nearest base ncpu (insert cpu U) cpu d
         else nearest base ncpu (insert cpu U) best bd"
proof (cases "U = {}")
  case True
  then show ?thesis using assms(1) by (simp add: nearest_def d)
next
  case False
  then have "best \<in> U \<and> bd = sched_cpu_distance base best ncpu \<and> (\<forall>c \<in> U. bd \<le> sched_cpu_distance base c ncpu)"
    using assms(1) unfolding nearest_def by auto
  then have b: "best \<in> U" "bd = sched_cpu_distance base best ncpu" "\<forall>c \<in> U. bd \<le> sched_cpu_distance base c ncpu" by blast+
  have "best < cpu" using b(1) assms(2) by blast
  show ?thesis
  proof (cases "d < bd")
    case True
    then have "\<forall>c \<in> U. d \<le> sched_cpu_distance base c ncpu" using b(3) by fastforce
    then show ?thesis using True d by (simp add: nearest_def)
  next
    case False
    then show ?thesis using b \<open>best < cpu\<close> assms(3) d by (simp add: nearest_def)
  qed
qed

lemma pick_idle_loop_spec:
  assumes "cpu + n \<le> MAX_CORES" "nearest base ncpu {c. c < cpu \<and> bit idle c} best bd"
  shows "\<exists>d. nearest base ncpu {c. c < cpu + n \<and> bit idle c} (pick_idle_loop idle base ncpu n cpu best bd) d"
  using assms
proof (induction n arbitrary: cpu best bd)
  case (Suc n)
  let ?d = "sched_cpu_distance base cpu ncpu" and ?U = "\<lambda>k. {c. c < k \<and> bit idle c}"
  let ?better = "MAX_CORES \<le> best \<or> ?d < bd \<or> ?d = bd \<and> cpu < best"
  have shift: "cpu + Suc n = (cpu + 1) + n" by simp
  have le: "cpu + 1 + n \<le> MAX_CORES" using Suc.prems(1) by simp
  show ?case
  proof (cases "bit idle cpu")
    case False
    then have "?U (cpu + 1) = ?U cpu" by (auto simp: less_Suc_eq)
    then show ?thesis unfolding shift using Suc.IH [OF le] Suc.prems(2) False by simp
  next
    case True
    then have U: "?U (cpu + 1) = insert cpu (?U cpu)" by (auto simp: less_Suc_eq)
    have "if ?better then nearest base ncpu (?U (cpu + 1)) cpu ?d else nearest base ncpu (?U (cpu + 1)) best bd"
      unfolding U using Suc.prems(1) by (intro nearest_insert [OF Suc.prems(2)]) simp_all
    moreover have "pick_idle_loop idle base ncpu (Suc n) cpu best bd =
        (if ?better then pick_idle_loop idle base ncpu n (cpu + 1) cpu ?d else pick_idle_loop idle base ncpu n (cpu + 1) best bd)"
      using True by (simp only: pick_idle_loop.simps in_mask_bit Let_def not_True_eq_False if_False)
    ultimately show ?thesis unfolding shift using Suc.IH [OF le, of cpu ?d] Suc.IH [OF le, of best bd] by (cases ?better) (simp_all only: if_True if_False)
  qed
qed auto

lemma pick_min_loop_spec:
  assumes "0 < ncpu" "start + step + n \<le> SIZE_MAX" "\<exists>k < n. bit m ((start + (step + k)) mod ncpu)"
  shows "bit m (pick_min_loop m ncpu start n step) \<and> pick_min_loop m ncpu start n step < ncpu"
  using assms(2,3)
proof (induction n arbitrary: step)
  case (Suc n)
  have x: "sz_add start step = start + step" using Suc.prems(1) by (intro sz_add_exact) simp
  show ?case
  proof (cases "bit m ((start + step) mod ncpu)")
    case True
    then show ?thesis using x assms(1) by (simp add: Let_def)
  next
    case False
    obtain k where k: "k < Suc n" "bit m ((start + (step + k)) mod ncpu)" using Suc.prems(2) by blast
    then obtain k' where "k = Suc k'" using False by (cases k) auto
    then have "\<exists>k < n. bit m ((start + (step + 1 + k)) mod ncpu)" using k by (intro exI [of _ k']) simp
    then show ?thesis using Suc.IH [of "step + 1"] Suc.prems(1) x False by (simp add: Let_def)
  qed
qed simp

lemma residue_reached:
  fixes start :: nat
  assumes "c < n"
  shows "\<exists>k < n. (start + k) mod n = c"
proof (intro exI [of _ "(c + (n - start mod n)) mod n"] conjI)
  show "(c + (n - start mod n)) mod n < n" using assms by simp
  have "start mod n < n" using assms by simp
  then have "start mod n + (c + (n - start mod n)) = c + n" by simp
  then have "(start mod n + (c + (n - start mod n))) mod n = c" using assms by simp
  then show "(start + (c + (n - start mod n)) mod n) mod n = c" by (metis mod_add_left_eq mod_add_right_eq)
qed

lemma pick_min_cpu_spec:
  assumes "bit m c" "c < n" "n \<le> 64"
  obtains r where "pick_min_cpu s m n = (r, s\<lparr>wake_rr_cursor := wake_rr_cursor s + 1\<rparr>)" "bit m r" "r < n"
proof -
  obtain k where "k < n" "(unat (wake_rr_cursor s) + k) mod n = c" using residue_reached [OF assms(2)] by blast
  moreover have "unat (wake_rr_cursor s) < 2 ^ LENGTH(32)" by (rule unsigned_less)
  ultimately have "bit m (pick_min_loop m n (unat (wake_rr_cursor s)) n 0) \<and> pick_min_loop m n (unat (wake_rr_cursor s)) n 0 < n"
    using assms by (intro pick_min_loop_spec) (auto simp: SIZE_MAX_def)
  then show thesis using that by (simp add: pick_min_cpu_def Let_def)
qed

lemma candidates_less:
  assumes "c \<in> candidates e s t"
  shows "c < wake_cpu_count e" "c < 64"
  using assms by (auto simp: candidates_def online_core_def wake_cpu_count_def MAX_CORES_def Let_def)

lemma wake_cpu_count_le: "wake_cpu_count e \<le> 64" "wake_cpu_count e \<le> MAX_CORES"
  by (simp_all add: wake_cpu_count_def Let_def MAX_CORES_def)

lemma wake_mask_bits:
  assumes "env_ok e" "candidates e s t \<noteq> {}"
  obtains m where "sched_online_cpu_mask e = Some m" "\<And>c. bit (wake_mask s (Some t) m) c \<longleftrightarrow> c \<in> candidates e s t"
proof -
  obtain m where m: "sched_online_cpu_mask e = Some m" "m \<noteq> 0" "\<And>c. bit m c \<longleftrightarrow> online_core e c"
    using online_mask_bits [OF assms(1)] assms(2) by (auto simp: candidates_def)
  define a where "a = th_allowed_cpu_mask (threads s t)"
  have b: "bit ((if a = 0 then m else a) AND m) c \<longleftrightarrow> c \<in> candidates e s t" for c
    by (auto simp: a_def bit_and_iff m(3) candidates_def)
  then have "(if a = 0 then m else a) AND m \<noteq> 0" using assms(2) by (metis bit_0_eq bot_apply bot_bool_def ex_in_conv)
  then have "bit (wake_mask s (Some t) m) c \<longleftrightarrow> c \<in> candidates e s t" for c
    using b unfolding wake_mask_def Let_def option.case a_def [symmetric] by (simp split del: if_split)
  then show thesis by (rule that [OF m(1)])
qed

lemma wake_scan:
  assumes "cores_ok s" "\<And>c. bit allowed c \<longleftrightarrow> c \<in> candidates e s t"
  obtains ml fd im mm where "target_loop s allowed (wake_cpu_count e) 0 SIZE_MAX False 0 0 = Some (ml, fd, im, mm)"
    "scanned s (candidates e s t) ml fd im mm"
proof -
  have "{c. c < 0 + wake_cpu_count e \<and> bit allowed c} = candidates e s t" using assms(2) candidates_less(1) by auto
  then show thesis
    using target_loop_spec [OF assms(1), of 0 "wake_cpu_count e" allowed SIZE_MAX False 0 0] wake_cpu_count_le(1) that
    by (auto simp: scanned_def)
qed

lemma idle_choice:
  fixes base :: size_t
  assumes "scanned s (candidates e s t) ml fd im mm"
  defines "best \<equiv> if im \<noteq> 0 then pick_idle_cpu im base (wake_cpu_count e) else MAX_CORES"
  shows "if \<exists>c \<in> candidates e s t. core_load s c = 0 then best \<in> candidates e s t \<and> core_load s best = 0 \<and> best < MAX_CORES
         else best = MAX_CORES"
proof -
  let ?C = "candidates e s t" let ?n = "wake_cpu_count e" let ?I = "{c \<in> ?C. core_load s c = 0}"
  have im: "bit im c \<longleftrightarrow> c \<in> ?I" if "c < 64" for c using assms(1) that by (simp add: scanned_def)
  have "c < ?n \<and> bit im c \<longleftrightarrow> c \<in> ?I" for c
    using im [of c] candidates_less(1) [of c e s t] wake_cpu_count_le(1) [of e] by (cases "c < ?n") auto
  then have "{c. c < 0 + ?n \<and> bit im c} = ?I" by (intro set_eqI) simp
  then obtain d where ne: "nearest base ?n ?I (pick_idle_cpu im base ?n) d"
    using pick_idle_loop_spec [of 0 ?n base ?n im MAX_CORES SIZE_MAX] wake_cpu_count_le(2) by (auto simp: pick_idle_cpu_def nearest_def)
  show ?thesis
  proof (cases "?I = {}")
    case True
    then have "best = MAX_CORES" using ne by (simp add: best_def nearest_def)
    then show ?thesis using True by auto
  next
    case False
    then obtain c where c: "c \<in> ?I" by blast
    then have "im \<noteq> 0" using im [of c] candidates_less(2) [of c e s t] by auto
    then have "best \<in> ?I" using nearest_in [OF ne False] by (simp add: best_def)
    then show ?thesis using c candidates_less(1) [of best e s t] wake_cpu_count_le(2) [of e] by auto
  qed
qed

lemma target_loop_total:
  assumes "cores_ok s"
  shows "\<exists>r. target_loop s allowed n cpu ml fd im mm = Some r"
  using assms
proof (induction s allowed n cpu ml fd im mm rule: target_loop.induct)
  case (2 s allowed n cpu ml fd im mm)
  then show ?case by (simp add: sched_cpu_load_some Let_def)
qed simp

lemma pick_target_cpu_total:
  assumes "env_ok e" "cores_ok s"
  shows "\<exists>c r. pick_target_cpu e s (Some t) = Some (c, s\<lparr>wake_rr_cursor := r\<rparr>)"
proof -
  obtain m where m: "sched_online_cpu_mask e = Some m" using sched_online_cpu_mask_some [OF assms(1)] by blast
  obtain ml fd im mm where tl: "target_loop s (wake_mask s (Some t) m) (wake_cpu_count e) 0 SIZE_MAX False 0 0 = Some (ml, fd, im, mm)"
    using target_loop_total [OF assms(2)] by (metis prod_cases4)
  define ok where "ok = (\<lambda>x :: nat \<times> sched_state. \<exists>c r. x = (c, s\<lparr>wake_rr_cursor := r\<rparr>))"
  have pm: "ok (pick_min_cpu s mm n)" for n by (auto simp: ok_def pick_min_cpu_def Let_def)
  have same: "ok (k, s)" for k unfolding ok_def by (rule exI [of _ k], rule exI [of _ "wake_rr_cursor s"]) simp
  have "\<exists>x. pick_target_cpu e s (Some t) = Some x \<and> ok x"
    unfolding pick_target_cpu_def Let_def option.case m Option.bind.simps tl prod.case
    using pm same by (simp add: sched_cpu_load_some [OF assms(2)] del: split_paired_Ex)
  then show ?thesis by (auto simp: ok_def)
qed

lemma pick_target_cpu_spec:
  assumes "env_ok e" "cores_ok s" "candidates e s t \<noteq> {}"
  shows "\<exists>c r. pick_target_cpu e s (Some t) = Some (c, s\<lparr>wake_rr_cursor := r\<rparr>) \<and> c \<in> candidates e s t \<and>
           (\<forall>c' \<in> candidates e s t. core_load s c \<le> core_load s c' + SCHED_WAKE_LOAD_SLOP \<and> (core_load s c' = 0 \<longrightarrow> core_load s c = 0))"
proof -
  let ?C = "candidates e s t" let ?n = "wake_cpu_count e"
  obtain m where m: "sched_online_cpu_mask e = Some m" "\<And>c. bit (wake_mask s (Some t) m) c \<longleftrightarrow> c \<in> ?C"
    using wake_mask_bits [OF assms(1,3)] by metis
  define allowed where "allowed = wake_mask s (Some t) m"
  obtain ml fd im mm where tl: "target_loop s allowed ?n 0 SIZE_MAX False 0 0 = Some (ml, fd, im, mm)" "scanned s ?C ml fd im mm"
    using wake_scan [OF assms(2), of allowed] m(2) by (metis allowed_def)
  have fd: "fd" "\<forall>c \<in> ?C. ml \<le> core_load s c" using tl(2) assms(3) by (simp_all add: scanned_def)
  obtain c1 where c1: "c1 \<in> ?C" "core_load s c1 = ml" using tl(2) fd(1) by (auto simp: scanned_def)
  have mm: "bit mm c \<longleftrightarrow> c \<in> ?C \<and> core_load s c = ml" if "c < 64" for c using tl(2) fd(1) that by (simp add: scanned_def)
  define pref where "pref = (if wake_can_prefer s (Some t) ?n allowed then th_last_cpu (threads s t) else MAX_CORES)"
  have pref: "pref \<in> ?C" if "pref < ?n"
    using that wake_cpu_count_le(2) [of e] m(2) by (auto simp: pref_def wake_can_prefer_def allowed_def split: if_splits)
  define base where "base = (if ?n \<le> pref \<or> \<not> bit allowed pref then first_cpu_in_mask mm ?n else pref)"
  define bi where "bi = (if im \<noteq> 0 then pick_idle_cpu im base ?n else MAX_CORES)"
  note bi = idle_choice [OF tl(2), of base, folded bi_def]
  let ?near = "pref < ?n \<and> core_load s pref \<le> sz_add ml SCHED_WAKE_LOAD_SLOP" and ?idle = "\<exists>c \<in> ?C. core_load s c = 0"
  have run: "pick_target_cpu e s (Some t) =
      (if bi < MAX_CORES then Some (bi, s) else if ?near then Some (pref, s)
       else Some (if mm \<noteq> 0 then pick_min_cpu s mm ?n else (0, s)))"
    unfolding pick_target_cpu_def Let_def option.case m(1) Option.bind.simps allowed_def [symmetric] tl(1) prod.case in_mask_bit
    unfolding pref_def [symmetric] unfolding base_def [symmetric] unfolding bi_def [symmetric]
    using fd(1) by (simp add: sched_cpu_load_some [OF assms(2)])
  have slop: "sz_add ml SCHED_WAKE_LOAD_SLOP \<le> ml + SCHED_WAKE_LOAD_SLOP" by (simp add: sz_add_def)
  have same: "s\<lparr>wake_rr_cursor := wake_rr_cursor s\<rparr> = s" by simp
  consider "?idle" | "\<not> ?idle" "?near" | "\<not> ?idle" "\<not> ?near" by argo
  then show ?thesis
  proof cases
    case 1
    then show ?thesis using run bi same by (intro exI [of _ bi] exI [of _ "wake_rr_cursor s"]) simp
  next
    case 2
    then have "core_load s pref \<le> core_load s c + SCHED_WAKE_LOAD_SLOP" if "c \<in> ?C" for c using that fd(2) slop by fastforce
    then show ?thesis using run bi 2 pref same by (intro exI [of _ pref] exI [of _ "wake_rr_cursor s"]) auto
  next
    case 3
    have b1: "bit mm c1" using mm [OF candidates_less(2) [OF c1(1)]] c1 by simp
    obtain r where r: "pick_min_cpu s mm ?n = (r, s\<lparr>wake_rr_cursor := wake_rr_cursor s + 1\<rparr>)" "bit mm r" "r < ?n"
      using pick_min_cpu_spec [OF b1 candidates_less(1) [OF c1(1)] wake_cpu_count_le(1)] by metis
    then have "r \<in> ?C" "core_load s r = ml" using mm [of r] wake_cpu_count_le(1) [of e] by auto
    moreover have "mm \<noteq> 0" using b1 by auto
    ultimately show ?thesis using run bi 3 r(1) fd(2)
      by (intro exI [of _ r] exI [of _ "wake_rr_cursor s + 1"]) (auto intro: trans_le_add1)
  qed
qed

text \<open>
  (C10) A woken thread is placed on an online core it is allowed on, whose load is within
  \<open>SCHED_WAKE_LOAD_SLOP\<close> of the least loaded such core; whenever one of these cores is idle, an idle one is chosen.
  Nothing but the round-robin cursor changes.
\<close>

theorem pick_target_cpu_balanced:
  assumes "env_ok e" "cores_ok s" "candidates e s t \<noteq> {}"
  shows "\<exists>c r. pick_target_cpu e s (Some t) = Some (c, s\<lparr>wake_rr_cursor := r\<rparr>) \<and> c \<in> candidates e s t \<and>
           (\<forall>c' \<in> candidates e s t. core_load s c \<le> core_load s c' + SCHED_WAKE_LOAD_SLOP \<and> (core_load s c' = 0 \<longrightarrow> core_load s c = 0))"
  by (rule pick_target_cpu_spec [OF assms])

theorem pick_target_cpu_balanced_witness:
  "\<exists>c r. pick_target_cpu (demo_env 4) demo_state (Some 0) = Some (c, demo_state\<lparr>wake_rr_cursor := r\<rparr>) \<and> c < 4"
proof -
  have "env_ok (demo_env 4)" "cores_ok demo_state"
    by (simp_all add: env_ok_def demo_env_def cores_ok_def demo_state_def MAX_CORES_def)
  moreover have "3 \<in> candidates (demo_env 4) demo_state 0"
    by (simp add: candidates_def online_core_def core_usable_def demo_env_def MAX_CORES_def nth_append demo_state_def demo_thread_def zero_thread_def)
  ultimately show ?thesis
    using pick_target_cpu_balanced [of "demo_env 4" demo_state 0] by (fastforce simp: candidates_def online_core_def demo_env_def)
qed

end
