(* ===== verification/Run_Queue.thy ===== *)
theory Run_Queue
  imports Thread_Heap Cpu_Select "HOL-Library.Product_Lexorder"
begin

text \<open>
  The per-core run queues of \<open>kernel/sched/runqueue.c\<close>: binary heaps ordered by virtual run time.
  The functions on one queue take the queue and the thread store and return both; those that the
  rest of the scheduler calls take the scheduler state. Sifting interprets \<open>thread_heap\<close>.
\<close>

section \<open>Order and sifting\<close>

definition rq_less :: "thread_store \<Rightarrow> tid ptr \<Rightarrow> tid ptr \<Rightarrow> bool" where
  "rq_less th a b =
     (case a of
        None \<Rightarrow> False
      | Some x \<Rightarrow>
          (case b of
             None \<Rightarrow> True
           | Some y \<Rightarrow>
               if th_vruntime_ns (th x) \<noteq> th_vruntime_ns (th y) then th_vruntime_ns (th x) < th_vruntime_ns (th y)
               else if th_sum_exec_ns (th x) \<noteq> th_sum_exec_ns (th y) then th_sum_exec_ns (th x) < th_sum_exec_ns (th y)
               else th_pid (th x) < th_pid (th y)))"

definition rq_runnable :: "thread_store \<Rightarrow> tid ptr \<Rightarrow> bool" where
  "rq_runnable th thread =
     (case thread of
        None \<Rightarrow> False
      | Some t \<Rightarrow> if th_state (th t) \<noteq> THREAD_READY then False else th_context (th t) \<noteq> 0 \<and> th_pid (th t) \<noteq> 0)"

definition rq_worse_than :: "thread_store \<Rightarrow> tid \<Rightarrow> tid ptr \<Rightarrow> bool" where
  "rq_worse_than th t best =
     (case best of
        None \<Rightarrow> True
      | Some b \<Rightarrow>
          if th_vruntime_ns (th t) \<noteq> th_vruntime_ns (th b) then th_vruntime_ns (th b) < th_vruntime_ns (th t)
          else th_pid (th b) < th_pid (th t))"

definition set_rq_index :: "nat \<Rightarrow> sched_thread \<Rightarrow> sched_thread" where
  "set_rq_index i x = x\<lparr>th_rq_index := i\<rparr>"

definition note_index :: "tid ptr \<Rightarrow> nat \<Rightarrow> thread_store \<Rightarrow> thread_store" where
  "note_index p i th = (case p of None \<Rightarrow> th | Some t \<Rightarrow> th(t := set_rq_index i (th t)))"

definition rq_swap :: "sched_rq \<Rightarrow> thread_store \<Rightarrow> nat \<Rightarrow> nat \<Rightarrow> (sched_rq \<times> thread_store) exec" where
  "rq_swap rq th left right =
     do { h \<leftarrow> rq_heap rq;
          saved \<leftarrow> load h left;
          r \<leftarrow> load h right;
          h \<leftarrow> store h left r;
          h \<leftarrow> store h right saved;
          l \<leftarrow> load h left;
          r \<leftarrow> load h right;
          Some (rq\<lparr>rq_heap := Some h\<rparr>, note_index r right (note_index l left th)) }"

function rq_sift_up :: "sched_rq \<Rightarrow> thread_store \<Rightarrow> nat \<Rightarrow> (sched_rq \<times> thread_store) exec" where
  "rq_sift_up rq th index =
     (if 0 < index
      then let parent = (index - 1) div 2 in
        do { h \<leftarrow> rq_heap rq;
             a \<leftarrow> load h index;
             b \<leftarrow> load h parent;
             if \<not> rq_less th a b then Some (rq, th)
             else do { (rq, th) \<leftarrow> rq_swap rq th index parent; rq_sift_up rq th parent } }
      else Some (rq, th))"
  by auto
termination by (relation "measure (\<lambda>(rq, th, index). index)") auto

declare rq_sift_up.simps [simp del]

partial_function (option) rq_sift_down :: "sched_rq \<Rightarrow> thread_store \<Rightarrow> nat \<Rightarrow> (sched_rq \<times> thread_store) exec" where
  "rq_sift_down rq th index =
     (let left = u32_add (u32_mul index 2) 1; right = u32_add left 1 in
      do { h \<leftarrow> rq_heap rq;
           l \<leftarrow> (if left < rq_nr_running rq then do { a \<leftarrow> load h left; b \<leftarrow> load h index; Some (rq_less th a b) } else Some False);
           let best = (if l then left else index) in
           do { r \<leftarrow> (if right < rq_nr_running rq then do { a \<leftarrow> load h right; b \<leftarrow> load h best; Some (rq_less th a b) } else Some False);
                let best = (if r then right else best) in
                if best = index then Some (rq, th)
                else do { (rq, th) \<leftarrow> rq_swap rq th index best; rq_sift_down rq th best } } })"

declare rq_sift_down.simps [code]


section \<open>Operations on one queue\<close>

definition rq_insert :: "sched_rq \<Rightarrow> thread_store \<Rightarrow> tid \<Rightarrow> (bool \<times> sched_rq \<times> thread_store) exec" where
  "rq_insert rq th t =
     (if rq_heap rq = None \<or> rq_capacity rq \<le> rq_nr_running rq then Some (False, rq, th)
      else let index = to_u32 (rq_nr_running rq) in
        do { h \<leftarrow> rq_heap rq;
             h \<leftarrow> store h index (Some t);
             let th = th(t := set_rq_index index (th t));
                 rq = rq\<lparr>rq_heap := Some h, rq_nr_running := sz_add (rq_nr_running rq) 1\<rparr> in
             do { (rq, th) \<leftarrow> rq_sift_up rq th index; Some (True, rq, th) } })"

fun find_loop :: "tid ptr list \<Rightarrow> tid \<Rightarrow> nat \<Rightarrow> size_t \<Rightarrow> int exec" where
  "find_loop h t 0 i = Some (-1)"
| "find_loop h t (Suc n) i = do { p \<leftarrow> load h i; if p = Some t then Some (to_int i) else find_loop h t n (i + 1) }"

definition rq_find_index :: "sched_rq \<Rightarrow> tid \<Rightarrow> int exec" where
  "rq_find_index rq t =
     (case rq_heap rq of None \<Rightarrow> Some (-1) | Some h \<Rightarrow> find_loop h t (rq_nr_running rq) 0)"

definition rq_note_min :: "sched_rq \<Rightarrow> thread_store \<Rightarrow> sched_rq exec" where
  "rq_note_min rq th =
     (if 0 < rq_nr_running rq
      then do { h \<leftarrow> rq_heap rq; p \<leftarrow> load h 0;
                Some (case p of None \<Rightarrow> rq | Some t \<Rightarrow> rq\<lparr>rq_min_vruntime := th_vruntime_ns (th t)\<rparr>) }
      else Some rq)"

definition clear_rq :: "sched_thread \<Rightarrow> sched_thread" where
  "clear_rq x = x\<lparr>th_on_rq := False, th_in_run_queue := False, th_rq_index := UINT32_MAX\<rparr>"

definition rq_remove_index :: "sched_rq \<Rightarrow> thread_store \<Rightarrow> nat \<Rightarrow> (bool \<times> sched_rq \<times> thread_store) exec" where
  "rq_remove_index rq th index =
     (case rq_heap rq of
        None \<Rightarrow> Some (False, rq, th)
      | Some h \<Rightarrow>
          if rq_nr_running rq \<le> index then Some (False, rq, th)
          else let last = rq_nr_running rq - 1 in
            do { removed \<leftarrow> load h index;
                 case removed of
                   None \<Rightarrow> Some (False, rq, th)
                 | Some removed \<Rightarrow>
                     do { (h, th) \<leftarrow> (if index \<noteq> last
                                       then do { l \<leftarrow> load h last; h \<leftarrow> store h index l; Some (h, note_index l index th) }
                                       else Some (h, th));
                          h \<leftarrow> store h last None;
                          let rq = rq\<lparr>rq_heap := Some h, rq_nr_running := last\<rparr>;
                              th = th(removed := clear_rq (th removed)) in
                          do { (rq, th) \<leftarrow> (if index < last
                                             then do { rise \<leftarrow> (if 0 < index
                                                                 then do { a \<leftarrow> load h index; b \<leftarrow> load h ((index - 1) div 2); Some (rq_less th a b) }
                                                                 else Some False);
                                                       if rise then rq_sift_up rq th index else rq_sift_down rq th index }
                                             else Some (rq, th));
                               rq \<leftarrow> rq_note_min rq th;
                               Some (True, rq, th) } } })"

definition rq_remove_cpu :: "sched_rq \<Rightarrow> thread_store \<Rightarrow> tid \<Rightarrow> (bool \<times> sched_rq \<times> thread_store) exec" where
  "rq_remove_cpu rq th t =
     (if \<not> th_on_rq (th t) then Some (False, rq, th)
      else case rq_heap rq of
        None \<Rightarrow> Some (False, rq, th(t := clear_rq (th t)))
      | Some h \<Rightarrow>
          do { stale \<leftarrow> (if th_rq_index (th t) = UINT32_MAX \<or> rq_nr_running rq \<le> th_rq_index (th t) then Some True
                          else do { p \<leftarrow> load h (th_rq_index (th t)); Some (p \<noteq> Some t) });
               if stale
               then do { found \<leftarrow> rq_find_index rq t;
                         if found < 0 then Some (False, rq, th(t := clear_rq (th t)))
                         else let th = th(t := set_rq_index (to_u32 (nat found)) (th t)) in
                           rq_remove_index rq th (th_rq_index (th t)) }
               else rq_remove_index rq th (th_rq_index (th t)) })"


section \<open>Operations on the scheduler state\<close>

definition put_rq :: "size_t \<Rightarrow> sched_rq \<Rightarrow> thread_store \<Rightarrow> sched_state \<Rightarrow> sched_state exec" where
  "put_rq c rq th s = do { rqs \<leftarrow> store (runqueues s) c rq; Some (s\<lparr>runqueues := rqs, threads := th\<rparr>) }"

definition rq_note_depth :: "size_t \<Rightarrow> sched_state \<Rightarrow> sched_state" where
  "rq_note_depth depth =
     upd_metrics (\<lambda>m. if m_runqueue_max m < of_nat depth then m\<lparr>m_runqueue_max := of_nat depth\<rparr> else m)"

definition rq_remove_thread :: "sched_state \<Rightarrow> tid ptr \<Rightarrow> (bool \<times> sched_state) exec" where
  "rq_remove_thread s thread =
     (case thread of
        None \<Rightarrow> Some (False, s)
      | Some t \<Rightarrow>
          if \<not> th_on_rq (threads s t) then Some (False, s)
          else let c = th_last_cpu (threads s t) in
            do { rq \<leftarrow> load (runqueues s) c;
                 (removed, rq, th) \<leftarrow> rq_remove_cpu rq (threads s) t;
                 s \<leftarrow> put_rq c rq th s;
                 Some (removed, s) })"

text \<open>The end of \<open>rq_enqueue_cpu\<close>: raise the thread to the queue's floor, insert it and record where it is.\<close>

definition rq_enqueue_new :: "sched_state \<Rightarrow> tid \<Rightarrow> size_t \<Rightarrow> sched_state exec" where
  "rq_enqueue_new s t cpu_id =
     do { rq \<leftarrow> load (runqueues s) cpu_id;
          let th = threads s;
              th = (if th_vruntime_ns (th t) < rq_min_vruntime rq then th(t := (th t)\<lparr>th_vruntime_ns := rq_min_vruntime rq\<rparr>) else th) in
          do { (ok, rq, th) \<leftarrow> rq_insert rq th t;
               if \<not> ok then put_rq cpu_id rq th s
               else let th = th(t := (th t)\<lparr>th_on_rq := True, th_in_run_queue := True, th_last_cpu := cpu_id, th_affinity_core := cpu_id\<rparr>) in
                 do { rq \<leftarrow> rq_note_min rq th;
                      s \<leftarrow> put_rq cpu_id rq th s;
                      Some (rq_note_depth (rq_nr_running rq) s) } } }"

text \<open>The part under the queue's lock: a thread that is already there is only brought up to date.\<close>

definition rq_enqueue_locked :: "sched_state \<Rightarrow> tid \<Rightarrow> size_t \<Rightarrow> sched_state exec" where
  "rq_enqueue_locked s t cpu_id =
     do { rq \<leftarrow> load (runqueues s) cpu_id;
          let x = threads s t in
          if th_on_rq x \<or> th_rq_index x \<noteq> UINT32_MAX
          then do { hit \<leftarrow> (if th_last_cpu x = cpu_id \<and> th_rq_index x < rq_nr_running rq
                             then do { h \<leftarrow> rq_heap rq; p \<leftarrow> load h (th_rq_index x); Some (p = Some t) } else Some False);
                    if hit then Some s
                    else do { found \<leftarrow> rq_find_index rq t;
                              if 0 \<le> found
                              then Some (upd_thread t (\<lambda>x. x\<lparr>th_rq_index := to_u32 (nat found), th_on_rq := True,
                                                               th_in_run_queue := True, th_last_cpu := cpu_id\<rparr>) s)
                              else rq_enqueue_new (upd_thread t clear_rq s) t cpu_id } }
          else rq_enqueue_new s t cpu_id }"

text \<open>The core the thread is really queued on: the one asked for when it may run there, or another.\<close>

definition enqueue_target :: "sched_env \<Rightarrow> sched_state \<Rightarrow> tid \<Rightarrow> size_t \<Rightarrow> size_t option exec" where
  "enqueue_target e s t cpu_id =
     do { allowed \<leftarrow> sched_cpu_allowed e s (Some t) cpu_id;
          core \<leftarrow> load (env_cores_local e) cpu_id;
          if \<not> allowed \<or> \<not> core_online core
          then do { allowed_cpu \<leftarrow> pick_cpu e s (Some t) cpu_id;
                    valid \<leftarrow> (if allowed_cpu < MAX_CORES
                               then do { core \<leftarrow> load (env_cores_local e) allowed_cpu; Some (core_online core) } else Some False);
                    ok \<leftarrow> sched_cpu_allowed e s (Some t) allowed_cpu;
                    Some (if \<not> valid \<or> \<not> ok then None else Some allowed_cpu) }
          else Some (Some cpu_id) }"

definition rq_enqueue_cpu :: "sched_env \<Rightarrow> sched_state \<Rightarrow> tid ptr \<Rightarrow> size_t \<Rightarrow> sched_state exec" where
  "rq_enqueue_cpu e s thread cpu_id =
     (case thread of
        None \<Rightarrow> Some s
      | Some t \<Rightarrow>
          if MAX_CORES \<le> cpu_id then Some s
          else do { target \<leftarrow> enqueue_target e s t cpu_id;
                    case target of
                      None \<Rightarrow> Some s
                    | Some cpu_id \<Rightarrow>
                        if \<not> rq_runnable (threads s) thread then Some s
                        else do { (_, s) \<leftarrow> (if th_on_rq (threads s t) \<and> th_last_cpu (threads s t) \<noteq> cpu_id
                                              then rq_remove_thread s thread else Some (False, s));
                                  if 0 \<le> thread_cpu s thread
                                  then do { owned \<leftarrow> thread_is_owned s thread;
                                            if owned \<or> thread_get_state s thread = THREAD_RUNNING then Some s
                                            else rq_enqueue_locked (thread_set_cpu t (-1) s) t cpu_id }
                                  else rq_enqueue_locked s t cpu_id } })"

fun best_loop :: "sched_env \<Rightarrow> sched_state \<Rightarrow> size_t \<Rightarrow> tid ptr list \<Rightarrow> nat \<Rightarrow> nat \<Rightarrow> tid ptr \<Rightarrow> nat \<Rightarrow> (tid ptr \<times> nat) exec" where
  "best_loop e s cpu_id h 0 i best best_index = Some (best, best_index)"
| "best_loop e s cpu_id h (Suc n) i best best_index =
     do { p \<leftarrow> load h i;
          allowed \<leftarrow> sched_cpu_allowed e s p cpu_id;
          if \<not> allowed then best_loop e s cpu_id h n (i + 1) best best_index
          else if best = None \<or> rq_less (threads s) p best then best_loop e s cpu_id h n (i + 1) p i
          else best_loop e s cpu_id h n (i + 1) best best_index }"

text \<open>The root of the heap when the core may run it.\<close>

definition allowed_root :: "sched_env \<Rightarrow> sched_state \<Rightarrow> size_t \<Rightarrow> sched_rq \<Rightarrow> tid ptr exec" where
  "allowed_root e s cpu_id rq =
     (if rq_nr_running rq \<noteq> 0
      then do { h \<leftarrow> rq_heap rq; root \<leftarrow> load h 0;
                ok \<leftarrow> sched_cpu_allowed e s root cpu_id;
                Some (if ok then root else None) }
      else Some None)"

definition scan_best :: "sched_env \<Rightarrow> sched_state \<Rightarrow> size_t \<Rightarrow> sched_rq \<Rightarrow> (tid ptr \<times> nat) exec" where
  "scan_best e s cpu_id rq =
     (if rq_nr_running rq = 0 then Some (None, UINT32_MAX)
      else do { h \<leftarrow> rq_heap rq; best_loop e s cpu_id h (rq_nr_running rq) 0 None UINT32_MAX })"

definition take_index :: "sched_state \<Rightarrow> size_t \<Rightarrow> sched_rq \<Rightarrow> nat \<Rightarrow> sched_state exec" where
  "take_index s cpu_id rq i = do { (_, rq, th) \<leftarrow> rq_remove_index rq (threads s) i; put_rq cpu_id rq th s }"

definition rq_pop_best_allowed :: "sched_env \<Rightarrow> sched_state \<Rightarrow> size_t \<Rightarrow> (tid ptr \<times> sched_state) exec" where
  "rq_pop_best_allowed e s cpu_id =
     (if MAX_CORES \<le> cpu_id then Some (None, s)
      else do { rq \<leftarrow> load (runqueues s) cpu_id;
                root \<leftarrow> allowed_root e s cpu_id rq;
                if root \<noteq> None then do { s \<leftarrow> take_index s cpu_id rq 0; Some (root, s) }
                else do { (best, best_index) \<leftarrow> scan_best e s cpu_id rq;
                          if best \<noteq> None \<and> best_index \<noteq> UINT32_MAX
                          then do { s \<leftarrow> take_index s cpu_id rq best_index; Some (best, s) }
                          else Some (None, s) } })"

definition rq_peek_best :: "sched_env \<Rightarrow> sched_state \<Rightarrow> size_t \<Rightarrow> tid ptr exec" where
  "rq_peek_best e s cpu_id =
     (if MAX_CORES \<le> cpu_id then Some None
      else do { rq \<leftarrow> load (runqueues s) cpu_id;
                root \<leftarrow> allowed_root e s cpu_id rq;
                if root \<noteq> None then Some root else do { (best, _) \<leftarrow> scan_best e s cpu_id rq; Some best } })"

text \<open>The scan for the worst thread among those that \<open>sel\<close> selects.\<close>

fun worst_loop :: "(tid ptr \<Rightarrow> bool exec) \<Rightarrow> thread_store \<Rightarrow> tid ptr list \<Rightarrow> nat \<Rightarrow> nat \<Rightarrow> tid ptr \<Rightarrow> nat \<Rightarrow> (tid ptr \<times> nat) exec" where
  "worst_loop sel th h 0 i worst worst_i = Some (worst, worst_i)"
| "worst_loop sel th h (Suc n) i worst worst_i =
     do { p \<leftarrow> load h i;
          ok \<leftarrow> sel p;
          case p of
            Some t \<Rightarrow> if ok \<and> rq_worse_than th t worst then worst_loop sel th h n (i + 1) p i
                       else worst_loop sel th h n (i + 1) worst worst_i
          | None \<Rightarrow> worst_loop sel th h n (i + 1) worst worst_i }"

definition take_selected :: "(tid ptr \<Rightarrow> bool exec) \<Rightarrow> sched_state \<Rightarrow> size_t \<Rightarrow> (tid ptr \<times> sched_state) exec" where
  "take_selected sel s source_cpu =
     do { rq \<leftarrow> load (runqueues s) source_cpu;
          (worst, worst_i) \<leftarrow> (if rq_nr_running rq = 0 then Some (None, UINT32_MAX)
                                else do { h \<leftarrow> rq_heap rq; worst_loop sel (threads s) h (rq_nr_running rq) 0 None UINT32_MAX });
          if worst \<noteq> None \<and> worst_i \<noteq> UINT32_MAX
          then do { s \<leftarrow> take_index s source_cpu rq worst_i; Some (worst, s) }
          else Some (None, s) }"

definition rq_take_worst :: "sched_env \<Rightarrow> sched_state \<Rightarrow> size_t \<Rightarrow> size_t \<Rightarrow> (tid ptr \<times> sched_state) exec" where
  "rq_take_worst e s source_cpu target_cpu =
     (if MAX_CORES \<le> source_cpu \<or> MAX_CORES \<le> target_cpu then Some (None, s)
      else take_selected (\<lambda>p. if rq_runnable (threads s) p then sched_cpu_allowed e s p target_cpu else Some False) s source_cpu)"

definition rq_take_unfit :: "sched_env \<Rightarrow> sched_state \<Rightarrow> size_t \<Rightarrow> size_t \<Rightarrow> (tid ptr \<times> sched_state) exec" where
  "rq_take_unfit e s source_cpu disallowed_cpu =
     (if MAX_CORES \<le> source_cpu \<or> MAX_CORES \<le> disallowed_cpu then Some (None, s)
      else take_selected (\<lambda>p. if rq_runnable (threads s) p
                               then do { ok \<leftarrow> sched_cpu_allowed e s p disallowed_cpu; Some (\<not> ok) } else Some False) s source_cpu)"


section \<open>Sifting\<close>

definition rq_key :: "sched_thread \<Rightarrow> u64 \<times> u64 \<times> pid_t" where
  "rq_key x = (th_vruntime_ns x, th_sum_exec_ns x, th_pid x)"

definition RQ_LIMIT :: nat where "RQ_LIMIT = 2 ^ 31 - 1"

lemma rq_less_key: "rq_less th (Some a) (Some b) \<longleftrightarrow> rq_key (th a) < rq_key (th b)"
  by (auto simp: rq_less_def rq_key_def less_prod_def)

interpretation rqh: thread_heap rq_heap "\<lambda>h q. q\<lparr>rq_heap := Some h\<rparr>" rq_nr_running rq_key th_rq_index set_rq_index
  rq_less rq_swap rq_sift_up rq_sift_down RQ_LIMIT
proof unfold_locales
  fix q :: sched_rq and h i j a b and th :: thread_store
  assume "rq_heap q = Some h" "i < length h" "j < length h" "h ! i = Some a" "h ! j = Some b" "a \<noteq> b"
  moreover from this have "i \<noteq> j" by auto
  ultimately show "rq_swap q th i j =
      Some (q\<lparr>rq_heap := Some (h[i := Some b, j := Some a])\<rparr>, th(b := set_rq_index i (th b), a := set_rq_index j (th a)))"
    by (simp add: rq_swap_def load_ok store_ok note_index_def)
next
  fix q :: sched_rq and th i
  show "rq_sift_up q th i =
    (if 0 < i then do { h \<leftarrow> rq_heap q; a \<leftarrow> load h i; b \<leftarrow> load h (par i);
                        if \<not> rq_less th a b then Some (q, th)
                        else do { (q, th) \<leftarrow> rq_swap q th i (par i); rq_sift_up q th (par i) } } else Some (q, th))"
    by (subst rq_sift_up.simps) (simp only: par_def Let_def)
next
  fix i and q :: sched_rq and h th
  assume "i < rq_nr_running q" "rq_nr_running q \<le> RQ_LIMIT" "rq_heap q = Some h"
  moreover from this have "u32_add (u32_mul i 2) 1 = 2 * i + 1" "u32_add (2 * i + 1) 1 = 2 * i + 2"
    by (simp_all add: RQ_LIMIT_def u32_add_def u32_mul_def UINT32_MAX_def)
  ultimately show "rq_sift_down q th i =
    do { l \<leftarrow> (if 2 * i + 1 < rq_nr_running q
                 then do { a \<leftarrow> load h (2 * i + 1); b \<leftarrow> load h i; Some (rq_less th a b) } else Some False);
         let best = (if l then 2 * i + 1 else i) in
         do { r \<leftarrow> (if 2 * i + 2 < rq_nr_running q
                     then do { a \<leftarrow> load h (2 * i + 2); b \<leftarrow> load h best; Some (rq_less th a b) } else Some False);
              let best = (if r then 2 * i + 2 else best) in
              if best = i then Some (q, th) else do { (q, th) \<leftarrow> rq_swap q th i best; rq_sift_down q th best } } }"
    by (subst rq_sift_down.simps) (simp only: Let_def Option.bind.simps)
qed (simp_all add: set_rq_index_def rq_key_def rq_less_key)


section \<open>The invariant of one queue\<close>

definition rq_members :: "sched_rq \<Rightarrow> tid set" where
  "rq_members rq = members (the (rq_heap rq)) (rq_nr_running rq)"

definition rq_root_min :: "sched_rq \<Rightarrow> tid ptr list \<Rightarrow> thread_store \<Rightarrow> bool" where
  "rq_root_min rq h th \<longleftrightarrow> 0 < rq_nr_running rq \<longrightarrow> rq_min_vruntime rq = th_vruntime_ns (th (the (h ! 0)))"

definition rq_shape :: "sched_rq \<Rightarrow> tid ptr list \<Rightarrow> thread_store \<Rightarrow> bool" where
  "rq_shape rq h th \<longleftrightarrow> rq_heap rq = Some h \<and> length h = rq_capacity rq \<and> rq_capacity rq \<le> RQ_LIMIT \<and>
     slots_ok th_rq_index h (rq_nr_running rq) th \<and> heap_ok (keys rq_key h th) (rq_nr_running rq)"

definition rq_ok :: "size_t \<Rightarrow> sched_rq \<Rightarrow> thread_store \<Rightarrow> bool" where
  "rq_ok c rq th \<longleftrightarrow> (\<exists>h. rq_shape rq h th \<and> rq_root_min rq h th) \<and>
     (\<forall>t \<in> rq_members rq. th_on_rq (th t) \<and> th_in_run_queue (th t) \<and> th_last_cpu (th t) = c)"

text \<open>What a change of one queue does to the threads: only positions move, and one thread may leave.\<close>

definition reindexed :: "tid set \<Rightarrow> thread_store \<Rightarrow> thread_store \<Rightarrow> bool" where
  "reindexed M th th' \<longleftrightarrow> (\<forall>u. th' u = (if u \<in> M then set_rq_index (th_rq_index (th' u)) (th u) else th u))"

lemma rq_shape_bound: "rq_shape rq h th \<Longrightarrow> rq_nr_running rq \<le> rq_capacity rq \<and> rq_nr_running rq \<le> RQ_LIMIT"
  by (auto simp: rq_shape_def slots_ok_def)

lemma rq_root_key:
  assumes "rq_shape rq h th" "t \<in> members h (rq_nr_running rq)"
  shows "rq_key (th (the (h ! 0))) \<le> rq_key (th t)"
proof -
  obtain i where "i < rq_nr_running rq" "h ! i = Some t" using assms(2) by (auto simp: members_def)
  then show ?thesis using heap_root_min [of "keys rq_key h th" "rq_nr_running rq" i] assms(1) by (simp add: rq_shape_def keys_def)
qed

lemma rq_key_vruntime: "rq_key x \<le> rq_key y \<Longrightarrow> th_vruntime_ns x \<le> th_vruntime_ns y"
  by (auto simp: rq_key_def less_eq_prod_def)

lemma rq_root_vruntime:
  assumes "rq_shape rq h th" "rq_root_min rq h th" "t \<in> members h (rq_nr_running rq)"
  shows "rq_min_vruntime rq \<le> th_vruntime_ns (th t)"
proof -
  have "0 < rq_nr_running rq" using assms(3) by (auto simp: members_def)
  then show ?thesis using rq_key_vruntime [OF rq_root_key [OF assms(1,3)]] assms(2) by (simp add: rq_root_min_def)
qed

lemma rq_note_min_spec:
  assumes "rq_shape rq h th"
  shows "\<exists>v. rq_note_min rq th = Some (rq\<lparr>rq_min_vruntime := v\<rparr>) \<and>
           (if 0 < rq_nr_running rq then v = th_vruntime_ns (th (the (h ! 0))) else v = rq_min_vruntime rq) \<and>
           rq_shape (rq\<lparr>rq_min_vruntime := v\<rparr>) h th \<and> rq_root_min (rq\<lparr>rq_min_vruntime := v\<rparr>) h th"
proof (cases "0 < rq_nr_running rq")
  case True
  have ok: "slots_ok th_rq_index h (rq_nr_running rq) th" using assms by (simp add: rq_shape_def)
  have "load h 0 = Some (Some (the (h ! 0)))" using True ok slot_thread(1) [OF ok True] by (auto simp: slots_ok_def load_def)
  then show ?thesis using assms True by (auto simp: rq_note_min_def rq_shape_def rq_root_min_def)
next
  case False
  then show ?thesis using assms
    by (intro exI [of _ "rq_min_vruntime rq"]) (auto simp: rq_note_min_def rq_shape_def rq_root_min_def)
qed

lemma rq_sift_shape:
  assumes "rq_heap q = Some h" "length h = rq_capacity q" "rq_capacity q \<le> RQ_LIMIT"
    and "rqh.moved h (rq_nr_running q) th h' th'" "heap_ok (keys rq_key h' th') (rq_nr_running q)"
  shows "rq_shape (q\<lparr>rq_heap := Some h'\<rparr>) h' th'" "members h' (rq_nr_running q) = members h (rq_nr_running q)"
    "reindexed (members h (rq_nr_running q)) th th'"
proof -
  show "rq_shape (q\<lparr>rq_heap := Some h'\<rparr>) h' th'" "members h' (rq_nr_running q) = members h (rq_nr_running q)"
    using assms unfolding rq_shape_def rqh.moved_def by simp_all
  show "reindexed (members h (rq_nr_running q)) th th'" using assms(4) unfolding rqh.moved_def reindexed_def by blast
qed

text \<open>A queue keeps its invariant when its threads change only in what the queue does not look at.\<close>

definition rq_view :: "sched_thread \<Rightarrow> (u64 \<times> u64 \<times> pid_t) \<times> nat \<times> bool \<times> bool \<times> size_t" where
  "rq_view x = (rq_key x, th_rq_index x, th_on_rq x, th_in_run_queue x, th_last_cpu x)"

lemma rq_shape_cong:
  assumes "rq_shape rq h th" "\<And>t. t \<in> members h (rq_nr_running rq) \<Longrightarrow> rq_key (th' t) = rq_key (th t) \<and> th_rq_index (th' t) = th_rq_index (th t)"
  shows "rq_shape rq h th'"
proof -
  let ?n = "rq_nr_running rq"
  have ok: "slots_ok th_rq_index h ?n th" using assms(1) by (simp add: rq_shape_def)
  have m: "the (h ! i) \<in> members h ?n" if "i < ?n" for i using slot_thread(3) [OF ok that] .
  have "slots_ok th_rq_index h ?n th'"
    unfolding slots_ok_def
  proof (intro conjI allI impI)
    show "?n \<le> length h" using ok by (simp add: slots_ok_def)
    fix i assume i: "i < ?n"
    show "\<exists>t. h ! i = Some t \<and> th_rq_index (th' t) = i" using slot_thread(1,2) [OF ok i] assms(2) [OF m [OF i]] by auto
  qed
  moreover have "keys rq_key h th' i = keys rq_key h th i" if "i < ?n" for i using assms(2) [OF m [OF that]] by (simp add: keys_def)
  moreover have "par i < ?n" if "i < ?n" "0 < i" for i using par_less [OF that(2)] that(1) by linarith
  ultimately show ?thesis using assms(1) by (simp add: rq_shape_def heap_ok_def)
qed

lemma rq_ok_cong:
  assumes "rq_ok c rq th" "\<And>t. t \<in> rq_members rq \<Longrightarrow> rq_view (th' t) = rq_view (th t)"
  shows "rq_ok c rq th'"
proof -
  obtain h where h: "rq_shape rq h th" "rq_root_min rq h th" using assms(1) by (auto simp: rq_ok_def)
  have mem: "rq_members rq = members h (rq_nr_running rq)" using h(1) by (simp add: rq_members_def rq_shape_def)
  have v: "rq_view (th' t) = rq_view (th t)" if "t \<in> members h (rq_nr_running rq)" for t using assms(2) that mem by simp
  have "rq_shape rq h th'" using v by (intro rq_shape_cong [OF h(1)]) (simp add: rq_view_def)
  moreover have "rq_root_min rq h th'"
  proof (cases "0 < rq_nr_running rq")
    case True
    have "slots_ok th_rq_index h (rq_nr_running rq) th" using h(1) by (simp add: rq_shape_def)
    then show ?thesis using h(2) v [OF slot_thread(3) [OF _ True]] by (simp add: rq_root_min_def rq_view_def rq_key_def)
  qed (simp add: rq_root_min_def)
  ultimately show ?thesis using assms by (auto simp: rq_ok_def rq_view_def)
qed

lemma set_rq_index_simps [simp]:
  "set_rq_index i (set_rq_index j x) = set_rq_index i x" "set_rq_index (th_rq_index x) x = x" "th_rq_index (set_rq_index i x) = i"
  "rq_key (set_rq_index i x) = rq_key x" "th_on_rq (set_rq_index i x) = th_on_rq x" "th_in_run_queue (set_rq_index i x) = th_in_run_queue x"
  "th_last_cpu (set_rq_index i x) = th_last_cpu x" "th_vruntime_ns (set_rq_index i x) = th_vruntime_ns x"
  by (simp_all add: set_rq_index_def rq_key_def)

lemma reindexedD:
  assumes "reindexed M th th'"
  shows "u \<notin> M \<Longrightarrow> th' u = th u" "\<exists>i. th' u = set_rq_index i (th u)"
proof -
  have u: "th' u = (if u \<in> M then set_rq_index (th_rq_index (th' u)) (th u) else th u)" for u
    using assms unfolding reindexed_def by blast
  show "th' u = th u" if "u \<notin> M" using u [of u] that by simp
  show "\<exists>i. th' u = set_rq_index i (th u)"
    using u [of u] by (cases "u \<in> M") (auto intro: exI [of _ "th_rq_index (th' u)"] exI [of _ "th_rq_index (th u)"])
qed

lemma reindexedI:
  assumes "\<And>u. u \<notin> M \<Longrightarrow> th' u = th u" "\<And>u. \<exists>i. th' u = set_rq_index i (th u)"
  shows "reindexed M th th'"
  unfolding reindexed_def
proof
  fix u
  obtain i where "th' u = set_rq_index i (th u)" using assms(2) by blast
  then show "th' u = (if u \<in> M then set_rq_index (th_rq_index (th' u)) (th u) else th u)" using assms(1) by (cases "u \<in> M") simp_all
qed

lemma reindexed_trans:
  assumes "reindexed M th th1" "reindexed M th1 th2"
  shows "reindexed M th th2"
proof (rule reindexedI)
  show "th2 u = th u" if "u \<notin> M" for u using reindexedD(1) assms that by metis
  show "\<exists>i. th2 u = set_rq_index i (th u)" for u
    using reindexedD(2) [OF assms(1), of u] reindexedD(2) [OF assms(2), of u] by auto
qed

lemma set_rq_index_ex [simp]: "\<exists>i. x = set_rq_index i x"
  by (rule exI [of _ "th_rq_index x"]) simp

lemma reindexed_upd: "t \<in> M \<Longrightarrow> reindexed M th (th(t := set_rq_index i (th t)))"
  by (rule reindexedI) auto

lemma rq_insert_full: "rq_capacity rq \<le> rq_nr_running rq \<Longrightarrow> rq_insert rq th t = Some (False, rq, th)"
  by (simp add: rq_insert_def)

lemma rq_insert_spec:
  assumes sh: "rq_shape rq h th" and t: "t \<notin> members h (rq_nr_running rq)" and room: "rq_nr_running rq < rq_capacity rq"
  obtains h' th' rq' where "rq_insert rq th t = Some (True, rq', th')" "rq' = rq\<lparr>rq_heap := Some h', rq_nr_running := Suc (rq_nr_running rq)\<rparr>"
    "rq_shape rq' h' th'" "members h' (rq_nr_running rq') = insert t (members h (rq_nr_running rq))"
    "reindexed (insert t (members h (rq_nr_running rq))) th th'"
proof -
  let ?n = "rq_nr_running rq" let ?h1 = "h[?n := Some t]" let ?th1 = "th(t := set_rq_index ?n (th t))"
  let ?q = "rq\<lparr>rq_heap := Some ?h1, rq_nr_running := Suc ?n\<rparr>"
  have h: "rq_heap rq = Some h" "length h = rq_capacity rq" "rq_capacity rq \<le> RQ_LIMIT" "slots_ok th_rq_index h ?n th" "heap_ok (keys rq_key h th) ?n"
    using sh by (simp_all add: rq_shape_def)
  note a = rqh.append_slot(1,2) [OF h(4,5) t, where x = "th t"] rqh.append_slot(3) [OF h(4,5) t]
  have n: "?n < length h" using room h(2) by simp
  have u: "to_u32 ?n = ?n" "sz_add ?n 1 = Suc ?n"
    using room h(3) by (simp_all add: to_u32_def UINT32_MAX_def RQ_LIMIT_def sz_add_def SIZE_MAX_def)
  obtain h' th' where r: "rq_sift_up ?q ?th1 ?n = Some (?q\<lparr>rq_heap := Some h'\<rparr>, th')" "rqh.moved ?h1 (Suc ?n) ?th1 h' th'" "heap_ok (keys rq_key h' th') (Suc ?n)"
    using rqh.up_spec [of ?q ?h1 "Suc ?n" ?th1 ?n] a(1,2) n by auto
  have m: "members ?h1 (Suc ?n) = insert t (members h ?n)" using a(3) n by simp
  note z = rq_sift_shape [of ?q ?h1 ?th1 h' th', simplified, OF h(2,3) r(2,3), unfolded m]
  have "rq_insert rq th t = Some (True, ?q\<lparr>rq_heap := Some h'\<rparr>, th')"
    using room h(1) n r(1) u by (simp add: rq_insert_def store_ok Let_def)
  moreover have "reindexed (insert t (members h ?n)) th th'" by (rule reindexed_trans [OF reindexed_upd z(3)]) simp
  ultimately show thesis using that [of "?q\<lparr>rq_heap := Some h'\<rparr>" th' h'] z(1,2) by simp
qed

lemma rq_remove_index_last:
  assumes sh: "rq_shape rq h th" and n: "rq_nr_running rq = Suc n" and t: "h ! n = Some t"
  defines "th1 \<equiv> th(t := clear_rq (th t))" and "q \<equiv> rq\<lparr>rq_heap := Some (h[n := None]), rq_nr_running := n\<rparr>"
  shows "rq_remove_index rq th n = do { q \<leftarrow> rq_note_min q th1; Some (True, q, th1) }" "rq_shape q (h[n := None]) th1"
    "members (h[n := None]) n = members h (Suc n) - {t}"
proof -
  have h: "rq_heap rq = Some h" "length h = rq_capacity rq" "rq_capacity rq \<le> RQ_LIMIT" "slots_ok th_rq_index h (Suc n) th"
    "heap_ok (keys rq_key h th) (Suc n)" using sh n by (simp_all add: rq_shape_def)
  have len: "n < length h" using h(4) by (simp add: slots_ok_def)
  note d = rqh.drop_last [OF h(4,5) t, of "h[n := None]" th1]
  show "rq_shape q (h[n := None]) th1" "members (h[n := None]) n = members h (Suc n) - {t}"
    using d h(2,3) by (simp_all add: rq_shape_def q_def th1_def)
  show "rq_remove_index rq th n = do { q \<leftarrow> rq_note_min q th1; Some (True, q, th1) }"
    using h(1) n t len by (simp add: rq_remove_index_def Let_def load_ok store_ok q_def th1_def)
qed

lemma rq_remove_index_inner:
  assumes sh: "rq_shape rq h th" and n: "rq_nr_running rq = Suc n" and i: "i < n" and t: "h ! i = Some t" and l: "h ! n = Some l"
  defines "h1 \<equiv> h[i := Some l, n := None]" and "th1 \<equiv> (th(l := set_rq_index i (th l)))(t := clear_rq (th t))"
  obtains q h' th' where "rq_remove_index rq th i = do { q \<leftarrow> rq_note_min q th'; Some (True, q, th') }"
    "q = rq\<lparr>rq_heap := Some h', rq_nr_running := n\<rparr>" "rq_shape q h' th'" "members h' n = members h (Suc n) - {t}"
    "reindexed (members h (Suc n) - {t}) (th(t := clear_rq (th t))) th'"
proof -
  have h: "rq_heap rq = Some h" "length h = rq_capacity rq" "rq_capacity rq \<le> RQ_LIMIT" "slots_ok th_rq_index h (Suc n) th"
    "heap_ok (keys rq_key h th) (Suc n)" using sh n by (simp_all add: rq_shape_def)
  have len: "n < length h" using h(4) by (simp add: slots_ok_def)
  have lt: "l \<noteq> t" using slots_distinct [OF h(4), of i n] i t l by auto
  let ?q = "rq\<lparr>rq_heap := Some h1, rq_nr_running := n\<rparr>" let ?M = "members h (Suc n) - {t}"
  have f: "slots_ok th_rq_index h1 n th1" "hole_ok (keys rq_key h1 th1) n i" "members h1 n = ?M"
    by (rule rqh.fill_hole [OF h(4,5) i l t]; use i len l in \<open>auto simp: h1_def th1_def nth_list_update\<close>)+
  have nl: "n \<le> RQ_LIMIT" using len h(2,3) by simp
  obtain h' th' where r: "(if 0 < i \<and> keys rq_key h1 th1 i < keys rq_key h1 th1 (par i) then rq_sift_up ?q th1 i else rq_sift_down ?q th1 i) =
      Some (?q\<lparr>rq_heap := Some h'\<rparr>, th')" "rqh.moved h1 n th1 h' th'" "heap_ok (keys rq_key h' th') n"
    using rqh.fix_up_or_down [of ?q h1 n th1 i, OF _ _ nl f(1) i f(2)] by auto
  have z: "rq_shape (?q\<lparr>rq_heap := Some h'\<rparr>) h' th'" "members h' n = ?M" "reindexed ?M th1 th'"
    using rq_sift_shape [of ?q h1 th1 h' th'] r(2,3) h(2,3) f(3) by (simp_all add: h1_def)
  have ld: "load h1 j = Some (Some (the (h1 ! j)))" if "j < n" for j
    using slot_thread(1) [OF f(1) that] that len by (simp add: load_def h1_def)
  have pi: "par i < n" if "0 < i" using par_less [OF that] i by linarith
  have "rq_remove_index rq th i =
      do { (q, th) \<leftarrow> (if 0 < i \<and> keys rq_key h1 th1 i < keys rq_key h1 th1 (par i) then rq_sift_up ?q th1 i else rq_sift_down ?q th1 i);
           q \<leftarrow> rq_note_min q th; Some (True, q, th) }"
  proof -
    have e: "load h i = Some (Some t)" "load h n = Some (Some l)" "store h i (Some l) = Some (h[i := Some l])"
      "store (h[i := Some l]) n None = Some h1" using t l i len by (simp_all add: load_def store_def h1_def)
    have th: "(note_index (Some l) i th)(t := clear_rq (note_index (Some l) i th t)) = th1" using lt by (simp add: note_index_def th1_def)
    have p: "(i - Suc 0) div 2 = par i" by (simp add: par_def)
    have lt: "rq_less ((note_index (Some l) i th)(t := clear_rq (note_index (Some l) i th t))) (Some (the (h1 ! i))) (Some (the (h1 ! par i))) =
        (keys rq_key h1 th1 i < keys rq_key h1 th1 (par i))" unfolding th by (simp add: rq_less_key keys_def)
    show ?thesis using h(1) n i e th ld [OF i] ld [OF pi] lt
      by (cases "0 < i") (simp_all add: rq_remove_index_def Let_def p)
  qed
  then have "rq_remove_index rq th i = do { q \<leftarrow> rq_note_min (?q\<lparr>rq_heap := Some h'\<rparr>) th'; Some (True, q, th') }" using r(1) by simp
  moreover have "reindexed ?M (th(t := clear_rq (th t))) th'"
  proof (rule reindexed_trans [OF _ z(3)])
    have "l \<in> ?M" using l lt by (auto simp: members_def)
    then show "reindexed ?M (th(t := clear_rq (th t))) th1" using lt by (intro reindexedI) (auto simp: th1_def)
  qed
  moreover have "?q\<lparr>rq_heap := Some h'\<rparr> = rq\<lparr>rq_heap := Some h', rq_nr_running := n\<rparr>" by (cases rq) simp
  ultimately show thesis using that [OF _ refl, of h' th'] z(1,2) by metis
qed

lemma rq_remove_index_spec:
  assumes sh: "rq_shape rq h th" and rm: "rq_root_min rq h th" and i: "i < rq_nr_running rq" and t: "h ! i = Some t"
  obtains h' th' rq' where "rq_remove_index rq th i = Some (True, rq', th')" "rq_shape rq' h' th'" "rq_root_min rq' h' th'"
    "rq_nr_running rq' = rq_nr_running rq - 1" "rq_capacity rq' = rq_capacity rq"
    "members h' (rq_nr_running rq') = members h (rq_nr_running rq) - {t}"
    "reindexed (members h (rq_nr_running rq) - {t}) (th(t := clear_rq (th t))) th'" "rq_min_vruntime rq \<le> rq_min_vruntime rq'"
proof -
  let ?M = "members h (rq_nr_running rq) - {t}" let ?th = "th(t := clear_rq (th t))"
  obtain n where n: "rq_nr_running rq = Suc n" using i by (cases "rq_nr_running rq") auto
  have ok: "slots_ok th_rq_index h (Suc n) th" using sh n by (simp add: rq_shape_def)
  have "\<exists>h' th'. rq_remove_index rq th i = do { q \<leftarrow> rq_note_min (rq\<lparr>rq_heap := Some h', rq_nr_running := n\<rparr>) th'; Some (True, q, th') } \<and>
      rq_shape (rq\<lparr>rq_heap := Some h', rq_nr_running := n\<rparr>) h' th' \<and> members h' n = ?M \<and> reindexed ?M ?th th'"
  proof (cases "i = n")
    case True
    have "reindexed ?M ?th ?th" by (rule reindexedI) simp_all
    then show ?thesis using rq_remove_index_last [OF sh n, of t] t True n by auto
  next
    case False
    then have "i < n" using i n by simp
    moreover obtain l where "h ! n = Some l" using slot_thread(1) [OF ok, of n] by auto
    ultimately show ?thesis using rq_remove_index_inner [OF sh n _ t] n by metis
  qed
  then obtain h' th' where r: "rq_remove_index rq th i = do { q \<leftarrow> rq_note_min (rq\<lparr>rq_heap := Some h', rq_nr_running := n\<rparr>) th'; Some (True, q, th') }"
    "rq_shape (rq\<lparr>rq_heap := Some h', rq_nr_running := n\<rparr>) h' th'" "members h' n = ?M" "reindexed ?M ?th th'" by blast
  obtain v where v: "rq_note_min (rq\<lparr>rq_heap := Some h', rq_nr_running := n\<rparr>) th' = Some (rq\<lparr>rq_heap := Some h', rq_nr_running := n, rq_min_vruntime := v\<rparr>)"
    "if 0 < n then v = th_vruntime_ns (th' (the (h' ! 0))) else v = rq_min_vruntime rq"
    "rq_shape (rq\<lparr>rq_heap := Some h', rq_nr_running := n, rq_min_vruntime := v\<rparr>) h' th'"
    "rq_root_min (rq\<lparr>rq_heap := Some h', rq_nr_running := n, rq_min_vruntime := v\<rparr>) h' th'"
    using rq_note_min_spec [OF r(2)] by auto
  have "rq_min_vruntime rq \<le> v"
  proof (cases "0 < n")
    case True
    have "slots_ok th_rq_index h' n th'" using r(2) by (simp add: rq_shape_def)
    then have m: "the (h' ! 0) \<in> ?M" using slot_thread(3) [of _ h' n th' 0] True r(3) by auto
    have "th_vruntime_ns (th' (the (h' ! 0))) = th_vruntime_ns (th (the (h' ! 0)))" using reindexedD(2) [OF r(4), of "the (h' ! 0)"] m by auto
    then show ?thesis using rq_root_vruntime [OF sh rm, of "the (h' ! 0)"] v(2) m True by simp
  qed (use v(2) in simp)
  then show thesis using that [of "rq\<lparr>rq_heap := Some h', rq_nr_running := n, rq_min_vruntime := v\<rparr>" th' h'] r v n by simp
qed


section \<open>The invariant of the run queues\<close>

definition queued :: "sched_state \<Rightarrow> size_t \<Rightarrow> tid set" where
  "queued s c = rq_members (runqueues s ! c)"

text \<open>
  Every queue is a well-formed heap whose threads carry its core and their position, and a thread
  that is marked as queued is in the queue of its core; any other thread has no position.
\<close>

definition thread_placed :: "sched_thread \<Rightarrow> tid \<Rightarrow> (size_t \<Rightarrow> tid set) \<Rightarrow> bool" where
  "thread_placed x t Q \<longleftrightarrow>
     (if th_on_rq x then th_last_cpu x < MAX_CORES \<and> t \<in> Q (th_last_cpu x) else \<not> th_in_run_queue x \<and> th_rq_index x = UINT32_MAX)"

definition sched_ok :: "sched_state \<Rightarrow> bool" where
  "sched_ok s \<longleftrightarrow> cores_ok s \<and> (\<forall>c < MAX_CORES. rq_ok c (runqueues s ! c) (threads s)) \<and>
     (\<forall>t. thread_placed (threads s t) t (queued s))"

lemma sched_okD:
  assumes "sched_ok s"
  shows "length (runqueues s) = MAX_CORES" "length (cpus s) = MAX_CORES" "cores_ok s"
    "c < MAX_CORES \<Longrightarrow> rq_ok c (runqueues s ! c) (threads s)" "thread_placed (threads s t) t (queued s)"
  using assms by (simp_all add: sched_ok_def cores_ok_def)

lemma queuedD:
  assumes "sched_ok s" "c < MAX_CORES" "t \<in> queued s c"
  shows "th_on_rq (threads s t)" "th_in_run_queue (threads s t)" "th_last_cpu (threads s t) = c"
  using sched_okD(4) [OF assms(1,2)] assms(3) by (simp_all add: rq_ok_def queued_def)

lemma queued_iff:
  assumes "sched_ok s" "c < MAX_CORES"
  shows "t \<in> queued s c \<longleftrightarrow> th_on_rq (threads s t) \<and> th_last_cpu (threads s t) = c"
proof
  show "th_on_rq (threads s t) \<and> th_last_cpu (threads s t) = c" if "t \<in> queued s c" using queuedD [OF assms that] by simp
  show "t \<in> queued s c" if "th_on_rq (threads s t) \<and> th_last_cpu (threads s t) = c"
    using sched_okD(5) [OF assms(1), of t] that by (simp add: thread_placed_def)
qed

lemma sched_ok_heap:
  assumes "sched_ok s" "c < MAX_CORES"
  obtains h where "rq_shape (runqueues s ! c) h (threads s)" "rq_root_min (runqueues s ! c) h (threads s)"
    "rq_heap (runqueues s ! c) = Some h" "queued s c = members h (rq_nr_running (runqueues s ! c))"
    "load (runqueues s) c = Some (runqueues s ! c)"
proof -
  obtain h where h: "rq_shape (runqueues s ! c) h (threads s)" "rq_root_min (runqueues s ! c) h (threads s)"
    using sched_okD(4) [OF assms] by (auto simp: rq_ok_def)
  then show thesis using that [OF h] sched_okD(1) [OF assms(1)] assms(2)
    by (simp add: rq_shape_def queued_def rq_members_def load_ok)
qed

lemma put_rq_ok:
  assumes ok: "sched_ok s" and c: "c < MAX_CORES" and rq: "rq_ok c rq' th'"
    and other: "\<And>c' u. c' < MAX_CORES \<Longrightarrow> c' \<noteq> c \<Longrightarrow> u \<in> queued s c' \<Longrightarrow> rq_view (th' u) = rq_view (threads s u)"
    and placed: "\<And>u. thread_placed (th' u) u ((queued s)(c := rq_members rq'))"
  defines "s' \<equiv> s\<lparr>runqueues := (runqueues s)[c := rq'], threads := th'\<rparr>"
  shows "put_rq c rq' th' s = Some s'" "sched_ok s'" "\<And>c'. c' \<noteq> c \<Longrightarrow> queued s' c' = queued s c'" "queued s' c = rq_members rq'"
proof -
  have len: "c < length (runqueues s)" using sched_okD(1) [OF ok] c by simp
  show "put_rq c rq' th' s = Some s'" using len by (simp add: put_rq_def store_ok s'_def)
  show q: "\<And>c'. c' \<noteq> c \<Longrightarrow> queued s' c' = queued s c'" "queued s' c = rq_members rq'"
    using len by (simp_all add: queued_def s'_def)
  have "rq_ok c' (runqueues s' ! c') (threads s')" if "c' < MAX_CORES" for c'
  proof (cases "c' = c")
    case True
    then show ?thesis using rq len by (simp add: s'_def)
  next
    case False
    have "rq_ok c' (runqueues s ! c') th'"
      by (rule rq_ok_cong [OF sched_okD(4) [OF ok that]]) (rule other [OF that False], simp add: queued_def)
    then show ?thesis using False by (simp add: s'_def)
  qed
  moreover have "thread_placed (threads s' u) u (queued s')" for u
  proof -
    have "queued s' = (queued s)(c := rq_members rq')"
    proof
      fix k show "queued s' k = ((queued s)(c := rq_members rq')) k" using q(1) [of k] q(2) by (cases "k = c") simp_all
    qed
    then show ?thesis using placed [of u] by (simp add: s'_def)
  qed
  ultimately show "sched_ok s'" using ok by (simp add: sched_ok_def cores_ok_def s'_def)
qed

lemma take_index_spec:
  assumes ok: "sched_ok s" and c: "c < MAX_CORES" and h: "rq_heap (runqueues s ! c) = Some h"
    and i: "i < rq_nr_running (runqueues s ! c)" and t: "h ! i = Some t"
  obtains s' where "take_index s c (runqueues s ! c) i = Some s'" "sched_ok s'" "queued s' c = queued s c - {t}"
    "\<And>c'. c' \<noteq> c \<Longrightarrow> queued s' c' = queued s c'" "threads s' t = clear_rq (threads s t)"
    "\<And>u. u \<noteq> t \<Longrightarrow> \<exists>i. threads s' u = set_rq_index i (threads s u)"
    "rq_min_vruntime (runqueues s ! c) \<le> rq_min_vruntime (runqueues s' ! c)" "s' = s\<lparr>runqueues := runqueues s', threads := threads s'\<rparr>"
    "rq_remove_index (runqueues s ! c) (threads s) i = Some (True, runqueues s' ! c, threads s')" "put_rq c (runqueues s' ! c) (threads s') s = Some s'"
    "rq_capacity (runqueues s' ! c) = rq_capacity (runqueues s ! c)"
proof -
  let ?rq = "runqueues s ! c" let ?th = "threads s" let ?M = "queued s c - {t}"
  have sh: "rq_shape ?rq h ?th" "rq_root_min ?rq h ?th" "queued s c = members h (rq_nr_running ?rq)"
    using sched_ok_heap [OF ok c] h by (metis option.inject)+
  obtain h' th' rq' where r: "rq_remove_index ?rq ?th i = Some (True, rq', th')" "rq_shape rq' h' th'" "rq_root_min rq' h' th'"
    "members h' (rq_nr_running rq') = ?M" "reindexed ?M (?th(t := clear_rq (?th t))) th'" "rq_min_vruntime ?rq \<le> rq_min_vruntime rq'" "rq_capacity rq' = rq_capacity ?rq"
    using rq_remove_index_spec [OF sh(1,2) i t] sh(3) by metis
  have M: "rq_members rq' = ?M" using r(2,4) by (simp add: rq_members_def rq_shape_def)
  have tt: "th' t = clear_rq (?th t)" using reindexedD(1) [OF r(5), of t] by simp
  have uu: "\<exists>i. th' u = set_rq_index i (?th u)" if "u \<noteq> t" for u using reindexedD(2) [OF r(5), of u] that by auto
  have un: "th' u = ?th u" if "u \<noteq> t" "u \<notin> queued s c" for u using reindexedD(1) [OF r(5), of u] that by auto
  have tq: "t \<in> queued s c" using i t sh(3) by (auto simp: members_def)
  have rq: "rq_ok c rq' th'"
  proof -
    have "th_on_rq (th' u) \<and> th_in_run_queue (th' u) \<and> th_last_cpu (th' u) = c" if "u \<in> ?M" for u
      using queuedD [OF ok c, of u] uu [of u] that by auto
    then show ?thesis using r(2,3) M by (auto simp: rq_ok_def)
  qed
  have other: "rq_view (th' u) = rq_view (?th u)" if "c' < MAX_CORES" "c' \<noteq> c" "u \<in> queued s c'" for c' u
  proof -
    have "th_last_cpu (?th u) = c'" "th_last_cpu (?th t) = c" using queuedD(3) [OF ok] that c tq by blast+
    then have "u \<noteq> t" "u \<notin> queued s c" using that(2) queuedD(3) [OF ok c, of u] by auto
    then show ?thesis using un by simp
  qed
  have placed: "thread_placed (th' u) u ((queued s)(c := rq_members rq'))" for u
  proof (cases "u = t")
    case True
    then show ?thesis using tt by (simp add: thread_placed_def clear_rq_def)
  next
    case False
    note u = False
    show ?thesis
    proof (cases "u \<in> queued s c")
      case True
      obtain j where "th' u = set_rq_index j (?th u)" using uu [OF u] by blast
      then show ?thesis using queuedD [OF ok c True] True M u c by (simp add: thread_placed_def)
    next
      case False
      then show ?thesis using sched_okD(5) [OF ok, of u] un [OF u False] queued_iff [OF ok c, of u] by (simp add: thread_placed_def)
    qed
  qed
  note p = put_rq_ok [OF ok c rq other placed]
  let ?s' = "s\<lparr>runqueues := (runqueues s)[c := rq'], threads := th'\<rparr>"
  have e: "take_index s c ?rq i = Some ?s'" using r(1) p(1) by (simp add: take_index_def)
  have len: "c < length (runqueues s)" using sched_okD(1) [OF ok] c by simp
  show thesis by (rule that [OF e p(2)]) (use p(1,3,4) M tt uu r(1,6,7) len in simp_all)
qed

text \<open>The position of a queued thread.\<close>

lemma queued_position:
  assumes ok: "sched_ok s" and c: "c < MAX_CORES" and t: "t \<in> queued s c"
  obtains h where "rq_heap (runqueues s ! c) = Some h" "th_rq_index (threads s t) < rq_nr_running (runqueues s ! c)"
    "h ! th_rq_index (threads s t) = Some t" "load (runqueues s) c = Some (runqueues s ! c)"
    "load h (th_rq_index (threads s t)) = Some (Some t)" "th_rq_index (threads s t) \<noteq> UINT32_MAX"
proof -
  obtain h where h: "rq_shape (runqueues s ! c) h (threads s)" "rq_heap (runqueues s ! c) = Some h"
    "queued s c = members h (rq_nr_running (runqueues s ! c))" "load (runqueues s) c = Some (runqueues s ! c)"
    using sched_ok_heap [OF ok c] by metis
  have sl: "slots_ok th_rq_index h (rq_nr_running (runqueues s ! c)) (threads s)" using h(1) by (simp add: rq_shape_def)
  note m = slots_member [OF sl, of t] rq_shape_bound [OF h(1)]
  have "th_rq_index (threads s t) < length h" using m t h(3) sl by (simp add: slots_ok_def)
  then show thesis using that [OF h(2)] m t h(3,4) by (simp add: load_def RQ_LIMIT_def UINT32_MAX_def)
qed

end
