(* ===== verification/Run_Queue_Ops.thy ===== *)
theory Run_Queue_Ops
  imports Run_Queue
begin

text \<open>
  What the operations on the run queues do: choosing a thread to run, to steal or to move away,
  and queueing one. Every reachable state of the queues keeps the invariant.
\<close>

section \<open>What a queue operation leaves alone\<close>

text \<open>One thread is handled; the others may only move inside their queue, and no queue's floor sinks.\<close>

definition rq_change :: "tid \<Rightarrow> sched_state \<Rightarrow> sched_state \<Rightarrow> bool" where
  "rq_change t s s' \<longleftrightarrow> (\<forall>c < MAX_CORES. rq_capacity (runqueues s' ! c) = rq_capacity (runqueues s ! c)) \<and> (\<forall>u. u \<noteq> t \<longrightarrow> (\<exists>i. threads s' u = set_rq_index i (threads s u))) \<and>
     (\<forall>c < MAX_CORES. rq_min_vruntime (runqueues s ! c) \<le> rq_min_vruntime (runqueues s' ! c)) \<and>
     cpus s' = cpus s \<and> sleep s' = sleep s \<and> all_list s' = all_list s \<and> wake_rr_cursor s' = wake_rr_cursor s \<and> running s' = running s"

definition rq_taken :: "size_t \<Rightarrow> tid \<Rightarrow> sched_state \<Rightarrow> sched_state \<Rightarrow> bool" where
  "rq_taken c t s s' \<longleftrightarrow> sched_ok s' \<and> t \<in> queued s c \<and> queued s' = (queued s)(c := queued s c - {t}) \<and>
     threads s' t = clear_rq (threads s t) \<and> rq_change t s s' \<and> metrics s' = metrics s \<and> (\<forall>k. k \<noteq> c \<longrightarrow> runqueues s' ! k = runqueues s ! k)"

lemma rq_change_refl: "rq_change t s s"
  by (simp add: rq_change_def)

lemma rq_change_trans:
  assumes "rq_change t s1 s2" "rq_change t s2 s3"
  shows "rq_change t s1 s3"
proof -
  have "\<exists>i. threads s3 u = set_rq_index i (threads s1 u)" if u: "u \<noteq> t" for u
  proof -
    obtain i j where "threads s2 u = set_rq_index i (threads s1 u)" "threads s3 u = set_rq_index j (threads s2 u)"
      using assms u unfolding rq_change_def by blast
    then show ?thesis by auto
  qed
  then show ?thesis using assms by (auto simp: rq_change_def intro: order_trans)
qed

lemma take_index_taken:
  assumes ok: "sched_ok s" and c: "c < MAX_CORES" and h: "rq_heap (runqueues s ! c) = Some h"
    and i: "i < rq_nr_running (runqueues s ! c)" and t: "h ! i = Some t"
  shows "\<exists>s'. take_index s c (runqueues s ! c) i = Some s' \<and> rq_taken c t s s'"
proof -
  obtain s' where s': "take_index s c (runqueues s ! c) i = Some s'" "sched_ok s'" "queued s' c = queued s c - {t}"
    "\<And>c'. c' \<noteq> c \<Longrightarrow> queued s' c' = queued s c'" "threads s' t = clear_rq (threads s t)"
    "\<And>u. u \<noteq> t \<Longrightarrow> \<exists>i. threads s' u = set_rq_index i (threads s u)"
    "rq_min_vruntime (runqueues s ! c) \<le> rq_min_vruntime (runqueues s' ! c)" "s' = s\<lparr>runqueues := runqueues s', threads := threads s'\<rparr>"
    "put_rq c (runqueues s' ! c) (threads s') s = Some s'" "rq_capacity (runqueues s' ! c) = rq_capacity (runqueues s ! c)"
    by (rule take_index_spec [OF ok c h i t]) blast
  have len: "length (runqueues s) = MAX_CORES" using sched_okD(1) [OF ok] .
  have rqs: "runqueues s' = (runqueues s)[c := runqueues s' ! c]"
  proof -
    have "Some s' = Some (s\<lparr>runqueues := (runqueues s)[c := runqueues s' ! c], threads := threads s'\<rparr>)"
      using s'(9) len c by (simp add: put_rq_def store_ok)
    then have "runqueues s' = runqueues (s\<lparr>runqueues := (runqueues s)[c := runqueues s' ! c], threads := threads s'\<rparr>)" by (simp only: option.inject)
    then show ?thesis by simp
  qed
  have fl: "rq_min_vruntime (runqueues s ! k) \<le> rq_min_vruntime (runqueues s' ! k)" if "k < MAX_CORES" for k
  proof (cases "k = c")
    case True
    then show ?thesis using s'(7) by simp
  next
    case False
    then have "runqueues s' ! k = runqueues s ! k" by (subst rqs) simp
    then show ?thesis by simp
  qed
  have "queued s' = (queued s)(c := queued s c - {t})" using s'(3,4) by (intro ext) simp
  moreover have "t \<in> queued s c"
  proof -
    obtain h' where "rq_heap (runqueues s ! c) = Some h'" "queued s c = members h' (rq_nr_running (runqueues s ! c))"
      using sched_ok_heap [OF ok c] by metis
    then show ?thesis using h i t by (auto simp: members_def)
  qed
  moreover have "cpus s' = cpus s" "sleep s' = sleep s" "all_list s' = all_list s" "wake_rr_cursor s' = wake_rr_cursor s" "metrics s' = metrics s" "running s' = running s"
    by (subst s'(8), simp)+
  moreover have "runqueues s' ! k = runqueues s ! k" if "k \<noteq> c" for k using that by (subst rqs) simp
  moreover from this have "rq_capacity (runqueues s' ! k) = rq_capacity (runqueues s ! k)" for k using s'(10) by (cases "k = c") simp_all
  ultimately show ?thesis using s'(1,2,5,6) fl by (simp add: rq_taken_def rq_change_def)
qed


section \<open>Scanning a queue\<close>

text \<open>The best of the first \<open>i\<close> slots among the threads that satisfy \<open>A\<close>.\<close>

definition picked :: "(tid \<Rightarrow> tid \<Rightarrow> bool) \<Rightarrow> (tid \<Rightarrow> bool) \<Rightarrow> tid ptr list \<Rightarrow> nat \<Rightarrow> tid ptr \<Rightarrow> nat \<Rightarrow> bool" where
  "picked le A h i best bi \<longleftrightarrow>
     (case best of
        None \<Rightarrow> \<forall>j < i. \<not> A (the (h ! j))
      | Some b \<Rightarrow> bi < i \<and> h ! bi = Some b \<and> A b \<and> (\<forall>j < i. A (the (h ! j)) \<longrightarrow> le b (the (h ! j))))"

lemma picked_skip:
  assumes "picked le A h i best bi" "h ! i = Some t" "A t \<longrightarrow> (\<exists>b. best = Some b \<and> le b t)"
  shows "picked le A h (Suc i) best bi"
  using assms by (cases best) (auto simp: picked_def less_Suc_eq)

lemma picked_take:
  assumes "picked le A h i best bi" "h ! i = Some t" "A t" "best = None \<or> le t (the best)"
    and "\<And>x. le x x" "\<And>x y z. le x y \<Longrightarrow> le y z \<Longrightarrow> le x z"
  shows "picked le A h (Suc i) (Some t) i"
proof (cases best)
  case None
  then show ?thesis using assms(1-3,5) by (auto simp: picked_def less_Suc_eq)
next
  case (Some b)
  then have "le t b" "\<forall>j < i. A (the (h ! j)) \<longrightarrow> le b (the (h ! j))" using assms(1,4) by (simp_all add: picked_def)
  then show ?thesis using assms(2,3,5) assms(6) [of t b] by (auto simp: picked_def less_Suc_eq)
qed

lemma best_loop_spec:
  assumes "env_ok e" "\<And>j. j < i + n \<Longrightarrow> j < length h \<and> h ! j = Some (the (h ! j))"
    and "picked (\<lambda>a b. rq_key (threads s a) \<le> rq_key (threads s b)) (\<lambda>t. cpu_allowed e (threads s t) c) h i best bi"
  shows "\<exists>best' bi'. best_loop e s c h n i best bi = Some (best', bi') \<and>
           picked (\<lambda>a b. rq_key (threads s a) \<le> rq_key (threads s b)) (\<lambda>t. cpu_allowed e (threads s t) c) h (i + n) best' bi'"
  using assms
proof (induction e s c h n i best bi rule: best_loop.induct)
  case (1 e s c h i best bi)
  then show ?case by simp
next
  case (2 e s c h n i best bi)
  let ?le = "\<lambda>a b. rq_key (threads s a) \<le> rq_key (threads s b)" and ?A = "\<lambda>t. cpu_allowed e (threads s t) c"
  obtain t where t: "h ! i = Some t" "i < length h" using "2.prems"(2) [of i] by auto
  have ld: "load h i = Some (Some t)" using t by (simp add: load_def)
  have al: "sched_cpu_allowed e s (Some t) c = Some (?A t)" using sched_cpu_allowed_eq [OF "2.prems"(1)] .
  have pre: "j < length h \<and> h ! j = Some (the (h ! j))" if "j < i + 1 + n" for j using "2.prems"(2) that by simp
  consider "\<not> ?A t" | "?A t" "best = None \<or> rq_less (threads s) (Some t) best" | "?A t" "\<not> (best = None \<or> rq_less (threads s) (Some t) best)" by blast
  then show ?case
  proof cases
    case 1
    have "picked ?le ?A h (i + 1) best bi" using picked_skip [OF "2.prems"(3) t(1)] 1 by simp
    from "2.IH"(1) [OF ld al 1 "2.prems"(1) pre this] show ?thesis using 1 ld al by simp
  next
    case 2
    have "picked ?le ?A h (i + 1) (Some t) i"
      using picked_take [OF "2.prems"(3) t(1) 2(1)] 2(2) by (cases best) (auto simp: rq_less_key)
    from "2.IH"(2) [OF ld al _ 2(2) "2.prems"(1) pre this] show ?thesis using 2 ld al by auto
  next
    case 3
    have "picked ?le ?A h (i + 1) best bi"
      using picked_skip [OF "2.prems"(3) t(1)] 3 by (cases best) (auto simp: rq_less_key)
    from "2.IH"(3) [OF ld al _ 3(2) "2.prems"(1) pre this] show ?thesis using 3 ld al by auto
  qed
qed

definition rq_rank :: "sched_thread \<Rightarrow> u64 \<times> pid_t" where
  "rq_rank x = (th_vruntime_ns x, th_pid x)"

lemma rq_worse_rank: "rq_worse_than th t None" "rq_worse_than th t (Some b) \<longleftrightarrow> rq_rank (th b) < rq_rank (th t)"
  by (auto simp: rq_worse_than_def rq_rank_def less_prod_def)

lemma worst_loop_spec:
  assumes "\<And>j. j < i + n \<Longrightarrow> j < length h \<and> h ! j = Some (the (h ! j))" "\<And>t. sel (Some t) = Some (A t)"
    and "picked (\<lambda>a b. rq_rank (th b) \<le> rq_rank (th a)) A h i worst wi"
  shows "\<exists>worst' wi'. worst_loop sel th h n i worst wi = Some (worst', wi') \<and>
           picked (\<lambda>a b. rq_rank (th b) \<le> rq_rank (th a)) A h (i + n) worst' wi'"
  using assms
proof (induction sel th h n i worst wi rule: worst_loop.induct)
  case (1 sel th h i worst wi)
  then show ?case by simp
next
  case (2 sel th h n i worst wi)
  let ?le = "\<lambda>a b. rq_rank (th b) \<le> rq_rank (th a)"
  obtain t where t: "h ! i = Some t" "i < length h" using "2.prems"(1) [of i] by auto
  have ld: "load h i = Some (Some t)" using t by (simp add: load_def)
  have pre: "j < length h \<and> h ! j = Some (the (h ! j))" if "j < i + 1 + n" for j using "2.prems"(1) that by simp
  note ih = "2.IH" [OF ld "2.prems"(2)]
  show ?case
  proof (cases "A t \<and> rq_worse_than th t worst")
    case True
    have "picked ?le A h (i + 1) (Some t) i"
      using picked_take [OF "2.prems"(3) t(1)] True by (cases worst) (auto simp: rq_worse_rank)
    from ih(2) [OF refl True pre "2.prems"(2) this] show ?thesis using True ld "2.prems"(2) by simp
  next
    case False
    have "picked ?le A h (i + 1) worst wi"
      using picked_skip [OF "2.prems"(3) t(1)] False by (cases worst) (auto simp: rq_worse_rank not_less)
    from ih(3) [OF refl False pre "2.prems"(2) this] show ?thesis using False ld "2.prems"(2) by auto
  qed
qed

lemma picked_members:
  assumes "slots_ok ix h n th" "picked le A h n best bi"
  shows "best = None \<Longrightarrow> \<forall>t \<in> members h n. \<not> A t"
    "best = Some b \<Longrightarrow> bi < n \<and> h ! bi = Some b \<and> b \<in> members h n \<and> A b \<and> (\<forall>t \<in> members h n. A t \<longrightarrow> le b t)"
  using assms(2) by (force simp: picked_def members_def)+

lemma slots_loadable: "slots_ok ix h n th \<Longrightarrow> j < n \<Longrightarrow> j < length h \<and> h ! j = Some (the (h ! j))"
  by (auto simp: slots_ok_def)


section \<open>Taking threads out\<close>

text \<open>The scan of a well-formed queue finds the least allowed thread.\<close>

definition first_allowed :: "sched_env \<Rightarrow> sched_state \<Rightarrow> size_t \<Rightarrow> tid \<Rightarrow> bool" where
  "first_allowed e s c t \<longleftrightarrow> t \<in> queued s c \<and> cpu_allowed e (threads s t) c \<and>
     (\<forall>u \<in> queued s c. cpu_allowed e (threads s u) c \<longrightarrow> rq_key (threads s t) \<le> rq_key (threads s u))"

definition none_allowed :: "sched_env \<Rightarrow> sched_state \<Rightarrow> size_t \<Rightarrow> bool" where
  "none_allowed e s c \<longleftrightarrow> (\<forall>u \<in> queued s c. \<not> cpu_allowed e (threads s u) c)"

lemma scan_best_spec:
  assumes "env_ok e" "sched_ok s" "c < MAX_CORES" "rq_heap (runqueues s ! c) = Some h"
  obtains best bi where "scan_best e s c (runqueues s ! c) = Some (best, bi)" "best = None \<Longrightarrow> none_allowed e s c"
    "\<And>t. best = Some t \<Longrightarrow> first_allowed e s c t \<and> bi < rq_nr_running (runqueues s ! c) \<and> h ! bi = Some t"
proof (cases "rq_nr_running (runqueues s ! c) = 0")
  case True
  then have "scan_best e s c (runqueues s ! c) = Some (None, UINT32_MAX)" by (simp add: scan_best_def)
  moreover have "none_allowed e s c" using True by (simp add: none_allowed_def queued_def rq_members_def members_def)
  ultimately show thesis using that by simp
next
  case False
  let ?n = "rq_nr_running (runqueues s ! c)"
  have sl: "slots_ok th_rq_index h ?n (threads s)" and q: "queued s c = members h ?n"
    using sched_ok_heap [OF assms(2,3)] assms(4) by (metis option.inject rq_shape_def)+
  obtain best bi where b: "best_loop e s c h ?n 0 None UINT32_MAX = Some (best, bi)"
    "picked (\<lambda>a b. rq_key (threads s a) \<le> rq_key (threads s b)) (\<lambda>t. cpu_allowed e (threads s t) c) h ?n best bi"
    using best_loop_spec [OF assms(1), of 0 ?n h s c None UINT32_MAX] slots_loadable [OF sl] by (auto simp: picked_def)
  have "scan_best e s c (runqueues s ! c) = Some (best, bi)" using False assms(4) b(1) by (simp add: scan_best_def)
  then show thesis
    using picked_members [OF sl b(2)] q by (intro that [of best bi]) (simp_all add: none_allowed_def first_allowed_def)
qed

lemma allowed_root_spec:
  assumes "env_ok e" "sched_ok s" "c < MAX_CORES" "rq_heap (runqueues s ! c) = Some h"
  obtains r where "allowed_root e s c (runqueues s ! c) = Some r"
    "\<And>t. r = Some t \<Longrightarrow> first_allowed e s c t \<and> 0 < rq_nr_running (runqueues s ! c) \<and> h ! 0 = Some t"
proof (cases "rq_nr_running (runqueues s ! c) = 0")
  case True
  then show thesis using that [of None] by (simp add: allowed_root_def)
next
  case False
  let ?n = "rq_nr_running (runqueues s ! c)"
  have sh: "rq_shape (runqueues s ! c) h (threads s)" and q: "queued s c = members h ?n"
    using sched_ok_heap [OF assms(2,3)] assms(4) by (metis option.inject)+
  have sl: "slots_ok th_rq_index h ?n (threads s)" using sh by (simp add: rq_shape_def)
  obtain t where t: "h ! 0 = Some t" "t \<in> queued s c" using slot_thread(1,3) [OF sl, of 0] False q by auto
  have ld: "load h 0 = Some (Some t)" using t(1) slots_loadable [OF sl, of 0] False by (simp add: load_def)
  have "allowed_root e s c (runqueues s ! c) = Some (if cpu_allowed e (threads s t) c then Some t else None)"
    using False assms(4) ld sched_cpu_allowed_eq [OF assms(1)] by (simp add: allowed_root_def)
  moreover have "\<forall>u \<in> queued s c. rq_key (threads s t) \<le> rq_key (threads s u)" using rq_root_key [OF sh] q t(1) by simp
  ultimately show thesis
    using t False by (intro that [of "if cpu_allowed e (threads s t) c then Some t else None"]) (simp_all add: first_allowed_def split: if_splits)
qed

lemma first_allowed_some: "first_allowed e s c t \<Longrightarrow> \<not> none_allowed e s c"
  by (auto simp: first_allowed_def none_allowed_def)

lemma rq_pop_best_allowed_spec:
  assumes "env_ok e" "sched_ok s" "c < MAX_CORES"
  shows "(none_allowed e s c \<and> rq_pop_best_allowed e s c = Some (None, s)) \<or>
    (\<exists>t s'. first_allowed e s c t \<and> rq_pop_best_allowed e s c = Some (Some t, s') \<and> rq_taken c t s s')"
proof -
  obtain h where h: "rq_heap (runqueues s ! c) = Some h" "rq_nr_running (runqueues s ! c) \<le> RQ_LIMIT" "load (runqueues s) c = Some (runqueues s ! c)"
    using sched_ok_heap [OF assms(2,3)] rq_shape_bound by metis
  obtain r where r: "allowed_root e s c (runqueues s ! c) = Some r"
    "\<And>t. r = Some t \<Longrightarrow> first_allowed e s c t \<and> 0 < rq_nr_running (runqueues s ! c) \<and> h ! 0 = Some t"
    using allowed_root_spec [OF assms h(1)] by blast
  show ?thesis
  proof (cases r)
    case (Some t)
    with r(2) have t: "first_allowed e s c t" "0 < rq_nr_running (runqueues s ! c)" "h ! 0 = Some t" by simp_all
    then show ?thesis using take_index_taken [OF assms(2,3) h(1) t(2,3)] r(1) Some h(3) assms(3) by (auto simp: rq_pop_best_allowed_def)
  next
    case None
    obtain best bi where b: "scan_best e s c (runqueues s ! c) = Some (best, bi)" "best = None \<Longrightarrow> none_allowed e s c"
      "\<And>t. best = Some t \<Longrightarrow> first_allowed e s c t \<and> bi < rq_nr_running (runqueues s ! c) \<and> h ! bi = Some t"
      using scan_best_spec [OF assms h(1)] by blast
    show ?thesis
    proof (cases best)
      case None
      then show ?thesis using b(1,2) r(1) \<open>r = None\<close> h(3) assms(3) by (simp add: rq_pop_best_allowed_def)
    next
      case (Some t)
      with b(3) have t: "first_allowed e s c t" "bi < rq_nr_running (runqueues s ! c)" "h ! bi = Some t" by simp_all
      moreover have "bi \<noteq> UINT32_MAX" using t(2) h(2) by (simp add: RQ_LIMIT_def UINT32_MAX_def)
      ultimately show ?thesis
        using take_index_taken [OF assms(2,3) h(1) t(2,3)] b(1) r(1) \<open>r = None\<close> Some h(3) assms(3) by (auto simp: rq_pop_best_allowed_def)
    qed
  qed
qed

text \<open>The thread that a scan for the worst takes.\<close>

definition last_selected :: "sched_state \<Rightarrow> size_t \<Rightarrow> (tid \<Rightarrow> bool) \<Rightarrow> tid \<Rightarrow> bool" where
  "last_selected s c A t \<longleftrightarrow> t \<in> queued s c \<and> A t \<and> (\<forall>u \<in> queued s c. A u \<longrightarrow> rq_rank (threads s u) \<le> rq_rank (threads s t))"

lemma take_selected_spec:
  assumes ok: "sched_ok s" and c: "c < MAX_CORES" and sel: "\<And>t. sel (Some t) = Some (A t)"
  shows "((\<forall>u \<in> queued s c. \<not> A u) \<and> take_selected sel s c = Some (None, s)) \<or>
    (\<exists>t s'. last_selected s c A t \<and> take_selected sel s c = Some (Some t, s') \<and> rq_taken c t s s')"
proof -
  let ?n = "rq_nr_running (runqueues s ! c)"
  obtain h where h: "rq_shape (runqueues s ! c) h (threads s)" "rq_heap (runqueues s ! c) = Some h" "queued s c = members h ?n"
    "load (runqueues s) c = Some (runqueues s ! c)" using sched_ok_heap [OF ok c] by metis
  have sl: "slots_ok th_rq_index h ?n (threads s)" using h(1) by (simp add: rq_shape_def)
  obtain w wi where w: "worst_loop sel (threads s) h ?n 0 None UINT32_MAX = Some (w, wi)"
    "picked (\<lambda>a b. rq_rank (threads s b) \<le> rq_rank (threads s a)) A h ?n w wi"
    using worst_loop_spec [of 0 ?n h sel A "threads s" None UINT32_MAX] slots_loadable [OF sl] sel by (auto simp: picked_def)
  have run: "take_selected sel s c =
      (if w \<noteq> None \<and> wi \<noteq> UINT32_MAX then do { s \<leftarrow> take_index s c (runqueues s ! c) wi; Some (w, s) } else Some (None, s))"
    using h(2,4) w(1) by (cases "?n = 0") (auto simp: take_selected_def)
  note m = picked_members [OF sl w(2)]
  show ?thesis
  proof (cases w)
    case None
    then show ?thesis using m(1) run h(3) by simp
  next
    case (Some t)
    note t = m(2) [OF Some]
    have "wi \<noteq> UINT32_MAX" using t rq_shape_bound [OF h(1)] by (auto simp: RQ_LIMIT_def UINT32_MAX_def)
    moreover obtain s' where "take_index s c (runqueues s ! c) wi = Some s'" "rq_taken c t s s'"
      using take_index_taken [OF ok c h(2), of wi t] t by blast
    ultimately show ?thesis using run t Some h(3) by (auto simp: last_selected_def)
  qed
qed

lemma rq_remove_thread_taken:
  assumes ok: "sched_ok s" and t: "th_on_rq (threads s t)"
  shows "\<exists>s'. rq_remove_thread s (Some t) = Some (True, s') \<and> rq_taken (th_last_cpu (threads s t)) t s s'"
proof -
  let ?c = "th_last_cpu (threads s t)"
  have c: "?c < MAX_CORES" "t \<in> queued s ?c" using sched_okD(5) [OF ok, of t] t by (simp_all add: thread_placed_def)
  obtain h where h: "rq_heap (runqueues s ! ?c) = Some h" "th_rq_index (threads s t) < rq_nr_running (runqueues s ! ?c)"
    "h ! th_rq_index (threads s t) = Some t" "load (runqueues s) ?c = Some (runqueues s ! ?c)"
    "load h (th_rq_index (threads s t)) = Some (Some t)" "th_rq_index (threads s t) \<noteq> UINT32_MAX"
    by (rule queued_position [OF ok c])
  obtain s1 where s1: "take_index s ?c (runqueues s ! ?c) (th_rq_index (threads s t)) = Some s1"
    "rq_remove_index (runqueues s ! ?c) (threads s) (th_rq_index (threads s t)) = Some (True, runqueues s1 ! ?c, threads s1)"
    "put_rq ?c (runqueues s1 ! ?c) (threads s1) s = Some s1"
    by (rule take_index_spec [OF ok c(1) h(1,2,3)]) blast
  have "rq_remove_thread s (Some t) = Some (True, s1)"
    using t h s1(2,3) by (simp add: rq_remove_thread_def rq_remove_cpu_def Let_def)
  then show ?thesis using take_index_taken [OF ok c(1) h(1,2,3)] s1(1) by simp
qed

lemma rq_remove_thread_not_queued: "\<not> th_on_rq (threads s t) \<Longrightarrow> rq_remove_thread s (Some t) = Some (False, s)"
  by (simp add: rq_remove_thread_def)


section \<open>Queueing a thread\<close>

definition rq_entered :: "size_t \<Rightarrow> u64 \<Rightarrow> sched_thread \<Rightarrow> sched_thread" where
  "rq_entered c floor x = x\<lparr>th_vruntime_ns := max (th_vruntime_ns x) floor, th_on_rq := True, th_in_run_queue := True,
     th_last_cpu := c, th_affinity_core := c\<rparr>"

definition rq_added :: "size_t \<Rightarrow> tid \<Rightarrow> sched_state \<Rightarrow> sched_state \<Rightarrow> bool" where
  "rq_added c t s s' \<longleftrightarrow> sched_ok s' \<and> queued s' = (queued s)(c := insert t (queued s c)) \<and>
     (\<exists>i. threads s' t = set_rq_index i (rq_entered c (rq_min_vruntime (runqueues s ! c)) (threads s t))) \<and> rq_change t s s'"

lemma queued_upd [simp]:
  "queued (upd_metrics f s) = queued s" "queued (upd_thread t g s) = queued s"
  by (simp_all add: queued_def fun_eq_iff)

lemma sched_ok_metrics [simp]: "sched_ok (upd_metrics f s) \<longleftrightarrow> sched_ok s"
  by (simp add: sched_ok_def cores_ok_def upd_metrics_def queued_def [abs_def])

lemma sched_ok_upd_thread:
  assumes "sched_ok s" "rq_view (f (threads s t)) = rq_view (threads s t)"
  shows "sched_ok (upd_thread t f s)"
proof -
  have v: "rq_view (threads (upd_thread t f s) u) = rq_view (threads s u)" for u using assms(2) by simp
  have "rq_ok c (runqueues s ! c) (threads (upd_thread t f s))" if "c < MAX_CORES" for c
    by (rule rq_ok_cong [OF sched_okD(4) [OF assms(1) that]]) (rule v)
  moreover have "thread_placed (threads (upd_thread t f s) u) u (queued s)" for u
    using sched_okD(5) [OF assms(1), of u] v [of u] by (simp add: thread_placed_def rq_view_def)
  moreover have "cores_ok (upd_thread t f s)" using sched_okD(3) [OF assms(1)] by (simp add: cores_ok_def)
  ultimately show ?thesis by (simp add: sched_ok_def)
qed

text \<open>A thread that is in no queue may change in everything but the marks of the queue.\<close>

lemma sched_ok_upd_idle:
  assumes "sched_ok s" "\<not> th_on_rq (threads s t)" "\<not> th_on_rq (f (threads s t))" "\<not> th_in_run_queue (f (threads s t))" "th_rq_index (f (threads s t)) = UINT32_MAX"
  shows "sched_ok (upd_thread t f s)"
proof -
  have ne: "u \<noteq> t" if "u \<in> queued s c" "c < MAX_CORES" for u c using queuedD(1) [OF assms(1) that(2,1)] assms(2) by auto
  have "rq_ok c (runqueues s ! c) (threads (upd_thread t f s))" if "c < MAX_CORES" for c
    by (rule rq_ok_cong [OF sched_okD(4) [OF assms(1) that]]) (use ne [of _ c] that in \<open>simp add: queued_def\<close>)
  moreover have "thread_placed (threads (upd_thread t f s) u) u (queued s)" for u
    using sched_okD(5) [OF assms(1), of u] assms(3-5) by (simp add: thread_placed_def)
  moreover have "cores_ok (upd_thread t f s)" using sched_okD(3) [OF assms(1)] by (simp add: cores_ok_def)
  ultimately show ?thesis by (simp add: sched_ok_def)
qed

lemma insert_thread_spec:
  fixes c :: size_t
  assumes sh: "rq_shape rq h th" and rm: "rq_root_min rq h th" and t: "t \<notin> members h (rq_nr_running rq)"
    and room: "rq_nr_running rq < rq_capacity rq"
  defines "th0 \<equiv> th(t := (th t)\<lparr>th_vruntime_ns := max (th_vruntime_ns (th t)) (rq_min_vruntime rq)\<rparr>)" and "M \<equiv> members h (rq_nr_running rq)"
    and "mark \<equiv> \<lambda>x. x\<lparr>th_on_rq := True, th_in_run_queue := True, th_last_cpu := c, th_affinity_core := c\<rparr>"
  obtains rq1 th1 rq2 where "rq_insert rq th0 t = Some (True, rq1, th1)" "rq_note_min rq1 (th1(t := mark (th1 t))) = Some rq2"
    "\<exists>h. rq_shape rq2 h (th1(t := mark (th1 t))) \<and> rq_root_min rq2 h (th1(t := mark (th1 t)))" "rq_members rq2 = insert t M"
    "reindexed (insert t M) th0 th1" "rq_min_vruntime rq \<le> rq_min_vruntime rq2" "rq_capacity rq2 = rq_capacity rq"
proof -
  have "rq_shape rq h th0" by (rule rq_shape_cong [OF sh]) (use t in \<open>auto simp: th0_def\<close>)
  then obtain h1 th1 rq1 where i: "rq_insert rq th0 t = Some (True, rq1, th1)" "rq1 = rq\<lparr>rq_heap := Some h1, rq_nr_running := Suc (rq_nr_running rq)\<rparr>"
    "rq_shape rq1 h1 th1" "members h1 (rq_nr_running rq1) = insert t M" "reindexed (insert t M) th0 th1"
    using rq_insert_spec [of rq h th0 t] t room unfolding M_def by metis
  let ?th = "th1(t := mark (th1 t))"
  have "rq_shape rq1 h1 ?th" by (rule rq_shape_cong [OF i(3)]) (simp add: mark_def rq_key_def)
  then obtain v where v: "rq_note_min rq1 ?th = Some (rq1\<lparr>rq_min_vruntime := v\<rparr>)" "v = th_vruntime_ns (?th (the (h1 ! 0)))"
    "rq_shape (rq1\<lparr>rq_min_vruntime := v\<rparr>) h1 ?th" "rq_root_min (rq1\<lparr>rq_min_vruntime := v\<rparr>) h1 ?th"
    using rq_note_min_spec [of rq1 h1 ?th] i(2) by auto
  have m: "rq_members (rq1\<lparr>rq_min_vruntime := v\<rparr>) = insert t M" using i(2,4) by (simp add: rq_members_def)
  have "slots_ok th_rq_index h1 (rq_nr_running rq1) th1" using i(3) by (simp add: rq_shape_def)
  from slot_thread(3) [OF this, of 0] have r: "the (h1 ! 0) \<in> insert t M" using i(2,4) by simp
  have vt: "th_vruntime_ns (?th u) = th_vruntime_ns (th0 u)" for u using reindexedD(2) [OF i(5), of u] by (auto simp: mark_def)
  have "rq_min_vruntime rq \<le> v"
  proof (cases "the (h1 ! 0) = t")
    case True
    then show ?thesis using v(2) vt [of t] by (simp add: th0_def)
  next
    case False
    then show ?thesis using v(2) vt [of "the (h1 ! 0)"] r rq_root_vruntime [OF sh rm, of "the (h1 ! 0)"] by (simp add: th0_def M_def)
  qed
  then show thesis using that [OF i(1) v(1) _ m i(5)] v(3,4) i(2) by auto
qed

lemma rq_enqueue_new_added:
  assumes ok: "sched_ok s" and c: "c < MAX_CORES" and t: "\<not> th_on_rq (threads s t)"
    and room: "rq_nr_running (runqueues s ! c) < rq_capacity (runqueues s ! c)"
  shows "\<exists>s'. rq_enqueue_new s t c = Some s' \<and> rq_added c t s s'"
proof -
  let ?rq = "runqueues s ! c" and ?th = "threads s" and ?mark = "\<lambda>x. x\<lparr>th_on_rq := True, th_in_run_queue := True, th_last_cpu := c, th_affinity_core := c\<rparr>"
  let ?raised = "?th(t := (?th t)\<lparr>th_vruntime_ns := max (th_vruntime_ns (?th t)) (rq_min_vruntime ?rq)\<rparr>)"
  obtain h where h: "rq_shape ?rq h ?th" "rq_root_min ?rq h ?th" "queued s c = members h (rq_nr_running ?rq)" "load (runqueues s) c = Some ?rq"
    using sched_ok_heap [OF ok c] by metis
  have nq: "t \<notin> queued s k" if "k < MAX_CORES" for k using queued_iff [OF ok that] t by simp
  obtain rq1 th1 rq2 where i: "rq_insert ?rq ?raised t = Some (True, rq1, th1)" "rq_note_min rq1 (th1(t := ?mark (th1 t))) = Some rq2"
    "\<exists>h. rq_shape rq2 h (th1(t := ?mark (th1 t))) \<and> rq_root_min rq2 h (th1(t := ?mark (th1 t)))" "rq_members rq2 = insert t (queued s c)"
    "reindexed (insert t (queued s c)) ?raised th1" "rq_min_vruntime ?rq \<le> rq_min_vruntime rq2" "rq_capacity rq2 = rq_capacity ?rq"
    using insert_thread_spec [OF h(1,2) _ room, of t] nq [OF c] h(3) by metis
  let ?new = "th1(t := ?mark (th1 t))"
  obtain j where "th1 t = set_rq_index j (?raised t)" using reindexedD(2) [OF i(5), of t] by auto
  then have tt: "?new t = set_rq_index j (rq_entered c (rq_min_vruntime ?rq) (?th t))" by (simp add: rq_entered_def set_rq_index_def)
  have uu: "\<exists>i. ?new u = set_rq_index i (?th u)" if "u \<noteq> t" for u using reindexedD(2) [OF i(5), of u] that by simp
  have un: "?new u = ?th u" if "u \<noteq> t" "u \<notin> queued s c" for u using reindexedD(1) [OF i(5), of u] that by simp
  have flags: "th_on_rq (?new u) \<and> th_in_run_queue (?new u) \<and> th_last_cpu (?new u) = c" if "u \<in> insert t (queued s c)" for u
  proof (cases "u = t")
    case False
    then show ?thesis using queuedD [OF ok c, of u] uu [of u] that by auto
  qed simp
  have rq: "rq_ok c rq2 ?new" using i(3,4) flags by (simp add: rq_ok_def)
  have other: "rq_view (?new u) = rq_view (?th u)" if "k < MAX_CORES" "k \<noteq> c" "u \<in> queued s k" for k u
    using un [of u] that nq [of k] queuedD(3) [OF ok that(1,3)] queuedD(3) [OF ok c, of u] by fastforce
  have placed: "thread_placed (?new u) u ((queued s)(c := rq_members rq2))" for u
  proof (cases "u \<in> insert t (queued s c)")
    case True
    then show ?thesis using flags [OF True] i(4) c by (simp add: thread_placed_def)
  next
    case False
    then show ?thesis using sched_okD(5) [OF ok, of u] un [of u] queued_iff [OF ok c, of u] by (auto simp: thread_placed_def)
  qed
  let ?s' = "s\<lparr>runqueues := (runqueues s)[c := rq2], threads := ?new\<rparr>"
  have p: "put_rq c rq2 ?new s = Some ?s'" "sched_ok ?s'" "\<And>k. k \<noteq> c \<Longrightarrow> queued ?s' k = queued s k" "queued ?s' c = rq_members rq2"
    by (rule put_rq_ok [OF ok c rq]; (rule other placed)?; assumption)+
  have len: "c < length (runqueues s)" using sched_okD(1) [OF ok] c by simp
  have th0: "?raised = (if th_vruntime_ns (?th t) < rq_min_vruntime ?rq then ?th(t := (?th t)\<lparr>th_vruntime_ns := rq_min_vruntime ?rq\<rparr>) else ?th)"
    by (auto simp: max_def)
  have "rq_enqueue_new s t c = Some (rq_note_depth (rq_nr_running rq2) ?s')"
    using h(4) i(1,2) p(1) unfolding rq_enqueue_new_def th0 by (simp add: Let_def)
  moreover have "queued (rq_note_depth (rq_nr_running rq2) ?s') = (queued s)(c := insert t (queued s c))"
    using p(3,4) i(4) unfolding rq_note_depth_def queued_upd by (intro ext) simp
  moreover have "rq_change t s (rq_note_depth (rq_nr_running rq2) ?s')"
  proof -
    have "rq_min_vruntime (runqueues s ! k) \<le> rq_min_vruntime ((runqueues s)[c := rq2] ! k)" for k
      using i(6) len by (cases "k = c") simp_all
    moreover have "rq_capacity ((runqueues s)[c := rq2] ! k) = rq_capacity (runqueues s ! k)" for k using i(7) len by (cases "k = c") simp_all
    ultimately show ?thesis using uu by (auto simp: rq_change_def rq_note_depth_def upd_metrics_def)
  qed
  ultimately show ?thesis using p(2) tt unfolding rq_added_def rq_note_depth_def by (auto simp: sched_ok_metrics)
qed

lemma rq_enqueue_new_full:
  assumes ok: "sched_ok s" and c: "c < MAX_CORES" and full: "rq_capacity (runqueues s ! c) \<le> rq_nr_running (runqueues s ! c)"
  shows "rq_enqueue_new s t c = Some (upd_thread t (\<lambda>x. x\<lparr>th_vruntime_ns := max (th_vruntime_ns x) (rq_min_vruntime (runqueues s ! c))\<rparr>) s)"
  using sched_okD(1) [OF ok] c full
  by (simp add: rq_enqueue_new_def load_ok rq_insert_full put_rq_def store_ok upd_thread_def max_def Let_def)

text \<open>What the queues record in a thread; everything else of the thread is kept.\<close>

definition rq_erase :: "sched_thread \<Rightarrow> sched_thread" where
  "rq_erase x = x\<lparr>th_on_rq := False, th_in_run_queue := False, th_rq_index := 0, th_last_cpu := 0, th_affinity_core := 0,
     th_vruntime_ns := 0, th_running_cpu := 0\<rparr>"

definition rq_handled :: "tid \<Rightarrow> sched_state \<Rightarrow> sched_state \<Rightarrow> bool" where
  "rq_handled t s s' \<longleftrightarrow> sched_ok s' \<and> rq_change t s s' \<and> (\<forall>c. queued s' c - {t} = queued s c - {t}) \<and>
     rq_erase (threads s' t) = rq_erase (threads s t)"

lemma rq_handled_refl: "sched_ok s \<Longrightarrow> rq_handled t s s"
  by (simp add: rq_handled_def rq_change_refl)

lemma rq_handled_trans: "rq_handled t s1 s2 \<Longrightarrow> rq_handled t s2 s3 \<Longrightarrow> rq_handled t s1 s3"
  unfolding rq_handled_def using rq_change_trans [of t s1 s2 s3] by simp

lemma rq_taken_handled: "rq_taken c t s s' \<Longrightarrow> rq_handled t s s'"
  by (auto simp: rq_taken_def rq_handled_def rq_erase_def clear_rq_def)

lemma rq_added_handled: "rq_added c t s s' \<Longrightarrow> rq_handled t s s'"
  by (auto simp: rq_added_def rq_handled_def rq_erase_def rq_entered_def set_rq_index_def)

lemma upd_thread_handled:
  assumes "sched_ok (upd_thread t f s)" "rq_erase (f (threads s t)) = rq_erase (threads s t)"
  shows "rq_handled t s (upd_thread t f s)"
  using assms by (simp add: rq_handled_def rq_change_def)

lemma rq_enqueue_new_handled:
  assumes "sched_ok s" "c < MAX_CORES" "\<not> th_on_rq (threads s t)"
  shows "\<exists>s'. rq_enqueue_new s t c = Some s' \<and> rq_handled t s s'"
proof (cases "rq_nr_running (runqueues s ! c) < rq_capacity (runqueues s ! c)")
  case True
  then show ?thesis using rq_enqueue_new_added [OF assms] rq_added_handled by blast
next
  case False
  have "th_rq_index (threads s t) = UINT32_MAX" "\<not> th_in_run_queue (threads s t)"
    using sched_okD(5) [OF assms(1), of t] assms(3) by (simp_all add: thread_placed_def)
  then have "rq_handled t s (upd_thread t (\<lambda>x. x\<lparr>th_vruntime_ns := max (th_vruntime_ns x) (rq_min_vruntime (runqueues s ! c))\<rparr>) s)"
    using assms by (intro upd_thread_handled sched_ok_upd_idle) (simp_all add: rq_erase_def)
  then show ?thesis using rq_enqueue_new_full [OF assms(1,2), of t] False by simp
qed

text \<open>A queued thread is left where it is, another one is inserted.\<close>

lemma rq_enqueue_locked_eq:
  assumes ok: "sched_ok s" and c: "c < MAX_CORES" and q: "th_on_rq (threads s t) \<Longrightarrow> th_last_cpu (threads s t) = c"
  shows "rq_enqueue_locked s t c = (if th_on_rq (threads s t) then Some s else rq_enqueue_new s t c)"
proof (cases "th_on_rq (threads s t)")
  case True
  then have "t \<in> queued s c" using queued_iff [OF ok c] q by simp
  then obtain h where "rq_heap (runqueues s ! c) = Some h" "th_rq_index (threads s t) < rq_nr_running (runqueues s ! c)"
    "load (runqueues s) c = Some (runqueues s ! c)" "load h (th_rq_index (threads s t)) = Some (Some t)"
    by (rule queued_position [OF ok c]) blast
  then show ?thesis using True q by (simp add: rq_enqueue_locked_def Let_def)
next
  case False
  then have "th_rq_index (threads s t) = UINT32_MAX" using sched_okD(5) [OF ok, of t] by (simp add: thread_placed_def)
  then show ?thesis using False sched_okD(1) [OF ok] c by (simp add: rq_enqueue_locked_def Let_def load_ok)
qed

lemma rq_enqueue_locked_handled:
  assumes ok: "sched_ok s" and c: "c < MAX_CORES" and q: "th_on_rq (threads s t) \<Longrightarrow> th_last_cpu (threads s t) = c"
  shows "\<exists>s'. rq_enqueue_locked s t c = Some s' \<and> rq_handled t s s'"
  using rq_enqueue_new_handled [OF ok c, of t] rq_handled_refl [OF ok, of t] rq_enqueue_locked_eq [OF ok c, of t] q by (cases "th_on_rq (threads s t)") simp_all

definition fit_core :: "sched_env \<Rightarrow> sched_state \<Rightarrow> tid \<Rightarrow> size_t \<Rightarrow> bool" where
  "fit_core e s t c \<longleftrightarrow> c < MAX_CORES \<and> cpu_allowed e (threads s t) c \<and> core_online (env_cores_local e ! c)"

lemma candidates_fit:
  assumes "env_ok e" "c \<in> candidates e s t"
  shows "fit_core e s t c"
proof -
  have c: "online_core e c" "c < MAX_CORES" "c < 64" using assms(2) by (auto simp: candidates_def online_core_def MAX_CORES_def)
  obtain m where m: "sched_online_cpu_mask e = Some m" "\<And>c. bit m c \<longleftrightarrow> online_core e c"
    using online_mask_bits [OF assms(1)] c(1) by blast
  have "cpu_allowed e (threads s t) c"
    using assms(2) c m(2) unfolding cpu_allowed_def m(1) option.sel in_mask_def [symmetric] in_mask_bit by (auto simp: candidates_def)
  then show ?thesis using c by (simp add: fit_core_def online_core_def core_usable_def)
qed

lemma enqueue_target_spec:
  assumes e: "env_ok e" and s: "cores_ok s" and c: "c < MAX_CORES"
  obtains r where "enqueue_target e s t c = Some r" "\<And>k. r = Some k \<Longrightarrow> fit_core e s t k"
    "fit_core e s t c \<Longrightarrow> r = Some c" "candidates e s t \<noteq> {} \<Longrightarrow> r \<noteq> None"
proof (cases "fit_core e s t c")
  case True
  then have "enqueue_target e s t c = Some (Some c)"
    using e c by (simp add: enqueue_target_def fit_core_def sched_cpu_allowed_eq env_ok_def load_ok)
  then show thesis using that True by simp
next
  case False
  obtain k where k: "pick_cpu e s (Some t) c = Some k" using pick_cpu_total [OF e s] by blast
  have len: "length (env_cores_local e) = MAX_CORES" using e by (simp add: env_ok_def)
  have "enqueue_target e s t c = Some (if fit_core e s t k then Some k else None)"
    using False c len k unfolding enqueue_target_def fit_core_def sched_cpu_allowed_eq [OF e] by (simp add: load_ok)
  moreover have "fit_core e s t k" if "candidates e s t \<noteq> {}"
    using pick_cpu_spec [OF e s that, of c] k candidates_fit [OF e] by auto
  ultimately show thesis using False by (intro that [of "if fit_core e s t k then Some k else None"]) (simp_all split: if_splits)
qed

lemma thread_is_owned_total:
  assumes "cores_ok s"
  obtains b where "thread_is_owned s thread = Some b"
proof -
  have "thread_on_local_cpu s thread \<noteq> None" "thread_in_handoff s thread \<noteq> None"
    using assms by (auto simp: thread_on_local_cpu_def thread_in_handoff_def Let_def cores_ok_def load_ok intro: exI [of _ False])
  then have "\<exists>b. thread_is_owned s thread = Some b" by (auto simp: thread_is_owned_def)
  then show thesis using that by blast
qed

text \<open>The first half of \<open>rq_enqueue_cpu\<close>: a thread queued elsewhere leaves that queue.\<close>

lemma enqueue_leave:
  assumes ok: "sched_ok s"
  shows "\<exists>b s'. (if th_on_rq (threads s t) \<and> th_last_cpu (threads s t) \<noteq> k then rq_remove_thread s (Some t) else Some (False, s)) = Some (b, s') \<and>
    rq_handled t s s' \<and> (th_on_rq (threads s' t) \<longrightarrow> th_last_cpu (threads s' t) = k) \<and> (\<not> th_on_rq (threads s t) \<longrightarrow> s' = s)"
proof (cases "th_on_rq (threads s t) \<and> th_last_cpu (threads s t) \<noteq> k")
  case True
  then obtain s' where s': "rq_remove_thread s (Some t) = Some (True, s')" "rq_taken (th_last_cpu (threads s t)) t s s'"
    using rq_remove_thread_taken [OF ok] by blast
  have "\<not> th_on_rq (threads s' t)" using s'(2) by (simp add: rq_taken_def clear_rq_def)
  then show ?thesis using True s' rq_taken_handled by auto
next
  case False
  then show ?thesis using rq_handled_refl [OF ok] by auto
qed

lemma rq_enqueue_cpu_handled:
  assumes e: "env_ok e" and ok: "sched_ok s"
  shows "\<exists>s'. rq_enqueue_cpu e s (Some t) c = Some s' \<and> rq_handled t s s'"
proof (cases "c < MAX_CORES")
  case False
  then show ?thesis using rq_handled_refl [OF ok] by (simp add: rq_enqueue_cpu_def)
next
  case True
  obtain r where r: "enqueue_target e s t c = Some r" "\<And>k. r = Some k \<Longrightarrow> fit_core e s t k"
    using enqueue_target_spec [OF e sched_okD(3) [OF ok] True] by blast
  consider "r = None \<or> \<not> rq_runnable (threads s) (Some t)" | k where "r = Some k" "rq_runnable (threads s) (Some t)" by (cases r) auto
  then show ?thesis
  proof cases
    case 1
    then have "rq_enqueue_cpu e s (Some t) c = Some s" using True r(1) by (auto simp: rq_enqueue_cpu_def split: option.splits)
    then show ?thesis using rq_handled_refl [OF ok] by simp
  next
    case (2 k)
    have k: "k < MAX_CORES" using r(2) [OF 2(1)] by (simp add: fit_core_def)
    obtain b s1 where s1: "(if th_on_rq (threads s t) \<and> th_last_cpu (threads s t) \<noteq> k then rq_remove_thread s (Some t) else Some (False, s)) = Some (b, s1)"
      "rq_handled t s s1" "th_on_rq (threads s1 t) \<longrightarrow> th_last_cpu (threads s1 t) = k"
      using enqueue_leave [OF ok, of t k] by blast
    have ok1: "sched_ok s1" using s1(2) by (simp add: rq_handled_def)
    obtain ow where ow: "thread_is_owned s1 (Some t) = Some ow" using thread_is_owned_total [OF sched_okD(3) [OF ok1]] by blast
    let ?s2 = "thread_set_cpu t (-1) s1"
    have h2: "rq_handled t s1 ?s2" unfolding thread_set_cpu_def
      by (intro upd_thread_handled sched_ok_upd_thread ok1) (simp_all add: rq_view_def rq_key_def rq_erase_def)
    have ok2: "sched_ok ?s2" using h2 by (simp add: rq_handled_def)
    have on2: "th_on_rq (threads ?s2 t) \<Longrightarrow> th_last_cpu (threads ?s2 t) = k" using s1(3) by (simp add: thread_set_cpu_def)
    obtain s3 where s3: "rq_enqueue_locked s1 t k = Some s3" "rq_handled t s1 s3" using rq_enqueue_locked_handled [OF ok1 k, of t] s1(3) by blast
    obtain s4 where s4: "rq_enqueue_locked ?s2 t k = Some s4" "rq_handled t ?s2 s4" using rq_enqueue_locked_handled [OF ok2 k on2] by blast
    have "rq_enqueue_cpu e s (Some t) c = Some (if 0 \<le> thread_cpu s1 (Some t)
        then if ow \<or> thread_get_state s1 (Some t) = THREAD_RUNNING then s1 else s4 else s3)"
      using True r(1) 2 s1(1) ow s3(1) s4(1) by (simp add: rq_enqueue_cpu_def)
    then show ?thesis using rq_handled_trans [OF s1(2)] rq_handled_trans [OF h2 s4(2)] s3(2) s1(2) by simp
  qed
qed

text \<open>A thread that is ready, in no queue and owned by no core ends up in the queue of a fitting core.\<close>

lemma rq_enqueue_cpu_placed:
  assumes e: "env_ok e" and ok: "sched_ok s" and c: "c < MAX_CORES" and cand: "candidates e s t \<noteq> {}"
    and ready: "rq_runnable (threads s) (Some t)" "\<not> th_on_rq (threads s t)" "th_running_cpu (threads s t) < 0"
  obtains k where "fit_core e s t k" "fit_core e s t c \<Longrightarrow> k = c" "rq_enqueue_cpu e s (Some t) c = rq_enqueue_new s t k"
proof -
  obtain k where k: "enqueue_target e s t c = Some (Some k)" "fit_core e s t k" "fit_core e s t c \<Longrightarrow> k = c"
    using enqueue_target_spec [OF e sched_okD(3) [OF ok] c, of t] cand by (metis option.exhaust option.inject)
  have "rq_enqueue_cpu e s (Some t) c = rq_enqueue_locked s t k"
    using c k(1) ready by (simp add: rq_enqueue_cpu_def thread_cpu_def)
  also have "\<dots> = rq_enqueue_new s t k" using rq_enqueue_locked_eq [OF ok, of k t] k(2) ready(2) by (simp add: fit_core_def)
  finally show thesis using that k(2,3) by blast
qed


section \<open>Reachable run queues\<close>

text \<open>
  The steps that reach the run queues: queueing, removing, choosing, stealing, and anything that
  happens to a thread outside the queues, such as running.
\<close>

inductive rq_step :: "sched_env \<Rightarrow> sched_state \<Rightarrow> sched_state \<Rightarrow> bool" for e where
  enqueue: "rq_enqueue_cpu e s (Some t) c = Some s' \<Longrightarrow> rq_step e s s'"
| remove: "rq_remove_thread s (Some t) = Some (b, s') \<Longrightarrow> rq_step e s s'"
| pop: "rq_pop_best_allowed e s c = Some (p, s') \<Longrightarrow> rq_step e s s'"
| take_worst: "rq_take_worst e s c c' = Some (p, s') \<Longrightarrow> rq_step e s s'"
| take_unfit: "rq_take_unfit e s c c' = Some (p, s') \<Longrightarrow> rq_step e s s'"
| outside: "\<not> th_on_rq (threads s t) \<Longrightarrow> \<not> th_on_rq (f (threads s t)) \<Longrightarrow> \<not> th_in_run_queue (f (threads s t)) \<Longrightarrow>
    th_rq_index (f (threads s t)) = UINT32_MAX \<Longrightarrow> rq_step e s (upd_thread t f s)"

lemma worst_selector:
  assumes "env_ok e"
  shows "(if rq_runnable (threads s) (Some t) then sched_cpu_allowed e s (Some t) c else Some False) =
      Some (rq_runnable (threads s) (Some t) \<and> cpu_allowed e (threads s t) c)"
    "(if rq_runnable (threads s) (Some t) then do { ok \<leftarrow> sched_cpu_allowed e s (Some t) c; Some (\<not> ok) } else Some False) =
      Some (rq_runnable (threads s) (Some t) \<and> \<not> cpu_allowed e (threads s t) c)"
  by (simp_all add: sched_cpu_allowed_eq [OF assms])

lemma rq_take_worst_spec:
  assumes "env_ok e" "sched_ok s" "c < MAX_CORES" "c' < MAX_CORES"
  defines "A \<equiv> \<lambda>t. rq_runnable (threads s) (Some t) \<and> cpu_allowed e (threads s t) c'"
  shows "((\<forall>u \<in> queued s c. \<not> A u) \<and> rq_take_worst e s c c' = Some (None, s)) \<or>
    (\<exists>t s'. last_selected s c A t \<and> rq_take_worst e s c c' = Some (Some t, s') \<and> rq_taken c t s s')"
proof -
  let ?sel = "\<lambda>p. if rq_runnable (threads s) p then sched_cpu_allowed e s p c' else Some False"
  have "?sel (Some t) = Some (A t)" for t unfolding A_def by (rule worst_selector(1) [OF assms(1)])
  from take_selected_spec [OF assms(2,3), of ?sel A, OF this] show ?thesis using assms(3,4) by (simp add: rq_take_worst_def)
qed

lemma rq_take_unfit_spec:
  assumes "env_ok e" "sched_ok s" "c < MAX_CORES" "c' < MAX_CORES"
  defines "A \<equiv> \<lambda>t. rq_runnable (threads s) (Some t) \<and> \<not> cpu_allowed e (threads s t) c'"
  shows "((\<forall>u \<in> queued s c. \<not> A u) \<and> rq_take_unfit e s c c' = Some (None, s)) \<or>
    (\<exists>t s'. last_selected s c A t \<and> rq_take_unfit e s c c' = Some (Some t, s') \<and> rq_taken c t s s')"
proof -
  let ?sel = "\<lambda>p. if rq_runnable (threads s) p then do { ok \<leftarrow> sched_cpu_allowed e s p c'; Some (\<not> ok) } else Some False"
  have "?sel (Some t) = Some (A t)" for t unfolding A_def by (rule worst_selector(2) [OF assms(1)])
  from take_selected_spec [OF assms(2,3), of ?sel A, OF this] show ?thesis using assms(3,4) by (simp add: rq_take_unfit_def)
qed

text \<open>An operation that either does nothing or takes one thread out keeps the invariant.\<close>

lemma rq_pop_total:
  assumes "env_ok e" "sched_ok s"
  shows "\<exists>p s'. rq_pop_best_allowed e s c = Some (p, s') \<and> sched_ok s'"
  using rq_pop_best_allowed_spec [OF assms, of c] assms(2) by (cases "c < MAX_CORES") (auto simp: rq_taken_def rq_pop_best_allowed_def)

lemma rq_take_worst_total:
  assumes "env_ok e" "sched_ok s"
  shows "\<exists>p s'. rq_take_worst e s c c' = Some (p, s') \<and> sched_ok s'"
  using rq_take_worst_spec [OF assms, of c c'] assms(2)
  by (cases "c < MAX_CORES \<and> c' < MAX_CORES") (auto simp: rq_taken_def rq_take_worst_def)

lemma rq_take_unfit_total:
  assumes "env_ok e" "sched_ok s"
  shows "\<exists>p s'. rq_take_unfit e s c c' = Some (p, s') \<and> sched_ok s'"
  using rq_take_unfit_spec [OF assms, of c c'] assms(2)
  by (cases "c < MAX_CORES \<and> c' < MAX_CORES") (auto simp: rq_taken_def rq_take_unfit_def)

lemma rq_remove_thread_total:
  assumes "sched_ok s"
  shows "\<exists>b s'. rq_remove_thread s (Some t) = Some (b, s') \<and> sched_ok s'"
  using rq_remove_thread_taken [OF assms, of t] rq_remove_thread_not_queued [of s t] assms
  by (cases "th_on_rq (threads s t)") (auto simp: rq_taken_def)

lemmas rq_totals = rq_enqueue_cpu_handled rq_pop_total rq_take_worst_total rq_take_unfit_total rq_remove_thread_total

lemma rq_step_ok:
  assumes "rq_step e s s'" "env_ok e" "sched_ok s"
  shows "sched_ok s'"
  using assms
proof (induction rule: rq_step.induct)
  case (enqueue s t c s')
  then show ?case using rq_enqueue_cpu_handled [of e s t c] by (auto simp: rq_handled_def)
next
  case (remove s t b s')
  then show ?case using rq_remove_thread_total [of s t] by auto
next
  case (pop s c p s')
  then show ?case using rq_pop_total [of e s c] by auto
next
  case (take_worst s c c' p s')
  then show ?case using rq_take_worst_total [of e s c c'] by auto
next
  case (take_unfit s c c' p s')
  then show ?case using rq_take_unfit_total [of e s c c'] by auto
next
  case (outside s t f)
  then show ?case by (intro sched_ok_upd_idle)
qed

definition rq_fresh :: "sched_state \<Rightarrow> bool" where
  "rq_fresh s \<longleftrightarrow> runqueues s = replicate MAX_CORES empty_rq \<and> length (cpus s) = MAX_CORES \<and>
     (\<forall>t. \<not> th_on_rq (threads s t) \<and> \<not> th_in_run_queue (threads s t) \<and> th_rq_index (threads s t) = UINT32_MAX)"

lemma rq_fresh_ok:
  assumes "rq_fresh s"
  shows "sched_ok s"
proof -
  have "rq_ok c (runqueues s ! c) (threads s)" if "c < MAX_CORES" for c
    using assms that
    by (auto simp: rq_fresh_def rq_ok_def rq_shape_def empty_rq_def rq_root_min_def rq_members_def members_def slots_ok_def heap_ok_def
        SCHED_RQ_CAPACITY_def RQ_LIMIT_def)
  then show ?thesis using assms by (simp add: sched_ok_def cores_ok_def rq_fresh_def thread_placed_def)
qed

lemma rq_reachable_ok:
  assumes "(rq_step e)\<^sup>*\<^sup>* s0 s" "rq_fresh s0" "env_ok e"
  shows "sched_ok s"
  using assms(1) by (induction rule: rtranclp_induct) (use rq_fresh_ok [OF assms(2)] rq_step_ok assms(3) in blast)+

text \<open>Popping up to \<open>n\<close> threads in a row.\<close>

fun rq_pops :: "sched_env \<Rightarrow> size_t \<Rightarrow> nat \<Rightarrow> sched_state \<Rightarrow> (tid list \<times> sched_state) exec" where
  "rq_pops e c 0 s = Some ([], s)"
| "rq_pops e c (Suc n) s =
     do { (p, s) \<leftarrow> rq_pop_best_allowed e s c;
          case p of None \<Rightarrow> Some ([], s)
          | Some t \<Rightarrow> do { (ts, s) \<leftarrow> rq_pops e c n s; Some (t # ts, s) } }"

definition poppable :: "sched_env \<Rightarrow> sched_state \<Rightarrow> size_t \<Rightarrow> tid set" where
  "poppable e s c = {t \<in> queued s c. cpu_allowed e (threads s t) c}"

lemma finite_members: "finite (members h n)"
proof -
  have "members h n \<subseteq> (\<lambda>i. the (h ! i)) ` {..<n}" by (force simp: members_def)
  then show ?thesis by (rule finite_subset) simp
qed

lemma cpu_allowed_index [simp]: "cpu_allowed e (set_rq_index i x) c = cpu_allowed e x c"
  by (simp add: cpu_allowed_def set_rq_index_def)

lemma cpu_allowed_entered [simp]: "cpu_allowed e (rq_entered k v x) c = cpu_allowed e x c"
  by (simp add: cpu_allowed_def rq_entered_def)

lemma rq_taken_poppable:
  assumes "rq_taken c t s s'"
  shows "poppable e s' c = poppable e s c - {t}" "\<And>u. u \<in> poppable e s' c \<Longrightarrow> rq_key (threads s' u) = rq_key (threads s u)"
proof -
  have q: "queued s' c = queued s c - {t}" using assms by (simp add: rq_taken_def)
  have u: "cpu_allowed e (threads s' u) c = cpu_allowed e (threads s u) c" "rq_key (threads s' u) = rq_key (threads s u)" if u: "u \<noteq> t" for u
  proof -
    obtain i where "threads s' u = set_rq_index i (threads s u)" using assms u unfolding rq_taken_def rq_change_def by blast
    then show "cpu_allowed e (threads s' u) c = cpu_allowed e (threads s u) c" "rq_key (threads s' u) = rq_key (threads s u)" by simp_all
  qed
  then show "poppable e s' c = poppable e s c - {t}" using q by (auto simp: poppable_def)
  show "rq_key (threads s' u) = rq_key (threads s u)" if "u \<in> poppable e s' c" for u using u(2) that q by (auto simp: poppable_def)
qed

lemma rq_pops_spec:
  assumes e: "env_ok e" and c: "c < MAX_CORES" and ok: "sched_ok s" and n: "card (poppable e s c) \<le> n"
  shows "\<exists>ts s'. rq_pops e c n s = Some (ts, s') \<and> set ts = poppable e s c \<and> distinct ts \<and>
    sorted_wrt (\<lambda>a b. rq_key (threads s a) \<le> rq_key (threads s b)) ts \<and> poppable e s' c = {} \<and> sched_ok s'"
  using ok n
proof (induction n arbitrary: s)
  case 0
  have "finite (poppable e s c)" by (rule finite_subset [of _ "queued s c"]) (auto simp: poppable_def queued_def rq_members_def finite_members)
  then show ?case using 0 by simp
next
  case (Suc n)
  consider "none_allowed e s c" "rq_pop_best_allowed e s c = Some (None, s)"
    | t s1 where "first_allowed e s c t" "rq_pop_best_allowed e s c = Some (Some t, s1)" "rq_taken c t s s1"
    using rq_pop_best_allowed_spec [OF e Suc.prems(1) c] by blast
  then show ?case
  proof cases
    case 1
    then show ?thesis using Suc.prems(1) by (auto simp: none_allowed_def poppable_def)
  next
    case (2 t s1)
    note p = rq_taken_poppable [OF 2(3), where e = e]
    have t: "t \<in> poppable e s c" "\<forall>u \<in> poppable e s c. rq_key (threads s t) \<le> rq_key (threads s u)"
      using 2(1) by (auto simp: first_allowed_def poppable_def)
    have fin: "finite (poppable e s c)" by (rule finite_subset [of _ "queued s c"]) (auto simp: poppable_def queued_def rq_members_def finite_members)
    have "card (poppable e s1 c) \<le> n" using p(1) t(1) fin Suc.prems(2) by simp
    moreover have "sched_ok s1" using 2(3) by (simp add: rq_taken_def)
    ultimately obtain ts s2 where r: "rq_pops e c n s1 = Some (ts, s2)" "set ts = poppable e s1 c" "distinct ts"
      "sorted_wrt (\<lambda>a b. rq_key (threads s1 a) \<le> rq_key (threads s1 b)) ts" "poppable e s2 c = {}" "sched_ok s2"
      using Suc.IH [of s1] by blast
    have "sorted_wrt (\<lambda>a b. rq_key (threads s a) \<le> rq_key (threads s b)) ts"
      by (rule sorted_wrt_mono_rel [OF _ r(4)]) (use r(2) p(2) in simp)
    then show ?thesis using 2(2) r p(1) t by (auto simp: insert_absorb)
  qed
qed

lemma demo_ok: "env_ok (demo_env 4)" "rq_fresh demo_state" "sched_ok demo_state"
proof -
  show "env_ok (demo_env 4)" by (simp add: env_ok_def demo_env_def MAX_CORES_def)
  show f: "rq_fresh demo_state" by (simp add: rq_fresh_def demo_state_def demo_thread_def zero_thread_def)
  show "sched_ok demo_state" by (rule rq_fresh_ok [OF f])
qed

lemma demo_thread_fit: "candidates (demo_env 4) demo_state t \<noteq> {}" "fit_core (demo_env 4) demo_state t 0"
  "rq_runnable (threads demo_state) (Some t)" "\<not> th_on_rq (threads demo_state t)" "th_running_cpu (threads demo_state t) < 0"
proof -
  have z: "0 \<in> candidates (demo_env 4) demo_state t"
    by (simp add: candidates_def online_core_def core_usable_def demo_env_def MAX_CORES_def nth_append demo_state_def demo_thread_def zero_thread_def)
  then show "candidates (demo_env 4) demo_state t \<noteq> {}" by blast
  show "fit_core (demo_env 4) demo_state t 0" by (rule candidates_fit [OF demo_ok(1) z])
  show "rq_runnable (threads demo_state) (Some t)" "\<not> th_on_rq (threads demo_state t)" "th_running_cpu (threads demo_state t) < 0"
    by (simp_all add: rq_runnable_def demo_state_def demo_thread_def zero_thread_def)
qed

lemma demo_enqueued:
  obtains s where "rq_enqueue_cpu (demo_env 4) demo_state (Some 0) 0 = Some s" "rq_added 0 0 demo_state s"
proof -
  have m: "0 < MAX_CORES" by (simp add: MAX_CORES_def)
  have "rq_enqueue_cpu (demo_env 4) demo_state (Some 0) 0 = rq_enqueue_new demo_state 0 0"
    by (rule rq_enqueue_cpu_placed [OF demo_ok(1,3) m demo_thread_fit(1,3,4,5) [of 0]]) (use demo_thread_fit(2) in auto)
  moreover have "rq_nr_running (runqueues demo_state ! 0) < rq_capacity (runqueues demo_state ! 0)"
    by (simp add: demo_state_def MAX_CORES_def empty_rq_def SCHED_RQ_CAPACITY_def)
  ultimately show thesis using rq_enqueue_new_added [OF demo_ok(3) m demo_thread_fit(4)] that by metis
qed


section \<open>Properties\<close>

text \<open>
  (C2) Whatever sequence of queueing, removal, choosing, stealing and running leads to a state of the
  scheduler, every run queue is an ordered heap, every entry points back to its position and its core, every
  thread marked as queued is in the queue of its core, and no operation on the queues can fault.
\<close>

theorem rq_reachable_wf:
  assumes "(rq_step e)\<^sup>*\<^sup>* s0 s" "rq_fresh s0" "env_ok e"
  shows "(\<forall>c < MAX_CORES. \<exists>h. rq_heap (runqueues s ! c) = Some h \<and> rq_nr_running (runqueues s ! c) \<le> length h \<and>
            (\<forall>i < rq_nr_running (runqueues s ! c). \<exists>t. h ! i = Some t \<and> th_rq_index (threads s t) = i \<and> th_on_rq (threads s t) \<and>
               th_last_cpu (threads s t) = c \<and> (0 < i \<longrightarrow> \<not> rq_less (threads s) (h ! i) (h ! ((i - 1) div 2))))) \<and>
         (\<forall>t. th_on_rq (threads s t) \<longrightarrow> t \<in> queued s (th_last_cpu (threads s t))) \<and>
         (\<forall>t c c'. rq_enqueue_cpu e s (Some t) c \<noteq> None \<and> rq_remove_thread s (Some t) \<noteq> None \<and> rq_pop_best_allowed e s c \<noteq> None \<and>
            rq_take_worst e s c c' \<noteq> None \<and> rq_take_unfit e s c c' \<noteq> None)"
proof (intro conjI allI impI)
  have ok: "sched_ok s" by (rule rq_reachable_ok [OF assms])
  show "rq_enqueue_cpu e s (Some t) c \<noteq> None" "rq_remove_thread s (Some t) \<noteq> None" "rq_pop_best_allowed e s c \<noteq> None"
    "rq_take_worst e s c c' \<noteq> None" "rq_take_unfit e s c c' \<noteq> None" for t c c'
    using rq_enqueue_cpu_handled [OF assms(3) ok, of t c] rq_remove_thread_total [OF ok, of t] rq_pop_total [OF assms(3) ok, of c]
      rq_take_worst_total [OF assms(3) ok, of c c'] rq_take_unfit_total [OF assms(3) ok, of c c'] by auto
  show "t \<in> queued s (th_last_cpu (threads s t))" if "th_on_rq (threads s t)" for t
    using sched_okD(5) [OF ok, of t] that by (simp add: thread_placed_def)
  fix c assume c: "c < MAX_CORES"
  let ?n = "rq_nr_running (runqueues s ! c)"
  obtain h where h: "rq_shape (runqueues s ! c) h (threads s)" "rq_heap (runqueues s ! c) = Some h" "queued s c = members h ?n"
    using sched_ok_heap [OF ok c] by metis
  have sl: "slots_ok th_rq_index h ?n (threads s)" "heap_ok (keys rq_key h (threads s)) ?n" using h(1) by (simp_all add: rq_shape_def)
  have "\<not> rq_less (threads s) (h ! i) (h ! ((i - 1) div 2))" if i: "i < ?n" "0 < i" for i
  proof -
    have "par i < ?n" using par_less [OF i(2)] i(1) by linarith
    then obtain a b where ab: "h ! i = Some a" "h ! par i = Some b"
      using slot_thread(1) [OF sl(1) i(1)] slot_thread(1) [OF sl(1), of "par i"] by auto
    have "keys rq_key h (threads s) (par i) \<le> keys rq_key h (threads s) i" using sl(2) i by (simp add: heap_ok_def)
    then show ?thesis unfolding par_def [symmetric] ab rq_less_key using ab by (simp add: keys_def not_less)
  qed
  moreover have entry: "\<exists>t. h ! i = Some t \<and> th_rq_index (threads s t) = i \<and> th_on_rq (threads s t) \<and> th_last_cpu (threads s t) = c" if i: "i < ?n" for i
    using slot_thread [OF sl(1) i] queuedD(1,3) [OF ok c, of "the (h ! i)"] h(3) by (intro exI [of _ "the (h ! i)"]) simp
  ultimately show "\<exists>h. rq_heap (runqueues s ! c) = Some h \<and> ?n \<le> length h \<and> (\<forall>i < ?n. \<exists>t. h ! i = Some t \<and> th_rq_index (threads s t) = i \<and>
      th_on_rq (threads s t) \<and> th_last_cpu (threads s t) = c \<and> (0 < i \<longrightarrow> \<not> rq_less (threads s) (h ! i) (h ! ((i - 1) div 2))))"
    using entry h(2) sl(1) by (intro exI [of _ h]) (auto simp: slots_ok_def)
qed

theorem rq_reachable_wf_witness:
  "\<exists>s. rq_enqueue_cpu (demo_env 4) demo_state (Some 0) 0 = Some s \<and> th_on_rq (threads s 0) \<and> 0 \<in> queued s 0 \<and>
     (\<forall>c < MAX_CORES. rq_heap (runqueues s ! c) \<noteq> None) \<and> rq_pop_best_allowed (demo_env 4) s 0 \<noteq> None"
proof -
  obtain s where s: "rq_enqueue_cpu (demo_env 4) demo_state (Some 0) 0 = Some s" "rq_added 0 0 demo_state s" by (rule demo_enqueued)
  have "(rq_step (demo_env 4))\<^sup>*\<^sup>* demo_state s" using rq_step.enqueue [OF s(1)] by blast
  moreover have "th_on_rq (threads s 0)" "th_last_cpu (threads s 0) = 0" using s(2) by (auto simp: rq_added_def rq_entered_def)
  ultimately show ?thesis using rq_reachable_wf [of "demo_env 4" demo_state s] demo_ok(1,2) s(1) by (metis option.distinct(1))
qed

text \<open>
  (C3) On any well-formed state, \<open>rq_pop_best_allowed\<close> returns NULL and changes nothing exactly when no thread
  in the core's queue may run there; otherwise it returns a thread of the queue that may run there and is least
  by virtual run time, total run time and pid among those, takes exactly this thread out, leaves every other
  queue and every other thread's data alone, keeps the queues well formed, and never lowers a queue's floor.
\<close>

theorem rq_pop_best_correct:
  assumes "env_ok e" "sched_ok s" "c < MAX_CORES"
  shows "if (\<exists>u \<in> queued s c. cpu_allowed e (threads s u) c)
    then \<exists>t s'. rq_pop_best_allowed e s c = Some (Some t, s') \<and> t \<in> queued s c \<and> cpu_allowed e (threads s t) c \<and>
        (\<forall>u \<in> queued s c. cpu_allowed e (threads s u) c \<longrightarrow> \<not> rq_less (threads s) (Some u) (Some t)) \<and>
        sched_ok s' \<and> queued s' = (queued s)(c := queued s c - {t}) \<and> threads s' t = clear_rq (threads s t) \<and>
        (\<forall>u. u \<noteq> t \<longrightarrow> (\<exists>i. threads s' u = (threads s u)\<lparr>th_rq_index := i\<rparr>)) \<and>
        (\<forall>k < MAX_CORES. rq_min_vruntime (runqueues s ! k) \<le> rq_min_vruntime (runqueues s' ! k))
    else rq_pop_best_allowed e s c = Some (None, s)"
proof -
  consider "none_allowed e s c" "rq_pop_best_allowed e s c = Some (None, s)"
    | t s' where "first_allowed e s c t" "rq_pop_best_allowed e s c = Some (Some t, s')" "rq_taken c t s s'"
    using rq_pop_best_allowed_spec [OF assms] by blast
  then show ?thesis
  proof cases
    case 1
    then show ?thesis by (auto simp: none_allowed_def)
  next
    case (2 t s')
    have "\<exists>u \<in> queued s c. cpu_allowed e (threads s u) c" using 2(1) by (auto simp: first_allowed_def)
    then show ?thesis using 2
      by (auto simp: first_allowed_def rq_taken_def rq_change_def rq_less_key set_rq_index_def not_less)
  qed
qed

theorem rq_pop_best_correct_witness:
  "\<exists>s s'. rq_enqueue_cpu (demo_env 4) demo_state (Some 0) 0 = Some s \<and> rq_pop_best_allowed (demo_env 4) s 0 = Some (Some 0, s') \<and> queued s' 0 = {}"
proof -
  obtain s where s: "rq_enqueue_cpu (demo_env 4) demo_state (Some 0) 0 = Some s" "rq_added 0 0 demo_state s" by (rule demo_enqueued)
  have q: "queued s 0 = {0}" using s(2)
    by (simp add: rq_added_def queued_def rq_members_def members_def demo_state_def MAX_CORES_def empty_rq_def)
  obtain i where "threads s 0 = set_rq_index i (rq_entered 0 (rq_min_vruntime (runqueues demo_state ! 0)) (threads demo_state 0))"
    using s(2) unfolding rq_added_def by blast
  then have "cpu_allowed (demo_env 4) (threads s 0) 0"
    using demo_thread_fit(2) [of 0] by (simp add: fit_core_def)
  then show ?thesis using rq_pop_best_correct [of "demo_env 4" s 0] demo_ok(1) s q by (auto simp: rq_added_def MAX_CORES_def)
qed

text \<open>
  (C4) Queueing a thread that is ready, in no queue and owned by no core: it goes to the core asked for when the
  thread may run there and the core is online, and else to another such core. With room in the queue the thread
  is added to exactly this queue, its virtual run time raised to the queue's floor so that it cannot overtake
  the threads that waited there, and it is marked as queued; a full queue drops the request, leaving the thread in no queue.
\<close>

theorem rq_enqueue_cpu_correct:
  assumes "env_ok e" "sched_ok s" "c < MAX_CORES" "candidates e s t \<noteq> {}"
    and "rq_runnable (threads s) (Some t)" "\<not> th_on_rq (threads s t)" "th_running_cpu (threads s t) < 0"
  shows "\<exists>k s'. rq_enqueue_cpu e s (Some t) c = Some s' \<and> sched_ok s' \<and> fit_core e s t k \<and> (fit_core e s t c \<longrightarrow> k = c) \<and>
    th_vruntime_ns (threads s' t) = max (th_vruntime_ns (threads s t)) (rq_min_vruntime (runqueues s ! k)) \<and>
    (\<forall>u. u \<noteq> t \<longrightarrow> (\<exists>i. threads s' u = (threads s u)\<lparr>th_rq_index := i\<rparr>)) \<and>
    (\<forall>j < MAX_CORES. rq_min_vruntime (runqueues s ! j) \<le> rq_min_vruntime (runqueues s' ! j)) \<and>
    (if rq_nr_running (runqueues s ! k) < rq_capacity (runqueues s ! k)
     then queued s' = (queued s)(k := insert t (queued s k)) \<and> th_on_rq (threads s' t) \<and> th_last_cpu (threads s' t) = k
     else queued s' = queued s \<and> \<not> th_on_rq (threads s' t))"
proof -
  obtain k where k: "fit_core e s t k" "fit_core e s t c \<Longrightarrow> k = c" "rq_enqueue_cpu e s (Some t) c = rq_enqueue_new s t k"
    using rq_enqueue_cpu_placed [OF assms] by blast
  have km: "k < MAX_CORES" using k(1) by (simp add: fit_core_def)
  show ?thesis
  proof (cases "rq_nr_running (runqueues s ! k) < rq_capacity (runqueues s ! k)")
    case True
    then obtain s' where s': "rq_enqueue_new s t k = Some s'" "rq_added k t s s'" using rq_enqueue_new_added [OF assms(2) km assms(6)] by blast
    then obtain i where "threads s' t = set_rq_index i (rq_entered k (rq_min_vruntime (runqueues s ! k)) (threads s t))" by (auto simp: rq_added_def)
    then have "th_vruntime_ns (threads s' t) = max (th_vruntime_ns (threads s t)) (rq_min_vruntime (runqueues s ! k))"
      "th_on_rq (threads s' t)" "th_last_cpu (threads s' t) = k" by (simp_all add: rq_entered_def)
    then show ?thesis using k True s' by (intro exI [of _ k] exI [of _ s']) (auto simp: rq_added_def rq_change_def set_rq_index_def)
  next
    case False
    let ?f = "\<lambda>x. x\<lparr>th_vruntime_ns := max (th_vruntime_ns x) (rq_min_vruntime (runqueues s ! k))\<rparr>"
    have e: "rq_enqueue_new s t k = Some (upd_thread t ?f s)" using rq_enqueue_new_full [OF assms(2) km] False by simp
    then have "rq_handled t s (upd_thread t ?f s)" using rq_enqueue_new_handled [OF assms(2) km assms(6)] by simp
    then have "sched_ok (upd_thread t ?f s)" by (simp add: rq_handled_def)
    then show ?thesis using k False e assms(6)
      by (intro exI [of _ k] exI [of _ "upd_thread t ?f s"]) (simp add: set_rq_index_ex [unfolded set_rq_index_def])
  qed
qed

theorem rq_enqueue_cpu_correct_witness:
  "\<exists>s. rq_enqueue_cpu (demo_env 4) demo_state (Some 0) 0 = Some s \<and> queued s 0 = insert 0 (queued demo_state 0)"
proof -
  have "rq_nr_running (runqueues demo_state ! 0) < rq_capacity (runqueues demo_state ! 0)"
    by (simp add: demo_state_def MAX_CORES_def empty_rq_def SCHED_RQ_CAPACITY_def)
  then show ?thesis
    using rq_enqueue_cpu_correct [of "demo_env 4" demo_state 0 0] demo_ok demo_thread_fit [of 0] by (auto simp: MAX_CORES_def)
qed

text \<open>
  (C5) No thread starves in a queue: popping as often as there are threads that may run on the core returns each
  of them exactly once, in the order of virtual run time, total run time and pid, and then none is left.
\<close>

theorem rq_pops_drain:
  assumes "env_ok e" "c < MAX_CORES" "sched_ok s" "card (poppable e s c) \<le> n"
  shows "\<exists>ts s'. rq_pops e c n s = Some (ts, s') \<and> set ts = poppable e s c \<and> distinct ts \<and>
    sorted_wrt (\<lambda>a b. \<not> rq_less (threads s) (Some b) (Some a)) ts \<and> rq_pop_best_allowed e s' c = Some (None, s')"
proof -
  obtain ts s' where r: "rq_pops e c n s = Some (ts, s')" "set ts = poppable e s c" "distinct ts"
    "sorted_wrt (\<lambda>a b. rq_key (threads s a) \<le> rq_key (threads s b)) ts" "poppable e s' c = {}" "sched_ok s'"
    using rq_pops_spec [OF assms] by blast
  have "rq_pop_best_allowed e s' c = Some (None, s')"
    using rq_pop_best_allowed_spec [OF assms(1) r(6) assms(2)] r(5) by (auto simp: first_allowed_def poppable_def)
  moreover have "sorted_wrt (\<lambda>a b. \<not> rq_less (threads s) (Some b) (Some a)) ts"
    by (rule sorted_wrt_mono_rel [OF _ r(4)]) (simp add: rq_less_key not_less)
  ultimately show ?thesis using r(1-3) by blast
qed

theorem rq_pops_drain_witness:
  "\<exists>s ts s'. rq_enqueue_cpu (demo_env 4) demo_state (Some 0) 0 = Some s \<and> rq_pops (demo_env 4) 0 1 s = Some (ts, s') \<and> set ts \<subseteq> {0}"
proof -
  obtain s where s: "rq_enqueue_cpu (demo_env 4) demo_state (Some 0) 0 = Some s" "rq_added 0 0 demo_state s" by (rule demo_enqueued)
  have q: "queued s 0 = {0}" using s(2)
    by (simp add: rq_added_def queued_def rq_members_def members_def demo_state_def MAX_CORES_def empty_rq_def)
  then have "poppable (demo_env 4) s 0 \<subseteq> {0}" by (auto simp: poppable_def)
  then have sub: "card (poppable (demo_env 4) s 0) \<le> 1" "poppable (demo_env 4) s 0 \<subseteq> {0}"
    using card_mono [of "{0}" "poppable (demo_env 4) s 0"] by simp_all
  have "0 < MAX_CORES" "sched_ok s" using s(2) by (simp_all add: MAX_CORES_def rq_added_def)
  from rq_pops_drain [OF demo_ok(1) this sub(1)] show ?thesis using s(1) sub(2) by auto
qed

end
