(* ===== verification/Sched_Dispatch.thy ===== *)
theory Sched_Dispatch
  imports Run_Queue_Ops
begin

text \<open>
  Waking cores and queueing threads: the part of \<open>kernel/sched/create.c\<close>, \<open>select.c\<close>, \<open>tick.c\<close> and
  \<open>internal.h\<close> above the run queues. A request for an interrupt on the own core is recorded in
  \<open>resched_irq\<close>, as in the code; the interrupt itself is a later step.
\<close>

section \<open>Asking a core to reschedule\<close>

definition sched_thread_is_idle :: "sched_state \<Rightarrow> tid ptr \<Rightarrow> bool" where
  "sched_thread_is_idle s thread = (case thread of None \<Rightarrow> False | Some t \<Rightarrow> th_pid (threads s t) = 0)"

definition sched_running_get :: "sched_state \<Rightarrow> bool" where
  "sched_running_get s = running s"

definition sched_set_resched_cpu :: "size_t \<Rightarrow> bool \<Rightarrow> sched_state \<Rightarrow> sched_state exec" where
  "sched_set_resched_cpu cpu_id b s =
     (if MAX_CORES \<le> cpu_id then Some s else upd_cpu cpu_id (\<lambda>c. c\<lparr>cpu_need_resched := b\<rparr>) s)"

definition sched_mark_resched_cpu :: "size_t \<Rightarrow> sched_state \<Rightarrow> (bool \<times> sched_state) exec" where
  "sched_mark_resched_cpu cpu_id s =
     (if MAX_CORES \<le> cpu_id then Some (False, s)
      else do { cpu \<leftarrow> load (cpus s) cpu_id;
                s \<leftarrow> upd_cpu cpu_id (\<lambda>c. c\<lparr>cpu_need_resched := True\<rparr>) s;
                Some (\<not> cpu_need_resched cpu, s) })"

definition sched_preempt_off :: "sched_env \<Rightarrow> sched_state \<Rightarrow> bool exec" where
  "sched_preempt_off e s = do { cpu \<leftarrow> load (cpus s) (env_cpu_id e); Some (cpu_preempt_depth cpu \<noteq> 0) }"

definition force_resched :: "sched_env \<Rightarrow> sched_state \<Rightarrow> sched_state exec" where
  "force_resched e s =
     (if \<not> sched_running_get s then Some s
      else do { s \<leftarrow> upd_cpu (env_cpu_id e) (\<lambda>c. c\<lparr>cpu_force_resched := True, cpu_need_resched := True\<rparr>) s;
                off \<leftarrow> sched_preempt_off e s;
                cpu \<leftarrow> load (cpus s) (env_cpu_id e);
                if off \<or> cpu_sched_lock_depth cpu \<noteq> 0 \<or> \<not> env_irq_enabled e then Some s
                else if cpu_resched_irq cpu then Some s
                else upd_cpu (env_cpu_id e) (\<lambda>c. c\<lparr>cpu_resched_irq := True\<rparr>) s })"

definition sched_resched_local :: "sched_env \<Rightarrow> sched_state \<Rightarrow> sched_state exec" where
  "sched_resched_local e s =
     (if \<not> sched_running_get s then Some s
      else do { s \<leftarrow> upd_cpu (env_cpu_id e) (\<lambda>c. c\<lparr>cpu_need_resched := True\<rparr>) s;
                off \<leftarrow> sched_preempt_off e s;
                cpu \<leftarrow> load (cpus s) (env_cpu_id e);
                if off \<or> cpu_sched_lock_depth cpu \<noteq> 0 \<or> \<not> env_irq_enabled e then Some s
                else do { current \<leftarrow> sched_local_current e s;
                          idle \<leftarrow> sched_local_idle e s;
                          let is_running = (case current of None \<Rightarrow> False | Some t \<Rightarrow> th_state (threads s t) = THREAD_RUNNING) in
                          if is_running \<and> current \<noteq> idle then Some s
                          else if cpu_resched_irq cpu then Some s
                          else upd_cpu (env_cpu_id e) (\<lambda>c. c\<lparr>cpu_resched_irq := True\<rparr>) s } })"

definition wake_cpu :: "sched_env \<Rightarrow> sched_state \<Rightarrow> size_t \<Rightarrow> (bool \<times> sched_state) exec" where
  "wake_cpu e s cpu_id =
     (if MAX_CORES \<le> cpu_id then Some (False, s)
      else do { (fresh, s) \<leftarrow> sched_mark_resched_cpu cpu_id s;
                if \<not> fresh then Some (False, s)
                else if cpu_id = env_cpu_id e then Some (False, s)
                else do { need \<leftarrow> cpu_needs_ipi s cpu_id;
                          if \<not> need then Some (False, s)
                          else if \<not> env_resched_cpu e cpu_id then Some (False, s)
                          else Some (True, s) } })"

definition note_wake_ipi :: "sched_state \<Rightarrow> sched_state" where
  "note_wake_ipi = upd_metrics (\<lambda>m. m\<lparr>m_wake_ipi := m_wake_ipi m + 1\<rparr>)"

definition note_migration :: "sched_state \<Rightarrow> sched_state" where
  "note_migration = upd_metrics (\<lambda>m. m\<lparr>m_migrations := m_migrations m + 1\<rparr>)"

text \<open>Wake a core and count the interrupt that was sent.\<close>

definition wake_counted :: "sched_env \<Rightarrow> sched_state \<Rightarrow> size_t \<Rightarrow> sched_state exec" where
  "wake_counted e s cpu_id =
     do { (sent, s) \<leftarrow> wake_cpu e s cpu_id; Some (if sent then note_wake_ipi s else s) }"

definition sched_kick_cpu :: "sched_env \<Rightarrow> sched_state \<Rightarrow> size_t \<Rightarrow> sched_state exec" where
  "sched_kick_cpu e s cpu_id =
     (if MAX_CORES \<le> cpu_id then Some s
      else if cpu_id = env_cpu_id e then sched_resched_local e s
      else wake_counted e s cpu_id)"

definition sched_nudge_thread :: "sched_env \<Rightarrow> sched_state \<Rightarrow> tid ptr \<Rightarrow> sched_state exec" where
  "sched_nudge_thread e s thread =
     (let running_cpu = thread_cpu s thread in
      case thread of
        None \<Rightarrow> Some s
      | Some t \<Rightarrow>
          if running_cpu < 0 \<or> MAX_CORES \<le> nat running_cpu then Some s
          else do { local \<leftarrow> thread_on_local_cpu s thread;
                    handoff \<leftarrow> thread_in_handoff s thread;
                    if \<not> local \<and> \<not> handoff then Some s
                    else let s = (if local \<and> thread_get_state s thread = THREAD_SLEEPING then thread_set_state t THREAD_RUNNING s else s);
                             owner_cpu = nat running_cpu in
                      if owner_cpu = env_cpu_id e then sched_resched_local e s
                      else wake_counted e s owner_cpu })"


section \<open>Queueing\<close>

definition enqueue_at :: "sched_env \<Rightarrow> sched_state \<Rightarrow> tid \<Rightarrow> size_t \<Rightarrow> sched_state exec" where
  "enqueue_at e s t target_cpu =
     do { (_, s) \<leftarrow> (if th_on_rq (threads s t) \<and> th_last_cpu (threads s t) \<noteq> target_cpu then rq_remove_thread s (Some t) else Some (False, s));
          rq_enqueue_cpu e s (Some t) target_cpu }"

definition notify_core :: "sched_env \<Rightarrow> sched_state \<Rightarrow> size_t \<Rightarrow> bool \<Rightarrow> sched_state exec" where
  "notify_core e s target_cpu allow_remote_ipi =
     (if target_cpu \<noteq> env_cpu_id e
      then do { (sent, s) \<leftarrow> (if allow_remote_ipi then wake_cpu e s target_cpu else Some (False, s));
                if sent then Some (note_wake_ipi s) else sched_set_resched_cpu target_cpu True s }
      else sched_resched_local e s)"

definition enqueue_ipi :: "sched_env \<Rightarrow> sched_state \<Rightarrow> tid ptr \<Rightarrow> bool \<Rightarrow> sched_state exec" where
  "enqueue_ipi e s thread allow_remote_ipi =
     do { idle \<leftarrow> sched_local_idle e s;
          case thread of
            None \<Rightarrow> Some s
          | Some t \<Rightarrow>
              if thread = idle then Some s
              else if th_context (threads s t) = 0 then Some s
              else if thread_get_state s thread \<noteq> THREAD_READY then Some s
              else if th_pid (threads s t) = 0 then Some s
              else do { (target_cpu, s) \<leftarrow> pick_target_cpu e s thread;
                        let prev_cpu = th_last_cpu (threads s t) in
                        do { s \<leftarrow> enqueue_at e s t target_cpu;
                             let s = (if prev_cpu \<noteq> target_cpu then note_migration s else s) in
                             notify_core e s target_cpu allow_remote_ipi } } }"

definition enqueue_thread :: "sched_env \<Rightarrow> sched_state \<Rightarrow> tid ptr \<Rightarrow> sched_state exec" where
  "enqueue_thread e s thread = enqueue_ipi e s thread True"

definition rq_remove :: "sched_state \<Rightarrow> tid ptr \<Rightarrow> sched_state exec" where
  "rq_remove s thread =
     (case thread of None \<Rightarrow> Some s | Some t \<Rightarrow> do { (_, s) \<leftarrow> rq_remove_thread s thread; Some s })"

definition sched_repair_thread :: "sched_env \<Rightarrow> sched_state \<Rightarrow> tid ptr \<Rightarrow> bool \<Rightarrow> (bool \<times> sched_state) exec" where
  "sched_repair_thread e s thread send_ipi =
     (case thread of
        None \<Rightarrow> Some (False, s)
      | Some t \<Rightarrow>
          if thread_get_state s thread \<noteq> THREAD_RUNNING then Some (False, s)
          else do { local \<leftarrow> thread_on_local_cpu s thread;
                    if local then do { s \<leftarrow> sched_nudge_thread e s thread; Some (True, s) }
                    else do { handoff \<leftarrow> thread_in_handoff s thread;
                              if handoff then do { s \<leftarrow> sched_nudge_thread e s thread; Some (True, s) }
                              else do { s \<leftarrow> enqueue_ipi e (thread_set_state t THREAD_READY (thread_unclaim t s)) thread send_ipi;
                                        Some (True, s) } } })"


section \<open>Handing a thread over\<close>

text \<open>The state a thread that leaves its core is queued in, or None when it is not to be queued.\<close>

definition handoff_state :: "sched_state \<Rightarrow> tid \<Rightarrow> sched_state" where
  "handoff_state s t =
     (let s = thread_unclaim t s in
      if thread_get_state s (Some t) = THREAD_RUNNING then thread_set_state t THREAD_READY s
      else let asleep = (thread_get_state s (Some t) = THREAD_SLEEPING);
               detached = (\<not> th_in_wait_queue (threads s t) \<and> \<not> th_sleep_queued (threads s t)) in
        if asleep \<and> detached then thread_set_state t THREAD_READY s else s)"

definition sched_publish_handoff :: "sched_env \<Rightarrow> sched_state \<Rightarrow> tid ptr \<Rightarrow> size_t \<Rightarrow> sched_state exec" where
  "sched_publish_handoff e s thread owner_cpu =
     (case thread of
        None \<Rightarrow> Some s
      | Some t \<Rightarrow>
          if MAX_CORES \<le> owner_cpu then Some s
          else if owner_cpu \<noteq> env_cpu_id e then None
          else let s = handoff_state s t; state = thread_get_state s thread in
            if state = THREAD_ZOMBIE \<or> state = THREAD_STOPPED then Some s
            else if th_context (threads s t) = 0 \<or> th_on_rq (threads s t) then Some s
            else if state = THREAD_SLEEPING \<and> (th_in_wait_queue (threads s t) \<or> th_sleep_queued (threads s t)) then Some s
            else let s = (if state \<noteq> THREAD_READY then thread_set_state t THREAD_READY s else s) in
              if thread_get_state s thread \<noteq> THREAD_READY then Some s
              else do { allowed \<leftarrow> sched_cpu_allowed e s thread owner_cpu;
                        target_cpu \<leftarrow> (if \<not> allowed then pick_cpu e s thread owner_cpu else Some owner_cpu);
                        s \<leftarrow> rq_enqueue_cpu e s thread target_cpu;
                        if target_cpu \<noteq> owner_cpu then wake_counted e s target_cpu else Some s })"

definition sched_flush_handoff :: "sched_env \<Rightarrow> sched_state \<Rightarrow> size_t \<Rightarrow> sched_state exec" where
  "sched_flush_handoff e s cpu_id =
     (if MAX_CORES \<le> cpu_id then Some s
      else do { cpu \<leftarrow> load (cpus s) cpu_id;
                case cpu_handoff_ready cpu of
                  None \<Rightarrow> Some s
                | Some pending \<Rightarrow>
                    do { s \<leftarrow> upd_cpu cpu_id (\<lambda>c. c\<lparr>cpu_handoff_ready := None\<rparr>) s;
                         sched_publish_handoff e s (Some pending) cpu_id } })"


section \<open>What waking leaves alone\<close>

text \<open>Only flags of the cores and counters change: the threads, the queues and who runs where stay.\<close>

definition core_same :: "sched_cpu \<Rightarrow> sched_cpu \<Rightarrow> bool" where
  "core_same c c' \<longleftrightarrow> cpu_current c' = cpu_current c \<and> cpu_idle_thread c' = cpu_idle_thread c \<and> cpu_handoff_ready c' = cpu_handoff_ready c"

definition core_frame :: "sched_state \<Rightarrow> sched_state \<Rightarrow> bool" where
  "core_frame s s' \<longleftrightarrow> runqueues s' = runqueues s \<and> threads s' = threads s \<and> sleep s' = sleep s \<and> all_list s' = all_list s \<and>
     wake_rr_cursor s' = wake_rr_cursor s \<and> running s' = running s \<and> list_all2 core_same (cpus s) (cpus s')"

lemma core_same_refl: "list_all2 core_same cs cs"
  by (rule list_all2_refl) (simp add: core_same_def)

lemma core_frame_refl: "core_frame s s"
  by (simp add: core_frame_def core_same_refl)

lemma core_frame_trans:
  assumes "core_frame s1 s2" "core_frame s2 s3"
  shows "core_frame s1 s3"
proof -
  have "list_all2 core_same (cpus s1) (cpus s3)"
    by (rule list_all2_trans [of core_same core_same core_same]) (use assms in \<open>auto simp: core_same_def core_frame_def\<close>)
  then show ?thesis using assms by (simp add: core_frame_def)
qed

lemma core_frame_metrics: "core_frame s (upd_metrics f s)"
  by (simp add: core_frame_def upd_metrics_def core_same_refl)

lemma upd_cpu_frame:
  assumes "c < length (cpus s)" "\<And>x. core_same x (f x)"
  obtains s' where "upd_cpu c f s = Some s'" "core_frame s s'"
proof -
  have "core_same (cpus s ! i) ((cpus s)[c := f (cpus s ! c)] ! i)" if "i < length (cpus s)" for i
    using assms that by (cases "i = c") (simp_all add: core_same_def)
  then have "list_all2 core_same (cpus s) ((cpus s)[c := f (cpus s ! c)])" by (simp add: list_all2_conv_all_nth)
  then have "core_frame s (s\<lparr>cpus := (cpus s)[c := f (cpus s ! c)]\<rparr>)" by (simp add: core_frame_def)
  then show thesis using that assms(1) by (simp add: upd_cpu_def load_ok store_ok)
qed

lemma core_frame_cores: "core_frame s s' \<Longrightarrow> cores_ok s' = cores_ok s"
  by (auto simp: core_frame_def cores_ok_def dest: list_all2_lengthD)

lemma core_frame_queued: "core_frame s s' \<Longrightarrow> queued s' = queued s"
  by (simp add: core_frame_def queued_def fun_eq_iff)

lemma core_frame_ok: "core_frame s s' \<Longrightarrow> sched_ok s \<Longrightarrow> sched_ok s'"
  using core_frame_cores [of s s'] core_frame_queued [of s s'] by (simp add: sched_ok_def core_frame_def)

lemma core_frame_load:
  assumes "core_frame s s'" "cores_ok s"
  shows "core_load s' c = core_load s c"
proof (cases "c < MAX_CORES")
  case True
  then have "c < length (cpus s)" "c < length (cpus s')" "c < length (runqueues s)" using assms core_frame_cores [OF assms(1)] by (simp_all add: cores_ok_def)
  moreover have "core_same (cpus s ! c) (cpus s' ! c)" using assms(1) calculation(1) by (simp add: core_frame_def list_all2_nthD)
  ultimately show ?thesis using assms(1) by (simp add: core_load_def sched_cpu_load_def load_ok core_same_def core_frame_def)
qed (simp add: core_load_def sched_cpu_load_def)

lemma mark_resched_total:
  assumes "cores_ok s"
  obtains b s' where "sched_mark_resched_cpu c s = Some (b, s')" "core_frame s s'"
proof (cases "c < MAX_CORES")
  case True
  then have c: "c < length (cpus s)" using assms by (simp add: cores_ok_def)
  obtain s' where "upd_cpu c (\<lambda>c. c\<lparr>cpu_need_resched := True\<rparr>) s = Some s'" "core_frame s s'"
    by (rule upd_cpu_frame [OF c, of "\<lambda>c. c\<lparr>cpu_need_resched := True\<rparr>"]) (simp_all add: core_same_def)
  then show thesis using that True c by (simp add: sched_mark_resched_cpu_def load_ok)
next
  case False
  then show thesis using that core_frame_refl by (simp add: sched_mark_resched_cpu_def)
qed

lemma set_resched_total:
  assumes "cores_ok s"
  obtains s' where "sched_set_resched_cpu c b s = Some s'" "core_frame s s'"
proof (cases "c < MAX_CORES")
  case True
  then have c: "c < length (cpus s)" using assms by (simp add: cores_ok_def)
  obtain s' where "upd_cpu c (\<lambda>c. c\<lparr>cpu_need_resched := b\<rparr>) s = Some s'" "core_frame s s'"
    by (rule upd_cpu_frame [OF c, of "\<lambda>c. c\<lparr>cpu_need_resched := b\<rparr>"]) (simp_all add: core_same_def)
  then show thesis using that True by (simp add: sched_set_resched_cpu_def)
next
  case False
  then show thesis using that core_frame_refl by (simp add: sched_set_resched_cpu_def)
qed

lemma wake_cpu_total:
  assumes "cores_ok s"
  obtains b s' where "wake_cpu e s c = Some (b, s')" "core_frame s s'"
proof (cases "c < MAX_CORES")
  case True
  obtain b s' where m: "sched_mark_resched_cpu c s = Some (b, s')" "core_frame s s'" by (rule mark_resched_total [OF assms])
  have "c < length (cpus s')" using core_frame_cores [OF m(2)] assms True by (simp add: cores_ok_def)
  then have "cpu_needs_ipi s' c \<noteq> None" using True by (auto simp: cpu_needs_ipi_def load_ok)
  then have "\<exists>b'. wake_cpu e s c = Some (b', s')" using True m(1) by (auto simp: wake_cpu_def)
  then show thesis using that m(2) by blast
next
  case False
  then show thesis using that core_frame_refl by (simp add: wake_cpu_def)
qed

lemma wake_counted_total:
  assumes "cores_ok s"
  obtains s' where "wake_counted e s c = Some s'" "core_frame s s'"
proof -
  obtain b s1 where w: "wake_cpu e s c = Some (b, s1)" "core_frame s s1" by (rule wake_cpu_total [OF assms])
  moreover have "core_frame s (note_wake_ipi s1)" unfolding note_wake_ipi_def by (rule core_frame_trans [OF w(2) core_frame_metrics])
  ultimately show thesis using that by (simp add: wake_counted_def)
qed

lemma resched_local_total:
  assumes "cores_ok s" "env_ok e"
  obtains s' where "sched_resched_local e s = Some s'" "core_frame s s'"
proof (cases "running s")
  case True
  let ?c = "env_cpu_id e"
  have c: "?c < length (cpus s)" using assms by (simp add: cores_ok_def env_ok_def)
  obtain s1 where s1: "upd_cpu ?c (\<lambda>c. c\<lparr>cpu_need_resched := True\<rparr>) s = Some s1" "core_frame s s1"
    by (rule upd_cpu_frame [OF c, of "\<lambda>c. c\<lparr>cpu_need_resched := True\<rparr>"]) (simp_all add: core_same_def)
  have c1: "?c < length (cpus s1)" using core_frame_cores [OF s1(2)] assms by (simp add: cores_ok_def env_ok_def)
  obtain s2 where s2: "upd_cpu ?c (\<lambda>c. c\<lparr>cpu_resched_irq := True\<rparr>) s1 = Some s2" "core_frame s1 s2"
    by (rule upd_cpu_frame [OF c1, of "\<lambda>c. c\<lparr>cpu_resched_irq := True\<rparr>"]) (simp_all add: core_same_def)
  have "sched_resched_local e s = Some s1 \<or> sched_resched_local e s = Some s2"
    using True s1(1) s2(1) c1
    by (simp add: sched_resched_local_def sched_running_get_def sched_preempt_off_def load_ok sched_local_current_def sched_local_idle_def Let_def)
  then show thesis using that s1(2) core_frame_trans [OF s1(2) s2(2)] by blast
next
  case False
  then show thesis using that core_frame_refl by (simp add: sched_resched_local_def sched_running_get_def)
qed


section \<open>Queueing from outside\<close>

text \<open>One thread is handled; nothing else changes but positions, flags of the cores and counters.\<close>

definition handled :: "tid \<Rightarrow> sched_state \<Rightarrow> sched_state \<Rightarrow> bool" where
  "handled t s s' \<longleftrightarrow> sched_ok s' \<and> (\<forall>c < MAX_CORES. rq_capacity (runqueues s' ! c) = rq_capacity (runqueues s ! c)) \<and> (\<forall>u. u \<noteq> t \<longrightarrow> (\<exists>i. threads s' u = set_rq_index i (threads s u))) \<and>
     rq_erase (threads s' t) = rq_erase (threads s t) \<and> (\<forall>c. queued s' c - {t} = queued s c - {t}) \<and>
     (\<forall>c < MAX_CORES. rq_min_vruntime (runqueues s ! c) \<le> rq_min_vruntime (runqueues s' ! c)) \<and>
     list_all2 core_same (cpus s) (cpus s') \<and> sleep s' = sleep s \<and> all_list s' = all_list s \<and> running s' = running s"

lemma rq_handled_cores: "rq_handled t s s' \<Longrightarrow> handled t s s'"
  by (simp add: rq_handled_def rq_change_def handled_def core_same_refl)

lemma core_frame_handled: "core_frame s s' \<Longrightarrow> sched_ok s \<Longrightarrow> handled t s s'"
  using core_frame_ok [of s s'] core_frame_queued [of s s'] by (simp add: handled_def core_frame_def)

lemma handled_refl: "sched_ok s \<Longrightarrow> handled t s s"
  by (simp add: core_frame_handled core_frame_refl)

lemma handledD:
  assumes "handled t s s'"
  shows "sched_ok s'" "u \<noteq> t \<Longrightarrow> \<exists>i. threads s' u = set_rq_index i (threads s u)" "rq_erase (threads s' t) = rq_erase (threads s t)"
    "queued s' c - {t} = queued s c - {t}" "c < MAX_CORES \<Longrightarrow> rq_min_vruntime (runqueues s ! c) \<le> rq_min_vruntime (runqueues s' ! c)"
    "list_all2 core_same (cpus s) (cpus s')" "sleep s' = sleep s" "all_list s' = all_list s" "running s' = running s"
    "c < MAX_CORES \<Longrightarrow> rq_capacity (runqueues s' ! c) = rq_capacity (runqueues s ! c)"
proof -
  note h = assms [unfolded handled_def]
  from h show "sched_ok s'" "rq_erase (threads s' t) = rq_erase (threads s t)" "list_all2 core_same (cpus s) (cpus s')" "sleep s' = sleep s"
    "all_list s' = all_list s" "running s' = running s" by - (elim conjE, assumption)+
  from h show "queued s' c - {t} = queued s c - {t}" by (elim conjE allE)
  from h show "u \<noteq> t \<Longrightarrow> \<exists>i. threads s' u = set_rq_index i (threads s u)" "c < MAX_CORES \<Longrightarrow> rq_capacity (runqueues s' ! c) = rq_capacity (runqueues s ! c)"
    "c < MAX_CORES \<Longrightarrow> rq_min_vruntime (runqueues s ! c) \<le> rq_min_vruntime (runqueues s' ! c)" by blast+
qed

lemma handled_trans:
  assumes "handled t s1 s2" "handled t s2 s3"
  shows "handled t s1 s3"
  unfolding handled_def
proof (intro conjI allI impI)
  note d1 = handledD [OF assms(1)] and d2 = handledD [OF assms(2)]
  show "sched_ok s3" by (rule d2(1))
  show "rq_erase (threads s3 t) = rq_erase (threads s1 t)" "sleep s3 = sleep s1" "all_list s3 = all_list s1" "running s3 = running s1"
    using d1(3,7-9) d2(3,7-9) by simp_all
  show "queued s3 c - {t} = queued s1 c - {t}" for c using d1(4) d2(4) by simp
  show "rq_min_vruntime (runqueues s1 ! c) \<le> rq_min_vruntime (runqueues s3 ! c)" if "c < MAX_CORES" for c
    using d1(5) [OF that] d2(5) [OF that] by (rule order_trans)
  show "rq_capacity (runqueues s3 ! c) = rq_capacity (runqueues s1 ! c)" if "c < MAX_CORES" for c
    using d1(10) [OF that] d2(10) [OF that] by simp
  show "list_all2 core_same (cpus s1) (cpus s3)"
    by (rule list_all2_trans [OF _ d1(6) d2(6)]) (simp add: core_same_def)
  show "\<exists>i. threads s3 u = set_rq_index i (threads s1 u)" if u: "u \<noteq> t" for u
  proof -
    obtain i where "threads s2 u = set_rq_index i (threads s1 u)" using d1(2) [OF u] by blast
    moreover obtain j where "threads s3 u = set_rq_index j (threads s2 u)" using d2(2) [OF u] by blast
    ultimately show ?thesis by auto
  qed
qed

lemma handled_ok: "handled t s s' \<Longrightarrow> sched_ok s'"
  by (simp add: handled_def)

lemma enqueue_cpu_handled:
  assumes "env_ok e" "sched_ok s"
  shows "\<exists>s'. rq_enqueue_cpu e s (Some t) c = Some s' \<and> handled t s s'"
proof -
  obtain s' where "rq_enqueue_cpu e s (Some t) c = Some s'" "rq_handled t s s'" using rq_enqueue_cpu_handled [OF assms] by blast
  then show ?thesis using rq_handled_cores by blast
qed

lemma remove_thread_handled:
  assumes "sched_ok s"
  shows "\<exists>b s'. rq_remove_thread s (Some t) = Some (b, s') \<and> handled t s s' \<and> \<not> th_on_rq (threads s' t)"
proof (cases "th_on_rq (threads s t)")
  case True
  then obtain s' where s': "rq_remove_thread s (Some t) = Some (True, s')" "rq_taken (th_last_cpu (threads s t)) t s s'"
    using rq_remove_thread_taken [OF assms] by blast
  have "handled t s s'" by (rule rq_handled_cores [OF rq_taken_handled [OF s'(2)]])
  then show ?thesis using s' by (intro exI [of _ True] exI [of _ s']) (simp add: rq_taken_def clear_rq_def)
next
  case False
  then show ?thesis using handled_refl [OF assms] rq_remove_thread_not_queued [of s t] by (intro exI [of _ False] exI [of _ s]) simp
qed

lemma cursor_frame: "core_frame s s' \<Longrightarrow> sched_ok s \<Longrightarrow> handled t s (s'\<lparr>wake_rr_cursor := r\<rparr>)"
  using core_frame_handled [of s s' t] by (simp add: handled_def sched_ok_def cores_ok_def queued_def [abs_def])

text \<open>The last part of \<open>enqueue_ipi\<close>: tell the target core.\<close>

lemma notify_core_total:
  assumes "env_ok e" "cores_ok s"
  shows "\<exists>s'. notify_core e s k b = Some s' \<and> core_frame s s'"
proof (cases "k = env_cpu_id e")
  case True
  obtain s' where "sched_resched_local e s = Some s'" "core_frame s s'" by (rule resched_local_total [OF assms(2,1)])
  then show ?thesis using True by (simp add: notify_core_def)
next
  case False
  obtain sent s1 where w: "(if b then wake_cpu e s k else Some (False, s)) = Some (sent, s1)" "core_frame s s1"
  proof (cases b)
    case True
    obtain sent s1 where "wake_cpu e s k = Some (sent, s1)" "core_frame s s1" by (rule wake_cpu_total [OF assms(2)])
    then show thesis using that True by simp
  qed (use that core_frame_refl in simp)
  have c1: "cores_ok s1" using core_frame_cores [OF w(2)] assms(2) by simp
  obtain s2 where s2: "sched_set_resched_cpu k True s1 = Some s2" "core_frame s1 s2" by (rule set_resched_total [OF c1])
  have "core_frame s (note_wake_ipi s1)" unfolding note_wake_ipi_def by (rule core_frame_trans [OF w(2) core_frame_metrics])
  then show ?thesis using False w s2(1) core_frame_trans [OF w(2) s2(2)] by (cases sent) (auto simp: notify_core_def)
qed

lemma handled_same:
  assumes "handled t s s'"
  shows "th_state (threads s' t) = th_state (threads s t)" "th_context (threads s' t) = th_context (threads s t)"
    "th_pid (threads s' t) = th_pid (threads s t)" "th_allowed_cpu_mask (threads s' t) = th_allowed_cpu_mask (threads s t)"
proof -
  note h = handledD(3) [OF assms]
  show "th_state (threads s' t) = th_state (threads s t)" "th_context (threads s' t) = th_context (threads s t)"
    "th_pid (threads s' t) = th_pid (threads s t)" "th_allowed_cpu_mask (threads s' t) = th_allowed_cpu_mask (threads s t)"
    using arg_cong [OF h, of th_state] arg_cong [OF h, of th_context] arg_cong [OF h, of th_pid] arg_cong [OF h, of th_allowed_cpu_mask]
    by (simp_all add: rq_erase_def)
qed

definition can_enqueue :: "sched_env \<Rightarrow> sched_state \<Rightarrow> tid \<Rightarrow> bool" where
  "can_enqueue e s t \<longleftrightarrow> cpu_idle_thread (cpus s ! env_cpu_id e) \<noteq> Some t \<and> th_context (threads s t) \<noteq> 0 \<and>
     th_state (threads s t) = THREAD_READY \<and> th_pid (threads s t) \<noteq> 0"

lemma enqueue_at_handled:
  assumes "env_ok e" "sched_ok s"
  shows "\<exists>s'. enqueue_at e s t k = Some s' \<and> handled t s s'"
proof -
  obtain b s1 where s1: "(if th_on_rq (threads s t) \<and> th_last_cpu (threads s t) \<noteq> k then rq_remove_thread s (Some t) else Some (False, s)) = Some (b, s1)"
    "handled t s s1" using remove_thread_handled [OF assms(2), of t] handled_refl [OF assms(2), of t] by (metis (no_types, lifting))
  obtain s2 where "rq_enqueue_cpu e s1 (Some t) k = Some s2" "handled t s1 s2" using enqueue_cpu_handled [OF assms(1) handled_ok [OF s1(2)]] by blast
  then show ?thesis using s1(1) handled_trans [OF s1(2)] by (auto simp: enqueue_at_def)
qed

lemma enqueue_ipi_eq:
  assumes e: "env_ok e" and ok: "sched_ok s"
  obtains "\<not> can_enqueue e s t" "enqueue_ipi e s (Some t) b = Some s"
  | k r s1 s' where "can_enqueue e s t" "pick_target_cpu e s (Some t) = Some (k, s\<lparr>wake_rr_cursor := r\<rparr>)"
      "enqueue_at e (s\<lparr>wake_rr_cursor := r\<rparr>) t k = Some s1" "enqueue_ipi e s (Some t) b = Some s'" "core_frame s1 s'" "sched_ok s1"
proof -
  have l: "load (cpus s) (env_cpu_id e) = Some (cpus s ! env_cpu_id e)" using sched_okD(2) [OF ok] e by (simp add: env_ok_def load_ok)
  show thesis
  proof (cases "can_enqueue e s t")
    case False
    then have "enqueue_ipi e s (Some t) b = Some s"
      using l by (auto simp: enqueue_ipi_def sched_local_idle_def can_enqueue_def thread_get_state_def)
    then show thesis using that(1) False by blast
  next
    case True
    obtain k r where p: "pick_target_cpu e s (Some t) = Some (k, s\<lparr>wake_rr_cursor := r\<rparr>)"
      using pick_target_cpu_total [OF e sched_okD(3) [OF ok]] by blast
    let ?s = "s\<lparr>wake_rr_cursor := r\<rparr>" let ?prev = "th_last_cpu (threads s t)"
    have oks: "sched_ok ?s" using handled_ok [OF cursor_frame [OF core_frame_refl ok]] by simp
    obtain s1 where s1: "enqueue_at e ?s t k = Some s1" "handled t ?s s1" using enqueue_at_handled [OF e oks] by blast
    let ?m = "if ?prev \<noteq> k then note_migration s1 else s1"
    have fm: "core_frame s1 ?m" using core_frame_metrics core_frame_refl by (simp add: note_migration_def)
    have "cores_ok ?m" using core_frame_cores [OF fm] sched_okD(3) [OF handled_ok [OF s1(2)]] by simp
    then obtain s' where s': "notify_core e ?m k b = Some s'" "core_frame ?m s'" using notify_core_total [OF e] by blast
    have "enqueue_ipi e s (Some t) b = Some s'"
      using True l p s1(1) s' by (auto simp: enqueue_ipi_def sched_local_idle_def can_enqueue_def thread_get_state_def)
    then show thesis using that(2) True p s1 core_frame_trans [OF fm s'(2)] handled_ok by blast
  qed
qed

lemma enqueue_ipi_handled:
  assumes e: "env_ok e" and ok: "sched_ok s"
  shows "\<exists>s'. enqueue_ipi e s (Some t) b = Some s' \<and> handled t s s'"
proof (rule enqueue_ipi_eq [OF e ok, of t b])
  assume "enqueue_ipi e s (Some t) b = Some s"
  then show ?thesis using handled_refl [OF ok] by simp
next
  fix k r s1 s'
  assume a: "enqueue_at e (s\<lparr>wake_rr_cursor := r\<rparr>) t k = Some s1" "enqueue_ipi e s (Some t) b = Some s'" "core_frame s1 s'" "sched_ok s1"
  have h: "handled t s (s\<lparr>wake_rr_cursor := r\<rparr>)" using cursor_frame [OF core_frame_refl ok] by simp
  have "handled t (s\<lparr>wake_rr_cursor := r\<rparr>) s1" using enqueue_at_handled [OF e handled_ok [OF h], of t k] a(1) by auto
  then show ?thesis using a(2) handled_trans [OF h] handled_trans core_frame_handled [OF a(3,4)] by blast
qed

text \<open>When the thread is free and a core can take it, it ends up in the queue of the chosen core.\<close>

definition queue_room :: "sched_state \<Rightarrow> size_t \<Rightarrow> bool" where
  "queue_room s c \<longleftrightarrow> rq_nr_running (runqueues s ! c) < rq_capacity (runqueues s ! c)"

lemma enqueue_at_placed:
  assumes e: "env_ok e" and ok: "sched_ok s" and k: "fit_core e s t k" "k \<in> candidates e s t" "queue_room s k"
    and t: "rq_runnable (threads s) (Some t)" "th_running_cpu (threads s t) < 0"
  shows "\<exists>s'. enqueue_at e s t k = Some s' \<and> t \<in> queued s' k \<and> handled t s s'"
proof -
  have km: "k < MAX_CORES" using k(1) by (simp add: fit_core_def)
  obtain s' where s': "enqueue_at e s t k = Some s'" "handled t s s'" using enqueue_at_handled [OF e ok] by blast
  show ?thesis
  proof (cases "th_on_rq (threads s t) \<and> th_last_cpu (threads s t) = k")
    case True
    obtain r where r: "enqueue_target e s t k = Some r" "r = Some k" using enqueue_target_spec [OF e sched_okD(3) [OF ok] km, of t] k(1) by metis
    have "rq_enqueue_cpu e s (Some t) k = rq_enqueue_locked s t k"
      using km r t True by (simp add: rq_enqueue_cpu_def thread_cpu_def)
    also have "\<dots> = Some s" using rq_enqueue_locked_eq [OF ok km, of t] True by simp
    finally have "s' = s" using s'(1) True by (simp add: enqueue_at_def)
    then show ?thesis using s' queued_iff [OF ok km, of t] True by auto
  next
    case False
    obtain b s1 where s1: "(if th_on_rq (threads s t) \<and> th_last_cpu (threads s t) \<noteq> k then rq_remove_thread s (Some t) else Some (False, s)) = Some (b, s1)"
      "handled t s s1" "\<not> th_on_rq (threads s1 t)" "runqueues s1 ! k = runqueues s ! k" "th_running_cpu (threads s1 t) = th_running_cpu (threads s t)"
    proof (cases "th_on_rq (threads s t)")
      case True
      obtain s1 where r: "rq_remove_thread s (Some t) = Some (True, s1)" "rq_taken (th_last_cpu (threads s t)) t s s1"
        using rq_remove_thread_taken [OF ok True] by blast
      then show thesis using that [of True s1] True False rq_handled_cores [OF rq_taken_handled [OF r(2)]] by (simp add: rq_taken_def clear_rq_def)
    next
      case False
      then show thesis using that handled_refl [OF ok] by simp
    qed
    have ok1: "sched_ok s1" by (rule handled_ok [OF s1(2)])
    note same = handled_same [OF s1(2)]
    have f1: "fit_core e s1 t k" "candidates e s1 t \<noteq> {}" "rq_runnable (threads s1) (Some t)"
      using k(1,2) t(1) same by (auto simp: fit_core_def cpu_allowed_def candidates_def rq_runnable_def split: if_splits)
    obtain j where "fit_core e s1 t k \<Longrightarrow> j = k" "rq_enqueue_cpu e s1 (Some t) k = rq_enqueue_new s1 t j"
      using rq_enqueue_cpu_placed [OF e ok1 km f1(2,3) s1(3)] t(2) s1(5) by metis
    then have "rq_enqueue_cpu e s1 (Some t) k = rq_enqueue_new s1 t k" using f1(1) by simp
    moreover obtain s2 where "rq_enqueue_new s1 t k = Some s2" "rq_added k t s1 s2"
      using rq_enqueue_new_added [OF ok1 km s1(3)] k(3) s1(4) by (auto simp: queue_room_def)
    ultimately have "s' = s2" "t \<in> queued s2 k" using s'(1) s1(1) by (simp_all add: enqueue_at_def rq_added_def)
    then show ?thesis using s' by blast
  qed
qed

lemma enqueue_ipi_placed:
  assumes e: "env_ok e" and ok: "sched_ok s" and c: "candidates e s t \<noteq> {}" and room: "\<And>k. k \<in> candidates e s t \<Longrightarrow> queue_room s k"
    and t: "can_enqueue e s t" "th_running_cpu (threads s t) < 0"
  shows "\<exists>k s'. enqueue_ipi e s (Some t) b = Some s' \<and> k \<in> candidates e s t \<and> t \<in> queued s' k \<and> handled t s s' \<and>
    (\<forall>c \<in> candidates e s t. core_load s k \<le> core_load s c + SCHED_WAKE_LOAD_SLOP)"
proof (rule enqueue_ipi_eq [OF e ok, of t b])
  assume "\<not> can_enqueue e s t"
  then show ?thesis using t(1) by simp
next
  fix k r s1 s'
  assume a: "pick_target_cpu e s (Some t) = Some (k, s\<lparr>wake_rr_cursor := r\<rparr>)" "enqueue_at e (s\<lparr>wake_rr_cursor := r\<rparr>) t k = Some s1"
    "enqueue_ipi e s (Some t) b = Some s'" "core_frame s1 s'" "sched_ok s1"
  have k: "k \<in> candidates e s t" "\<forall>c \<in> candidates e s t. core_load s k \<le> core_load s c + SCHED_WAKE_LOAD_SLOP"
    using pick_target_cpu_spec [OF e sched_okD(3) [OF ok] c] a(1) by auto
  let ?s = "s\<lparr>wake_rr_cursor := r\<rparr>"
  have h: "handled t s ?s" using cursor_frame [OF core_frame_refl ok] by simp
  have f: "fit_core e ?s t k" "k \<in> candidates e ?s t" "queue_room ?s k"
    using candidates_fit [OF e k(1)] k(1) room [OF k(1)] by (simp_all add: fit_core_def candidates_def queue_room_def)
  have "rq_runnable (threads ?s) (Some t)" "th_running_cpu (threads ?s t) < 0" using t by (simp_all add: can_enqueue_def rq_runnable_def)
  from enqueue_at_placed [OF e handled_ok [OF h] f this] a(2) have p: "t \<in> queued s1 k" "handled t ?s s1" by auto
  have "t \<in> queued s' k" using p(1) core_frame_queued [OF a(4)] by simp
  moreover have "handled t s s'" using handled_trans [OF handled_trans [OF h p(2)] core_frame_handled [OF a(4,5)]] .
  ultimately show ?thesis using a(3) k by blast
qed


section \<open>Nudging, repairing and handing over\<close>

lemma set_state_ok: "sched_ok s \<Longrightarrow> sched_ok (thread_set_state t st s)"
  unfolding thread_set_state_def by (rule sched_ok_upd_thread) (simp_all add: rq_view_def rq_key_def)

lemma set_cpu_ok: "sched_ok s \<Longrightarrow> sched_ok (thread_set_cpu t c s)"
  unfolding thread_set_cpu_def by (rule sched_ok_upd_thread) (simp_all add: rq_view_def rq_key_def)

lemma set_state_simps [simp]:
  "threads (thread_set_state t st s) = (threads s)(t := (threads s t)\<lparr>th_state := st\<rparr>)" "threads (thread_set_cpu t c s) = (threads s)(t := (threads s t)\<lparr>th_running_cpu := c\<rparr>)"
  "runqueues (thread_set_state t st s) = runqueues s" "runqueues (thread_set_cpu t c s) = runqueues s"
  "cpus (thread_set_state t st s) = cpus s" "cpus (thread_set_cpu t c s) = cpus s"
  "queued (thread_set_state t st s) = queued s" "queued (thread_set_cpu t c s) = queued s"
  by (simp_all add: thread_set_state_def thread_set_cpu_def)

lemma nudge_total:
  assumes e: "env_ok e" and c: "cores_ok s"
  shows "\<exists>s' st. sched_nudge_thread e s (Some t) = Some s' \<and> core_frame (thread_set_state t st s) s' \<and> st \<in> {th_state (threads s t), THREAD_RUNNING}"
proof -
  have same: "thread_set_state t (th_state (threads s t)) s = s" by (simp add: thread_set_state_def upd_thread_def)
  have l: "thread_on_local_cpu s (Some t) \<noteq> None" "thread_in_handoff s (Some t) \<noteq> None"
    using c by (auto simp: thread_on_local_cpu_def thread_in_handoff_def Let_def cores_ok_def load_ok intro: exI [of _ False])
  then obtain lc ho where lh: "thread_on_local_cpu s (Some t) = Some lc" "thread_in_handoff s (Some t) = Some ho" by auto
  let ?st = "if lc \<and> th_state (threads s t) = THREAD_SLEEPING then THREAD_RUNNING else th_state (threads s t)"
  define s0 where "s0 = thread_set_state t ?st s"
  have cs: "cores_ok s0" using c by (simp add: cores_ok_def s0_def)
  obtain s1 where s1: "sched_resched_local e s0 = Some s1" "core_frame s0 s1" by (rule resched_local_total [OF cs e])
  obtain s2 where s2: "wake_counted e s0 (nat (th_running_cpu (threads s t))) = Some s2" "core_frame s0 s2" by (rule wake_counted_total [OF cs])
  have st: "(if lc \<and> thread_get_state s (Some t) = THREAD_SLEEPING then thread_set_state t THREAD_RUNNING s else s) = s0"
    using same by (simp add: thread_get_state_def s0_def)
  have "sched_nudge_thread e s (Some t) = Some s \<or> sched_nudge_thread e s (Some t) = Some s1 \<or> sched_nudge_thread e s (Some t) = Some s2"
    unfolding sched_nudge_thread_def Let_def option.case lh Option.bind.simps st using s1(1) s2(1) by (simp add: thread_cpu_def)
  then consider "sched_nudge_thread e s (Some t) = Some s" | s' where "sched_nudge_thread e s (Some t) = Some s'" "core_frame s0 s'"
    using s1(2) s2(2) by blast
  then show ?thesis
  proof cases
    case 1
    then show ?thesis using core_frame_refl [of s] same by (intro exI [of _ s] exI [of _ "th_state (threads s t)"]) simp
  next
    case 2
    then show ?thesis unfolding s0_def by (intro exI [of _ s'] exI [of _ ?st]) simp
  qed
qed

lemma nudge_ok:
  assumes "env_ok e" "sched_ok s"
  shows "\<exists>s'. sched_nudge_thread e s (Some t) = Some s' \<and> sched_ok s' \<and> queued s' = queued s"
proof -
  obtain s' st where s': "sched_nudge_thread e s (Some t) = Some s'" "core_frame (thread_set_state t st s) s'"
    using nudge_total [OF assms(1) sched_okD(3) [OF assms(2)]] by blast
  have "queued s' = queued s" using core_frame_queued [OF s'(2)] by simp
  then show ?thesis using s'(1) core_frame_ok [OF s'(2) set_state_ok [OF assms(2)]] by blast
qed

lemma repair_ok:
  assumes e: "env_ok e" and ok: "sched_ok s"
  shows "\<exists>b s'. sched_repair_thread e s (Some t) i = Some (b, s') \<and> sched_ok s'"
proof -
  have l: "thread_on_local_cpu s (Some t) \<noteq> None" "thread_in_handoff s (Some t) \<noteq> None"
    using sched_okD(2) [OF ok] by (auto simp: thread_on_local_cpu_def thread_in_handoff_def Let_def load_ok intro: exI [of _ False])
  let ?s = "thread_set_state t THREAD_READY (thread_unclaim t s)"
  have "sched_ok ?s" unfolding thread_unclaim_def by (intro set_state_ok set_cpu_ok ok)
  then obtain s1 where s1: "enqueue_ipi e ?s (Some t) i = Some s1" "sched_ok s1" using enqueue_ipi_handled [OF e] handled_ok by blast
  obtain s2 where s2: "sched_nudge_thread e s (Some t) = Some s2" "sched_ok s2" using nudge_ok [OF e ok] by blast
  obtain lc ho where "thread_on_local_cpu s (Some t) = Some lc" "thread_in_handoff s (Some t) = Some ho" using l by auto
  then have "sched_repair_thread e s (Some t) i \<in> {Some (False, s), Some (True, s1), Some (True, s2)}"
    using s1(1) s2(1) by (simp add: sched_repair_thread_def)
  then show ?thesis using ok s1(2) s2(2) by blast
qed

definition handoff_ready :: "sched_thread \<Rightarrow> bool" where
  "handoff_ready x \<longleftrightarrow> th_state x = THREAD_RUNNING \<or> th_state x = THREAD_READY \<or>
     th_state x = THREAD_SLEEPING \<and> \<not> th_in_wait_queue x \<and> \<not> th_sleep_queued x"

lemma handoff_state_eq:
  "handoff_state s t = upd_thread t (\<lambda>x. x\<lparr>th_running_cpu := -1, th_state := if handoff_ready x then THREAD_READY else th_state x\<rparr>) s"
proof -
  have k: "(threads s t)\<lparr>th_running_cpu := -1, th_state := st\<rparr> = (threads s t)\<lparr>th_running_cpu := -1\<rparr>" if "th_state (threads s t) = st" for st
    using that by (cases "threads s t") simp
  show ?thesis
    by (cases "th_state (threads s t)")
      (auto simp: k handoff_state_def handoff_ready_def Let_def thread_unclaim_def thread_set_cpu_def thread_set_state_def thread_get_state_def upd_thread_def)
qed

lemma handoff_state_ok: "sched_ok s \<Longrightarrow> sched_ok (handoff_state s t)"
  unfolding handoff_state_eq by (rule sched_ok_upd_thread) (simp_all add: rq_view_def rq_key_def)

lemma publish_handoff_kept:
  assumes "c = env_cpu_id e" "c < MAX_CORES" "\<not> handoff_ready (threads s t)"
  shows "sched_publish_handoff e s (Some t) c = Some (handoff_state s t)"
proof -
  have "th_state (threads s t) = THREAD_ZOMBIE \<or> th_state (threads s t) = THREAD_STOPPED \<or>
      th_state (threads s t) = THREAD_SLEEPING \<and> (th_in_wait_queue (threads s t) \<or> th_sleep_queued (threads s t))"
    using assms(3) by (cases "th_state (threads s t)") (simp_all add: handoff_ready_def)
  then show ?thesis using assms by (auto simp: sched_publish_handoff_def Let_def handoff_state_eq thread_get_state_def)
qed

lemma publish_handoff_enqueue:
  assumes e: "env_ok e" and ok: "sched_ok s" and c: "c = env_cpu_id e" and t: "handoff_ready (threads s t)" "th_context (threads s t) \<noteq> 0" "\<not> th_on_rq (threads s t)"
  defines "s1 \<equiv> handoff_state s t"
  obtains k where "sched_publish_handoff e s (Some t) c = do { s \<leftarrow> rq_enqueue_cpu e s1 (Some t) k; if k \<noteq> c then wake_counted e s k else Some s }"
    "candidates e s1 t \<noteq> {} \<Longrightarrow> k < MAX_CORES"
proof -
  have cm: "c < MAX_CORES" using e c by (simp add: env_ok_def)
  have ok1: "sched_ok s1" unfolding s1_def by (rule handoff_state_ok [OF ok])
  obtain p where p: "pick_cpu e s1 (Some t) c = Some p" using pick_cpu_total [OF e sched_okD(3) [OF ok1]] by blast
  let ?k = "if cpu_allowed e (threads s1 t) c then c else p"
  have x: "th_state (threads s1 t) = THREAD_READY" "th_context (threads s1 t) \<noteq> 0" "\<not> th_on_rq (threads s1 t)"
    using t by (simp_all add: s1_def handoff_state_eq)
  have "sched_publish_handoff e s (Some t) c = do { s \<leftarrow> rq_enqueue_cpu e s1 (Some t) ?k; if ?k \<noteq> c then wake_counted e s ?k else Some s }"
    using c cm x p unfolding sched_publish_handoff_def option.case Let_def s1_def [symmetric]
    by (simp add: thread_get_state_def sched_cpu_allowed_eq [OF e])
  moreover have "?k < MAX_CORES" if "candidates e s1 t \<noteq> {}"
    using pick_cpu_spec [OF e sched_okD(3) [OF ok1] that, of c] p cm by (auto simp: candidates_def online_core_def)
  ultimately show thesis using that [of ?k] by simp
qed

lemma publish_handoff_ok:
  assumes e: "env_ok e" and ok: "sched_ok s" and c: "c = env_cpu_id e"
  shows "\<exists>s'. sched_publish_handoff e s (Some t) c = Some s' \<and> handled t (handoff_state s t) s'"
proof -
  let ?s = "handoff_state s t"
  have cm: "c < MAX_CORES" using e c by (simp add: env_ok_def)
  have ok1: "sched_ok ?s" by (rule handoff_state_ok [OF ok])
  consider "\<not> handoff_ready (threads s t)" | "handoff_ready (threads s t)" "th_context (threads s t) = 0 \<or> th_on_rq (threads s t)"
    | "handoff_ready (threads s t)" "th_context (threads s t) \<noteq> 0" "\<not> th_on_rq (threads s t)" by blast
  then show ?thesis
  proof cases
    case 1
    then show ?thesis using publish_handoff_kept [OF c cm] handled_refl [OF ok1] by simp
  next
    case 2
    then have "sched_publish_handoff e s (Some t) c = Some ?s"
      using c cm by (auto simp: sched_publish_handoff_def Let_def handoff_state_eq thread_get_state_def)
    then show ?thesis using handled_refl [OF ok1] by simp
  next
    case 3
    obtain k where k: "sched_publish_handoff e s (Some t) c = do { s \<leftarrow> rq_enqueue_cpu e ?s (Some t) k; if k \<noteq> c then wake_counted e s k else Some s }"
      by (rule publish_handoff_enqueue [OF e ok c 3])
    obtain s1 where s1: "rq_enqueue_cpu e ?s (Some t) k = Some s1" "handled t ?s s1" using enqueue_cpu_handled [OF e ok1] by blast
    obtain s2 where s2: "wake_counted e s1 k = Some s2" "core_frame s1 s2" by (rule wake_counted_total [OF sched_okD(3) [OF handled_ok [OF s1(2)]]])
    have "handled t ?s s2" by (rule handled_trans [OF s1(2) core_frame_handled [OF s2(2) handled_ok [OF s1(2)]]])
    then show ?thesis using k s1 s2(1) by simp
  qed
qed


definition handoff_demo :: sched_state where
  "handoff_demo = demo_state\<lparr>threads := (threads demo_state)(0 := (threads demo_state 0)\<lparr>th_state := THREAD_RUNNING, th_running_cpu := 0\<rparr>),
     cpus := (cpus demo_state)[0 := (cpus demo_state ! 0)\<lparr>cpu_handoff_ready := Some 0\<rparr>]\<rparr>"


end
