(* ===== verification/Sched_Balance.thy ===== *)
theory Sched_Balance
  imports Sched_Dispatch
begin

text \<open>
  Moving threads between cores: time slices and load balancing of \<open>kernel/sched/balance.c\<close>, and rescuing
  and stealing of \<open>kernel/sched/pick.c\<close>.
\<close>

section \<open>Time slices\<close>

definition sched_target_slice_ns :: "sched_state \<Rightarrow> size_t \<Rightarrow> u64 exec" where
  "sched_target_slice_ns s cpu_id =
     do { runnable \<leftarrow> sched_cpu_load s cpu_id;
          let runnable = (if runnable = 0 then 1 else runnable);
              slice = SCHED_LATENCY_NS div of_nat runnable in
          Some (if slice < SCHED_MIN_GRANULARITY_NS then SCHED_MIN_GRANULARITY_NS else slice) }"

definition sched_has_better :: "sched_env \<Rightarrow> sched_state \<Rightarrow> tid ptr \<Rightarrow> size_t \<Rightarrow> bool exec" where
  "sched_has_better e s current cpu_id =
     (case current of
        None \<Rightarrow> Some False
      | Some cur \<Rightarrow>
          if MAX_CORES \<le> cpu_id then Some False
          else do { best \<leftarrow> rq_peek_best e s cpu_id;
                    case best of
                      None \<Rightarrow> Some False
                    | Some b \<Rightarrow>
                        let vb = th_vruntime_ns (threads s b); vc = th_vruntime_ns (threads s cur) in
                        if vb < vc then Some True
                        else Some (vb = vc \<and> th_pid (threads s b) < th_pid (threads s cur)) })"


section \<open>Moving threads\<close>

text \<open>A thread that was taken out of a queue is assigned to another core.\<close>

definition assign_core :: "tid \<Rightarrow> size_t \<Rightarrow> sched_state \<Rightarrow> sched_state" where
  "assign_core t c = upd_thread t (\<lambda>x. x\<lparr>th_last_cpu := c, th_affinity_core := c\<rparr>)"

definition migrate_to :: "sched_env \<Rightarrow> sched_state \<Rightarrow> tid \<Rightarrow> size_t \<Rightarrow> sched_state exec" where
  "migrate_to e s t target_cpu =
     do { s \<leftarrow> rq_enqueue_cpu e (assign_core t target_cpu s) (Some t) target_cpu;
          wake_counted e (note_migration s) target_cpu }"

fun push_loop :: "sched_env \<Rightarrow> size_t \<Rightarrow> size_t \<Rightarrow> nat \<Rightarrow> size_t \<Rightarrow> sched_state \<Rightarrow> (size_t \<times> sched_state) exec" where
  "push_loop e source_cpu target_cpu 0 moved s = Some (moved, s)"
| "push_loop e source_cpu target_cpu (Suc n) moved s =
     do { (p, s) \<leftarrow> rq_take_worst e s source_cpu target_cpu;
          case p of
            None \<Rightarrow> Some (moved, s)
          | Some t \<Rightarrow> do { s \<leftarrow> migrate_to e s t target_cpu;
                            push_loop e source_cpu target_cpu n (moved + 1) s } }"

definition sched_push_load :: "sched_env \<Rightarrow> sched_state \<Rightarrow> size_t \<Rightarrow> size_t \<Rightarrow> size_t \<Rightarrow> (size_t \<times> sched_state) exec" where
  "sched_push_load e s source_cpu target_cpu max_moves =
     (if max_moves = 0 \<or> MAX_CORES \<le> source_cpu \<or> MAX_CORES \<le> target_cpu then Some (0, s)
      else if source_cpu = target_cpu then Some (0, s)
      else push_loop e source_cpu target_cpu max_moves 0 s)"

fun stranded_loop :: "sched_env \<Rightarrow> size_t \<Rightarrow> nat \<Rightarrow> sched_state \<Rightarrow> sched_state exec" where
  "stranded_loop e cpu_id 0 s = Some s"
| "stranded_loop e cpu_id (Suc n) s =
     do { (p, s) \<leftarrow> rq_take_unfit e s cpu_id cpu_id;
          case p of
            None \<Rightarrow> Some s
          | Some t \<Rightarrow>
              do { target_cpu \<leftarrow> pick_cpu e s (Some t) cpu_id;
                   if MAX_CORES \<le> target_cpu \<or> target_cpu = cpu_id then rq_enqueue_cpu e s (Some t) cpu_id
                   else do { ok \<leftarrow> sched_cpu_allowed e s (Some t) target_cpu;
                             if \<not> ok then rq_enqueue_cpu e s (Some t) cpu_id
                             else do { s \<leftarrow> migrate_to e s t target_cpu; stranded_loop e cpu_id n s } } } }"

fun idlest_loop :: "sched_env \<Rightarrow> sched_state \<Rightarrow> nat \<Rightarrow> size_t \<Rightarrow> size_t \<Rightarrow> size_t \<Rightarrow> (size_t \<times> size_t) exec" where
  "idlest_loop e s 0 cpu idlest idlest_load = Some (idlest, idlest_load)"
| "idlest_loop e s (Suc n) cpu idlest idlest_load =
     do { core \<leftarrow> load (env_cores_local e) cpu;
          if \<not> core_valid core \<or> \<not> core_online core then idlest_loop e s n (cpu + 1) idlest idlest_load
          else do { ld \<leftarrow> sched_cpu_load s cpu;
                    if ld < idlest_load then idlest_loop e s n (cpu + 1) cpu ld
                    else idlest_loop e s n (cpu + 1) idlest idlest_load } }"

text \<open>How many threads are pushed from a core of load \<open>local_load\<close> to one of load \<open>idlest_load\<close>.\<close>

definition push_count :: "size_t \<Rightarrow> size_t \<Rightarrow> size_t" where
  "push_count local_load idlest_load =
     (let max_moves = (local_load - idlest_load) div 2;
          max_moves = (if max_moves = 0 then 1 else max_moves) in
      if SCHED_PUSH_BATCH < max_moves then SCHED_PUSH_BATCH else max_moves)"

definition sched_rebalance_once :: "sched_env \<Rightarrow> sched_state \<Rightarrow> size_t \<Rightarrow> sched_state exec" where
  "sched_rebalance_once e s cpu_id =
     (let ncpu = (if MAX_CORES < env_core_count e then MAX_CORES else env_core_count e);
          ncpu = (if 64 < ncpu then 64 else ncpu) in
      if ncpu \<le> 1 then Some s
      else do { s \<leftarrow> stranded_loop e cpu_id SCHED_PUSH_BATCH (upd_metrics (\<lambda>m. m\<lparr>m_balance_runs := m_balance_runs m + 1\<rparr>) s);
                local_load \<leftarrow> sched_cpu_load s cpu_id;
                (idlest, idlest_load) \<leftarrow> idlest_loop e s ncpu 0 MAX_CORES SIZE_MAX;
                if MAX_CORES \<le> idlest \<or> MAX_CORES \<le> cpu_id \<or> cpu_id = idlest then Some s
                else if local_load \<le> sz_add idlest_load 1 then Some s
                else do { (_, s) \<leftarrow> sched_push_load e s cpu_id idlest (push_count local_load idlest_load); Some s } })"


section \<open>Rescuing and stealing\<close>

definition rescue_stranded :: "sched_env \<Rightarrow> sched_state \<Rightarrow> size_t \<Rightarrow> (tid ptr \<times> sched_state) exec" where
  "rescue_stranded e s cpu_id =
     do { (stranded, s) \<leftarrow> rq_take_unfit e s cpu_id cpu_id;
          case stranded of
            None \<Rightarrow> Some (None, s)
          | Some t \<Rightarrow>
              do { target_cpu \<leftarrow> pick_cpu e s (Some t) cpu_id;
                   target_online \<leftarrow> (if target_cpu < MAX_CORES \<and> target_cpu \<noteq> cpu_id
                                       then do { core \<leftarrow> load (env_cores_local e) target_cpu; Some (core_online core) } else Some False);
                   can_move \<leftarrow> (if target_online then sched_cpu_allowed e s (Some t) target_cpu else Some False);
                   s \<leftarrow> (if \<not> can_move then rq_enqueue_cpu e s (Some t) cpu_id else migrate_to e s t target_cpu);
                   rq_pop_best_allowed e s cpu_id } }"

fun busiest_loop :: "sched_env \<Rightarrow> sched_state \<Rightarrow> size_t \<Rightarrow> nat \<Rightarrow> size_t \<Rightarrow> size_t \<Rightarrow> size_t \<Rightarrow> (size_t \<times> size_t) exec" where
  "busiest_loop e s cpu_id 0 i cpu best_load = Some (cpu, best_load)"
| "busiest_loop e s cpu_id (Suc n) i cpu best_load =
     do { core \<leftarrow> load (env_cores_local e) i;
          if i = cpu_id \<or> \<not> core_valid core \<or> \<not> core_online core then busiest_loop e s cpu_id n (i + 1) cpu best_load
          else do { ld \<leftarrow> sched_cpu_load s i;
                    if best_load < ld then busiest_loop e s cpu_id n (i + 1) i ld
                    else busiest_loop e s cpu_id n (i + 1) cpu best_load } }"

definition busiest_peer :: "sched_env \<Rightarrow> sched_state \<Rightarrow> size_t \<Rightarrow> (size_t \<times> size_t) exec" where
  "busiest_peer e s cpu_id = busiest_loop e s cpu_id (min (env_core_count e) MAX_CORES) 0 MAX_CORES 0"

fun steal_loop :: "sched_env \<Rightarrow> size_t \<Rightarrow> size_t \<Rightarrow> nat \<Rightarrow> tid ptr \<Rightarrow> sched_state \<Rightarrow> (tid ptr \<times> sched_state) exec" where
  "steal_loop e cpu cpu_id 0 first s = Some (first, s)"
| "steal_loop e cpu cpu_id (Suc n) first s =
     do { (victim, s) \<leftarrow> rq_take_worst e s cpu cpu_id;
          case victim of
            None \<Rightarrow> Some (first, s)
          | Some t \<Rightarrow>
              let s = note_migration (upd_metrics (\<lambda>m. m\<lparr>m_steals := m_steals m + 1\<rparr>) (assign_core t cpu_id s)) in
              if first = None then steal_loop e cpu cpu_id n victim s
              else do { s \<leftarrow> rq_enqueue_cpu e s victim cpu_id; steal_loop e cpu cpu_id n first s } }"

definition steal_idle_work :: "sched_env \<Rightarrow> sched_state \<Rightarrow> size_t \<Rightarrow> (tid ptr \<times> sched_state) exec" where
  "steal_idle_work e s cpu_id =
     do { (cpu, ld) \<leftarrow> busiest_peer e s cpu_id;
          if MAX_CORES \<le> cpu \<or> ld < 2 then Some (None, s)
          else steal_loop e cpu cpu_id SCHED_IDLE_STEAL_BATCH None s }"


section \<open>Counting threads\<close>

definition all_queued :: "sched_state \<Rightarrow> tid set" where
  "all_queued s = (\<Union>c < MAX_CORES. queued s c)"

lemma card_members:
  assumes "slots_ok idx h n th"
  shows "card (members h n) = n"
proof -
  have m: "members h n = (\<lambda>i. the (h ! i)) ` {..<n}"
    using slot_thread(1) [OF assms] by (force simp: members_def image_iff)
  have "inj_on (\<lambda>i. the (h ! i)) {..<n}"
  proof (rule inj_onI)
    fix i j assume ij: "i \<in> {..<n}" "j \<in> {..<n}" "the (h ! i) = the (h ! j)"
    then have "h ! i = h ! j" using slot_thread(1) [OF assms, of i] slot_thread(1) [OF assms, of j] by simp
    then show "i = j" using slots_distinct [OF assms, of i j] ij by simp
  qed
  then show ?thesis unfolding m by (simp add: card_image)
qed

lemma nr_running_card:
  assumes "sched_ok s" "c < MAX_CORES"
  shows "rq_nr_running (runqueues s ! c) = card (queued s c)" "finite (queued s c)"
proof -
  obtain h where "rq_shape (runqueues s ! c) h (threads s)" "queued s c = members h (rq_nr_running (runqueues s ! c))"
    using sched_ok_heap [OF assms] by metis
  then show "rq_nr_running (runqueues s ! c) = card (queued s c)" "finite (queued s c)"
    using card_members [of th_rq_index h "rq_nr_running (runqueues s ! c)" "threads s"] finite_members by (simp_all add: rq_shape_def)
qed

lemma all_queued_finite: "sched_ok s \<Longrightarrow> finite (all_queued s)"
  unfolding all_queued_def by (intro finite_UN_I) (auto dest: nr_running_card(2))

lemma all_queued_iff:
  assumes "sched_ok s"
  shows "t \<in> all_queued s \<longleftrightarrow> th_on_rq (threads s t)"
proof
  show "th_on_rq (threads s t)" if "t \<in> all_queued s" using that queuedD(1) [OF assms] by (auto simp: all_queued_def)
  show "t \<in> all_queued s" if "th_on_rq (threads s t)"
    using sched_okD(5) [OF assms, of t] that by (auto simp: thread_placed_def all_queued_def)
qed

lemma queue_room_free:
  assumes "sched_ok s" "k < MAX_CORES" "card (all_queued s) < rq_capacity (runqueues s ! k)"
  shows "queue_room s k"
proof -
  have "card (queued s k) \<le> card (all_queued s)"
    by (rule card_mono [OF all_queued_finite [OF assms(1)]]) (use assms(2) in \<open>auto simp: all_queued_def\<close>)
  then show ?thesis using assms(3) nr_running_card(1) [OF assms(1,2)] by (simp add: queue_room_def)
qed

text \<open>
  What balancing relies on: every queued thread is ready, is released from its last core and has an online core it may run on,
  and the queues are large enough for all queued threads.
\<close>

definition free_thread :: "sched_env \<Rightarrow> sched_state \<Rightarrow> tid \<Rightarrow> bool" where
  "free_thread e s t \<longleftrightarrow> rq_runnable (threads s) (Some t) \<and> th_running_cpu (threads s t) < 0 \<and> candidates e s t \<noteq> {}"

definition roomy :: "nat \<Rightarrow> sched_state \<Rightarrow> bool" where
  "roomy n s \<longleftrightarrow> (\<forall>k < MAX_CORES. n \<le> rq_capacity (runqueues s ! k))"

definition balance_ok :: "sched_env \<Rightarrow> tid set \<Rightarrow> sched_state \<Rightarrow> bool" where
  "balance_ok e Q s \<longleftrightarrow> sched_ok s \<and> all_queued s = Q \<and> (\<forall>t \<in> Q. free_thread e s t) \<and> roomy (card Q) s"

text \<open>The same with one thread outside the queues.\<close>

definition balance_out :: "sched_env \<Rightarrow> tid set \<Rightarrow> tid \<Rightarrow> sched_state \<Rightarrow> bool" where
  "balance_out e Q t s \<longleftrightarrow> sched_ok s \<and> all_queued s = Q - {t} \<and> t \<in> Q \<and> (\<forall>u \<in> Q. free_thread e s u) \<and> roomy (card Q) s \<and>
     \<not> th_on_rq (threads s t) \<and> rq_runnable (threads s) (Some t)"

lemma rq_runnable_iff: "rq_runnable th (Some t) \<longleftrightarrow> th_state (th t) = THREAD_READY \<and> th_context (th t) \<noteq> 0 \<and> th_pid (th t) \<noteq> 0"
  by (simp add: rq_runnable_def)

text \<open>The fields of a thread that balancing reads and never writes.\<close>

definition sched_view :: "sched_thread \<Rightarrow> thread_state \<times> int \<times> u64 \<times> u64 \<times> pid_t" where
  "sched_view x = (th_state x, th_running_cpu x, th_allowed_cpu_mask x, th_context x, th_pid x)"

lemma free_thread_same:
  assumes "sched_view (threads s' t) = sched_view (threads s t)"
  shows "free_thread e s' t = free_thread e s t"
  using assms by (simp add: free_thread_def candidates_def sched_view_def rq_runnable_iff)

lemma set_rq_index_other [simp]:
  "th_running_cpu (set_rq_index i x) = th_running_cpu x" "th_allowed_cpu_mask (set_rq_index i x) = th_allowed_cpu_mask x"
  "th_state (set_rq_index i x) = th_state x" "th_context (set_rq_index i x) = th_context x" "th_pid (set_rq_index i x) = th_pid x"
  "sched_view (set_rq_index i x) = sched_view x" "sched_view (clear_rq x) = sched_view x" "sched_view (rq_entered c m x) = sched_view x"
  by (simp_all add: set_rq_index_def sched_view_def clear_rq_def rq_entered_def)

lemma cpu_allowed_clear [simp]: "cpu_allowed e (clear_rq x) c = cpu_allowed e x c"
  by (simp add: cpu_allowed_def clear_rq_def)

lemma taken_out:
  assumes b: "balance_ok e Q s" and c: "c < MAX_CORES" and t: "rq_taken c t s s'" "rq_runnable (threads s) (Some t)"
  shows "balance_out e Q t s'"
proof -
  have ok: "sched_ok s" "sched_ok s'" and Q: "all_queued s = Q" using b t(1) by (simp_all add: balance_ok_def rq_taken_def)
  have x: "threads s' t = clear_rq (threads s t)" using t(1) by (simp add: rq_taken_def)
  have u: "\<exists>i. threads s' u = set_rq_index i (threads s u)" if "u \<noteq> t" for u using t(1) that unfolding rq_taken_def rq_change_def by blast
  have on: "th_on_rq (threads s' u) = (u \<noteq> t \<and> th_on_rq (threads s u))" for u
    using x u [of u] by (cases "u = t") (auto simp: clear_rq_def)
  have "all_queued s' = Q - {t}" using all_queued_iff [OF ok(1)] all_queued_iff [OF ok(2)] on Q by blast
  moreover have "t \<in> Q" using t(1) c Q by (auto simp: rq_taken_def all_queued_def)
  moreover have "free_thread e s' w" if "w \<in> Q" for w
  proof -
    have "sched_view (threads s' w) = sched_view (threads s w)" using x u [of w] by (cases "w = t") auto
    then show ?thesis using b that free_thread_same [of s' w s e] by (simp add: balance_ok_def)
  qed
  moreover have "roomy (card Q) s'" using b t(1) by (simp add: balance_ok_def roomy_def rq_taken_def rq_change_def)
  moreover have "rq_runnable (threads s') (Some t)" using t(2) x by (simp add: rq_runnable_iff clear_rq_def)
  ultimately show ?thesis using ok(2) on [of t] by (simp add: balance_out_def)
qed

lemma balance_out_room:
  assumes "balance_out e Q t s" "k < MAX_CORES"
  shows "queue_room s k"
proof (rule queue_room_free)
  have ok: "sched_ok s" and Q: "all_queued s = Q - {t}" "t \<in> Q" using assms(1) by (simp_all add: balance_out_def)
  show "sched_ok s" "k < MAX_CORES" by (fact ok, fact assms(2))
  have "finite Q" using all_queued_finite [OF ok] Q by simp
  then have "card (all_queued s) < card Q" unfolding Q(1) using Q(2) by (rule card_Diff1_less)
  then show "card (all_queued s) < rq_capacity (runqueues s ! k)" using assms by (auto simp: balance_out_def roomy_def)
qed

lemma put_back:
  assumes e: "env_ok e" and b: "balance_out e Q t s" and c: "c < MAX_CORES"
  shows "\<exists>s' k. rq_enqueue_cpu e s (Some t) c = Some s' \<and> balance_ok e Q s' \<and> fit_core e s t k \<and> (fit_core e s t c \<longrightarrow> k = c) \<and>
    queued s' = (queued s)(k := insert t (queued s k)) \<and> cpus s' = cpus s \<and> rq_change t s s'"
proof -
  have ok: "sched_ok s" and Q: "all_queued s = Q - {t}" "t \<in> Q" and t: "\<not> th_on_rq (threads s t)" "rq_runnable (threads s) (Some t)"
    and f: "free_thread e s t" using b by (simp_all add: balance_out_def)
  obtain k where k: "fit_core e s t k" "fit_core e s t c \<Longrightarrow> k = c" "rq_enqueue_cpu e s (Some t) c = rq_enqueue_new s t k"
    using rq_enqueue_cpu_placed [OF e ok c _ t(2,1)] f by (auto simp: free_thread_def)
  have km: "k < MAX_CORES" using k(1) by (simp add: fit_core_def)
  obtain s' where s': "rq_enqueue_new s t k = Some s'" "rq_added k t s s'"
    using rq_enqueue_new_added [OF ok km t(1)] balance_out_room [OF b km] by (auto simp: queue_room_def)
  have q: "queued s' = (queued s)(k := insert t (queued s k))" "cpus s' = cpus s" "sched_ok s'" "rq_change t s s'" using s'(2) by (simp_all add: rq_added_def rq_change_def)
  have "all_queued s' = insert t (all_queued s)" using q(1) km unfolding all_queued_def by (auto split: if_splits)
  then have "all_queued s' = Q" using Q by auto
  moreover have "free_thread e s' w" if "w \<in> Q" for w
  proof -
    have "sched_view (threads s' w) = sched_view (threads s w)"
    proof (cases "w = t")
      case True
      then show ?thesis using s'(2) by (auto simp: rq_added_def)
    next
      case False
      then obtain i where "threads s' w = set_rq_index i (threads s w)" using s'(2) unfolding rq_added_def rq_change_def by blast
      then show ?thesis by simp
    qed
    then show ?thesis using b that free_thread_same [of s' w s e] by (simp add: balance_out_def)
  qed
  moreover have "roomy (card Q) s'" using b s'(2) by (simp add: balance_out_def roomy_def rq_added_def rq_change_def)
  ultimately show ?thesis using k s'(1) q by (auto simp: balance_ok_def)
qed

lemma assign_core_out:
  assumes "balance_out e Q t s"
  shows "balance_out e Q t (assign_core t k s)" "queued (assign_core t k s) = queued s" "fit_core e (assign_core t k s) t c = fit_core e s t c"
    "cpus (assign_core t k s) = cpus s"
proof -
  have ok: "sched_ok s" "\<not> th_on_rq (threads s t)" using assms by (simp_all add: balance_out_def)
  have ix: "th_rq_index (threads s t) = UINT32_MAX" "\<not> th_in_run_queue (threads s t)"
    using sched_okD(5) [OF ok(1), of t] ok(2) by (simp_all add: thread_placed_def)
  have "sched_ok (assign_core t k s)" unfolding assign_core_def by (rule sched_ok_upd_idle) (use ok ix in simp_all)
  moreover show "queued (assign_core t k s) = queued s" "cpus (assign_core t k s) = cpus s" by (simp_all add: assign_core_def)
  moreover show "fit_core e (assign_core t k s) t c = fit_core e s t c" by (simp add: assign_core_def fit_core_def cpu_allowed_def)
  moreover have "free_thread e (assign_core t k s) u = free_thread e s u" for u by (rule free_thread_same) (simp add: assign_core_def sched_view_def)
  ultimately show "balance_out e Q t (assign_core t k s)"
    using assms by (simp add: balance_out_def all_queued_def roomy_def rq_runnable_iff assign_core_def)
qed

lemma balance_ok_frame: "core_frame s s' \<Longrightarrow> balance_ok e Q s \<Longrightarrow> balance_ok e Q s'"
  using core_frame_ok [of s s'] core_frame_queued [of s s']
  by (simp add: balance_ok_def all_queued_def free_thread_def candidates_def roomy_def core_frame_def)

lemma migrate_to_spec:
  assumes e: "env_ok e" and b: "balance_out e Q t s" and k: "fit_core e s t k"
  shows "\<exists>s'. migrate_to e s t k = Some s' \<and> balance_ok e Q s' \<and> queued s' = (queued s)(k := insert t (queued s k)) \<and>
    list_all2 core_same (cpus s) (cpus s')"
proof -
  have km: "k < MAX_CORES" using k by (simp add: fit_core_def)
  note a = assign_core_out [OF b, of k]
  obtain s1 j where s1: "rq_enqueue_cpu e (assign_core t k s) (Some t) k = Some s1" "balance_ok e Q s1" "fit_core e (assign_core t k s) t k \<longrightarrow> j = k"
    "queued s1 = (queued (assign_core t k s))(j := insert t (queued (assign_core t k s) j))" "cpus s1 = cpus (assign_core t k s)"
    using put_back [OF e a(1) km] by blast
  have f1: "core_frame s1 (note_migration s1)" unfolding note_migration_def by (rule core_frame_metrics)
  have "cores_ok (note_migration s1)" using core_frame_cores [OF f1] s1(2) sched_okD(3) by (auto simp: balance_ok_def)
  then obtain s2 where s2: "wake_counted e (note_migration s1) k = Some s2" "core_frame (note_migration s1) s2" by (rule wake_counted_total)
  have f: "core_frame s1 s2" by (rule core_frame_trans [OF f1 s2(2)])
  have "queued s2 = (queued s)(k := insert t (queued s k))" using s1(3,4) a(2,3) k core_frame_queued [OF f] by simp
  moreover have "list_all2 core_same (cpus s) (cpus s2)" using f s1(5) a(4) by (simp add: core_frame_def)
  ultimately show ?thesis using s1(1) s2(1) balance_ok_frame [OF f s1(2)] by (simp add: migrate_to_def)
qed

text \<open>Taking a thread to push away: it comes from the source, may run on the target, and nothing else moves.\<close>

lemma take_worst_out:
  assumes e: "env_ok e" and b: "balance_ok e Q s" and c: "c < MAX_CORES" "c' < MAX_CORES"
  obtains "rq_take_worst e s c c' = Some (None, s)"
  | t s' where "rq_take_worst e s c c' = Some (Some t, s')" "balance_out e Q t s'" "t \<in> queued s c"
      "queued s' = (queued s)(c := queued s c - {t})" "cpus s' = cpus s" "cpu_allowed e (threads s' t) c'" "rq_change t s s'"
proof -
  have ok: "sched_ok s" using b by (simp add: balance_ok_def)
  consider "rq_take_worst e s c c' = Some (None, s)"
    | t s' where "last_selected s c (\<lambda>t. rq_runnable (threads s) (Some t) \<and> cpu_allowed e (threads s t) c') t"
        "rq_take_worst e s c c' = Some (Some t, s')" "rq_taken c t s s'"
    using rq_take_worst_spec [OF e ok c] by blast
  then show thesis
  proof cases
    case 1
    then show thesis by (rule that(1))
  next
    case (2 t s')
    have r: "rq_runnable (threads s) (Some t)" "cpu_allowed e (threads s t) c'" using 2(1) by (simp_all add: last_selected_def)
    have "cpu_allowed e (threads s' t) c'" using r(2) 2(3) by (simp add: rq_taken_def)
    then show thesis using that(2) [OF 2(2) taken_out [OF b c(1) 2(3) r(1)]] 2(3) by (simp add: rq_taken_def rq_change_def)
  qed
qed

lemma take_unfit_out:
  assumes e: "env_ok e" and b: "balance_ok e Q s" and c: "c < MAX_CORES" "c' < MAX_CORES"
  obtains "rq_take_unfit e s c c' = Some (None, s)"
  | t s' where "rq_take_unfit e s c c' = Some (Some t, s')" "balance_out e Q t s'"
proof -
  have ok: "sched_ok s" using b by (simp add: balance_ok_def)
  consider "rq_take_unfit e s c c' = Some (None, s)"
    | t s' where "last_selected s c (\<lambda>t. rq_runnable (threads s) (Some t) \<and> \<not> cpu_allowed e (threads s t) c') t"
        "rq_take_unfit e s c c' = Some (Some t, s')" "rq_taken c t s s'"
    using rq_take_unfit_spec [OF e ok c] by blast
  then show thesis
  proof cases
    case 1
    then show thesis by (rule that(1))
  next
    case (2 t s')
    have "rq_runnable (threads s) (Some t)" using 2(1) by (simp add: last_selected_def)
    then show thesis using that(2) [OF 2(2) taken_out [OF b c(1) 2(3)]] by simp
  qed
qed

definition core_busy :: "sched_state \<Rightarrow> size_t \<Rightarrow> nat" where
  "core_busy s c = (if cpu_current (cpus s ! c) \<noteq> None \<and> cpu_current (cpus s ! c) \<noteq> cpu_idle_thread (cpus s ! c) then 1 else 0)"

lemma core_load_eq:
  assumes "sched_ok s" "c < MAX_CORES"
  shows "core_load s c = card (queued s c) + core_busy s c"
proof -
  obtain h where "rq_shape (runqueues s ! c) h (threads s)" using sched_ok_heap [OF assms] by metis
  then have "rq_nr_running (runqueues s ! c) \<le> RQ_LIMIT" using rq_shape_bound by blast
  then have "sz_add (rq_nr_running (runqueues s ! c)) 1 = rq_nr_running (runqueues s ! c) + 1"
    by (simp add: sz_add_def RQ_LIMIT_def SIZE_MAX_def)
  then show ?thesis using nr_running_card(1) [OF assms] sched_okD(1,2) [OF assms(1)] assms(2)
    by (simp add: core_load_def sched_cpu_load_def load_ok core_busy_def)
qed

lemma core_busy_same: "list_all2 core_same (cpus s) (cpus s') \<Longrightarrow> c < length (cpus s) \<Longrightarrow> core_busy s' c = core_busy s c"
  using list_all2_nthD [of core_same "cpus s" "cpus s'" c] by (simp add: core_busy_def core_same_def)

lemma core_same_trans: "list_all2 core_same a b \<Longrightarrow> list_all2 core_same b c \<Longrightarrow> list_all2 core_same a c"
  by (rule list_all2_trans [of core_same core_same core_same]) (simp_all add: core_same_def)

text \<open>What pushing does to the queues: \<open>m\<close> threads go from \<open>a\<close> to \<open>b\<close>.\<close>

definition pushed :: "size_t \<Rightarrow> size_t \<Rightarrow> nat \<Rightarrow> sched_state \<Rightarrow> sched_state \<Rightarrow> bool" where
  "pushed a b m s s' \<longleftrightarrow> list_all2 core_same (cpus s) (cpus s') \<and>
     (\<exists>M \<subseteq> queued s a. finite M \<and> card M = m \<and> queued s' = (queued s)(a := queued s a - M, b := queued s b \<union> M))"

lemma pushed_none: "pushed a b 0 s s" "pushed a b 0 s s' \<Longrightarrow> queued s' = queued s"
  unfolding pushed_def by (intro conjI core_same_refl exI [of _ "{}"], simp_all) (elim conjE exE, simp)

lemma pushed_load:
  assumes "pushed a b m s s'" "sched_ok s" "sched_ok s'" "a < MAX_CORES" "b < MAX_CORES" "a \<noteq> b"
  shows "core_load s' b = core_load s b + m" "core_load s' a + m = core_load s a"
proof -
  obtain M where M: "M \<subseteq> queued s a" "finite M" "card M = m" "queued s' = (queued s)(a := queued s a - M, b := queued s b \<union> M)"
    and cs: "list_all2 core_same (cpus s) (cpus s')" using assms(1) by (auto simp: pushed_def)
  note fin = nr_running_card(2) [OF assms(2,4)] nr_running_card(2) [OF assms(2,5)]
  have d: "queued s b \<inter> M = {}" using queuedD(3) [OF assms(2,4)] queuedD(3) [OF assms(2,5)] M(1) assms(6) by fastforce
  have "card (queued s' b) = card (queued s b) + m" using M(3,4) card_Un_disjoint [OF fin(2) M(2) d] by simp
  moreover have "card (queued s' a) + m = card (queued s a)"
    using M assms(6) card_Diff_subset [OF M(2,1)] card_mono [OF fin(1) M(1)] by simp
  moreover have "core_busy s' b = core_busy s b" "core_busy s' a = core_busy s a"
    using core_busy_same [OF cs] assms(4,5) sched_okD(2) [OF assms(2)] by auto
  ultimately show "core_load s' b = core_load s b + m" "core_load s' a + m = core_load s a"
    using core_load_eq assms by simp_all
qed

lemma push_loop_spec:
  assumes "env_ok e" "a < MAX_CORES" "b < MAX_CORES" "a \<noteq> b" "core_online (env_cores_local e ! b)" "balance_ok e Q s"
  shows "\<exists>k s'. push_loop e a b n m s = Some (m + k, s') \<and> k \<le> n \<and> balance_ok e Q s' \<and> pushed a b k s s'"
  using assms
proof (induction e a b n m s rule: push_loop.induct)
  case (1 e a b m s)
  then show ?case by (simp add: pushed_none)
next
  case (2 e a b n m s)
  show ?case
  proof (rule take_worst_out [OF "2.prems"(1,6,2,3)])
    assume "rq_take_worst e s a b = Some (None, s)"
    then show ?thesis using "2.prems"(6) by (intro exI [of _ 0]) (simp add: pushed_none)
  next
    fix t s1
    assume t: "rq_take_worst e s a b = Some (Some t, s1)" "balance_out e Q t s1" "t \<in> queued s a"
      "queued s1 = (queued s)(a := queued s a - {t})" "cpus s1 = cpus s" "cpu_allowed e (threads s1 t) b" "rq_change t s s1"
    have "fit_core e s1 t b" using "2.prems"(3,5) t(6) by (simp add: fit_core_def)
    then obtain s2 where s2: "migrate_to e s1 t b = Some s2" "balance_ok e Q s2" "queued s2 = (queued s1)(b := insert t (queued s1 b))"
      "list_all2 core_same (cpus s1) (cpus s2)" using migrate_to_spec [OF "2.prems"(1) t(2)] by blast
    obtain k s3 where s3: "push_loop e a b n (m + 1) s2 = Some (m + 1 + k, s3)" "k \<le> n" "balance_ok e Q s3" "pushed a b k s2 s3"
      using "2.IH" [OF t(1) _ _ s2(1) "2.prems"(1-5) s2(2)] by auto
    obtain M where M: "M \<subseteq> queued s2 a" "finite M" "card M = k" "queued s3 = (queued s2)(a := queued s2 a - M, b := queued s2 b \<union> M)"
      and cs: "list_all2 core_same (cpus s2) (cpus s3)" using s3(4) by (auto simp: pushed_def)
    have a2: "queued s2 a = queued s a - {t}" using s2(3) t(4) "2.prems"(4) by simp
    have q: "queued s3 = (queued s)(a := queued s a - insert t M, b := queued s b \<union> insert t M)" using M(4) s2(3) t(4) "2.prems"(4) by (simp add: Diff_insert2 [symmetric])
    have "insert t M \<subseteq> queued s a" "card (insert t M) = Suc k" using M(1,2,3) a2 t(3) by (blast, simp add: card_insert_if, blast)
    then have "pushed a b (Suc k) s s3" using q M(2) core_same_trans [OF s2(4) cs] unfolding pushed_def t(5) by blast
    then show ?thesis using t(1) s2(1) s3 by (intro exI [of _ "Suc k"] exI [of _ s3]) simp
  qed
qed

lemma candidates_out:
  assumes "balance_out e Q t s"
  shows "candidates e s t \<noteq> {}" "cores_ok s"
  using assms sched_okD(3) by (auto simp: balance_out_def free_thread_def)

lemma stranded_loop_spec:
  assumes "env_ok e" "c < MAX_CORES" "balance_ok e Q s"
  shows "\<exists>s'. stranded_loop e c n s = Some s' \<and> balance_ok e Q s'"
  using assms
proof (induction e c n s rule: stranded_loop.induct)
  case (1 e c s)
  then show ?case by simp
next
  case (2 e c n s)
  show ?case
  proof (rule take_unfit_out [OF "2.prems"(1,3,2,2)])
    assume "rq_take_unfit e s c c = Some (None, s)"
    then show ?thesis using "2.prems"(3) by simp
  next
    fix t s1
    assume t: "rq_take_unfit e s c c = Some (Some t, s1)" "balance_out e Q t s1"
    obtain p where p: "pick_cpu e s1 (Some t) c = Some p" "p \<in> candidates e s1 t"
      using pick_cpu_spec [OF "2.prems"(1) candidates_out(2,1) [OF t(2)], of c] by blast
    note f = candidates_fit [OF "2.prems"(1) p(2)]
    have al: "sched_cpu_allowed e s1 (Some t) p = Some True" using f sched_cpu_allowed_eq [OF "2.prems"(1)] by (simp add: fit_core_def)
    obtain s2 where s2: "rq_enqueue_cpu e s1 (Some t) c = Some s2" "balance_ok e Q s2" using put_back [OF "2.prems"(1) t(2) "2.prems"(2)] by blast
    obtain s3 where s3: "migrate_to e s1 t p = Some s3" "balance_ok e Q s3" using migrate_to_spec [OF "2.prems"(1) t(2) f] by blast
    show ?thesis
    proof (cases "p = c")
      case True
      then show ?thesis using t(1) p(1) s2 by simp
    next
      case False
      have pm: "\<not> (MAX_CORES \<le> p \<or> p = c)" using f False by (simp add: fit_core_def)
      obtain s4 where "stranded_loop e c n s3 = Some s4" "balance_ok e Q s4"
        using "2.IH" [OF t(1) refl refl p(1) pm al _ s3(1) "2.prems"(1,2) s3(2)] by auto
      then show ?thesis using t(1) p(1) al s3(1) pm by simp
    qed
  qed
qed

definition least_of :: "sched_state \<Rightarrow> size_t set \<Rightarrow> size_t \<Rightarrow> size_t \<Rightarrow> bool" where
  "least_of s U b l \<longleftrightarrow>
     (if U = {} then b = MAX_CORES \<and> l = SIZE_MAX else b \<in> U \<and> l = core_load s b \<and> (\<forall>k \<in> U. core_load s b \<le> core_load s k))"

lemma least_of_insert:
  assumes "least_of s U b l" "core_load s i < SIZE_MAX"
  shows "if core_load s i < l then least_of s (insert i U) i (core_load s i) else least_of s (insert i U) b l"
proof (cases "U = {}")
  case True
  then show ?thesis using assms by (simp add: least_of_def)
next
  case False
  then show ?thesis using assms by (auto simp: least_of_def intro: less_imp_le order_trans)
qed

lemma idlest_loop_spec:
  assumes "cores_ok s" "\<And>k. core_load s k < SIZE_MAX" "i + n \<le> length (env_cores_local e)"
    and "least_of s {k. k < i \<and> core_usable e k} b l"
  shows "\<exists>b' l'. idlest_loop e s n i b l = Some (b', l') \<and> least_of s {k. k < i + n \<and> core_usable e k} b' l'"
  using assms
proof (induction e s n i b l rule: idlest_loop.induct)
  case (1 e s i b l)
  then show ?case by simp
next
  case (2 e s n i b l)
  have ld: "load (env_cores_local e) i = Some (env_cores_local e ! i)" using "2.prems"(3) by (simp add: load_ok)
  have lc: "sched_cpu_load s i = Some (core_load s i)" by (rule sched_cpu_load_some [OF "2.prems"(1)])
  have le: "i + 1 + n \<le> length (env_cores_local e)" using "2.prems"(3) by simp
  have eq: "i + 1 + n = i + Suc n" by simp
  show ?case
  proof (cases "core_usable e i")
    case False
    have U: "{k. k < i + 1 \<and> core_usable e k} = {k. k < i \<and> core_usable e k}" using False by (auto simp: less_Suc_eq)
    have f: "\<not> core_valid (env_cores_local e ! i) \<or> \<not> core_online (env_cores_local e ! i)" using False by (simp add: core_usable_def)
    have "least_of s {k. k < i + 1 \<and> core_usable e k} b l" unfolding U by (rule "2.prems"(4))
    from "2.IH"(1) [OF ld f "2.prems"(1,2) le this] show ?thesis using ld f unfolding eq by simp
  next
    case True
    have U: "{k. k < i + 1 \<and> core_usable e k} = insert i {k. k < i \<and> core_usable e k}" using True by (auto simp: less_Suc_eq)
    have f: "\<not> (\<not> core_valid (env_cores_local e ! i) \<or> \<not> core_online (env_cores_local e ! i))" using True by (simp add: core_usable_def)
    note st = least_of_insert [OF "2.prems"(4) "2.prems"(2), of i]
    show ?thesis
    proof (cases "core_load s i < l")
      case True
      have "least_of s {k. k < i + 1 \<and> core_usable e k} i (core_load s i)" unfolding U using st True by simp
      from "2.IH"(2) [OF ld f lc True "2.prems"(1,2) le this] show ?thesis using ld f lc True unfolding eq by simp
    next
      case False
      have "least_of s {k. k < i + 1 \<and> core_usable e k} b l" unfolding U using st False by simp
      from "2.IH"(3) [OF ld f lc False "2.prems"(1,2) le this] show ?thesis using ld f lc False unfolding eq by simp
    qed
  qed
qed

lemma core_load_bound:
  assumes "sched_ok s"
  shows "core_load s k < SIZE_MAX"
proof (cases "k < MAX_CORES")
  case True
  obtain h where "rq_shape (runqueues s ! k) h (threads s)" using sched_ok_heap [OF assms True] by metis
  then have "card (queued s k) \<le> RQ_LIMIT" using rq_shape_bound nr_running_card(1) [OF assms True] by metis
  moreover have "core_busy s k \<le> 1" by (simp add: core_busy_def)
  ultimately have "core_load s k \<le> RQ_LIMIT + 1" using core_load_eq [OF assms True] by linarith
  then show ?thesis by (simp add: RQ_LIMIT_def SIZE_MAX_def)
qed (simp add: core_load_def sched_cpu_load_def SIZE_MAX_def)

lemma push_count_half:
  assumes "l + 1 < m"
  shows "2 * push_count m l \<le> m - l" "push_count m l \<le> SCHED_PUSH_BATCH" "0 < push_count m l"
  using assms by (auto simp: push_count_def Let_def SCHED_PUSH_BATCH_def)



section \<open>Stealing\<close>

definition most_of :: "sched_state \<Rightarrow> size_t set \<Rightarrow> size_t \<Rightarrow> size_t \<Rightarrow> bool" where
  "most_of s U b l \<longleftrightarrow> (if b < MAX_CORES then b \<in> U \<and> l = core_load s b else l = 0) \<and> (\<forall>k \<in> U. core_load s k \<le> l)"

lemma most_of_insert:
  assumes "most_of s U b l" "i < MAX_CORES"
  shows "if l < core_load s i then most_of s (insert i U) i (core_load s i) else most_of s (insert i U) b l"
  using assms by (auto simp: most_of_def intro: less_imp_le le_less_trans)

lemma busiest_loop_spec:
  assumes "cores_ok s" "i + n \<le> MAX_CORES" "length (env_cores_local e) = MAX_CORES"
    and "most_of s {k. k < i \<and> k \<noteq> c \<and> core_usable e k} b l"
  shows "\<exists>b' l'. busiest_loop e s c n i b l = Some (b', l') \<and> most_of s {k. k < i + n \<and> k \<noteq> c \<and> core_usable e k} b' l'"
  using assms
proof (induction e s c n i b l rule: busiest_loop.induct)
  case (1 e s c i b l)
  then show ?case by simp
next
  case (2 e s c n i b l)
  have ld: "load (env_cores_local e) i = Some (env_cores_local e ! i)" using "2.prems"(2,3) by (simp add: load_ok)
  have lc: "sched_cpu_load s i = Some (core_load s i)" by (rule sched_cpu_load_some [OF "2.prems"(1)])
  have le: "i + 1 + n \<le> MAX_CORES" "i < MAX_CORES" using "2.prems"(2) by simp_all
  have eq: "i + 1 + n = i + Suc n" by simp
  let ?U = "{k. k < i \<and> k \<noteq> c \<and> core_usable e k}" and ?V = "{k. k < i + 1 \<and> k \<noteq> c \<and> core_usable e k}"
  show ?case
  proof (cases "i \<noteq> c \<and> core_usable e i")
    case False
    have U: "?V = ?U" using False by (auto simp: less_Suc_eq)
    have f: "i = c \<or> \<not> core_valid (env_cores_local e ! i) \<or> \<not> core_online (env_cores_local e ! i)" using False by (simp add: core_usable_def)
    have "most_of s ?V b l" unfolding U by (rule "2.prems"(4))
    from "2.IH"(1) [OF ld f "2.prems"(1) le(1) "2.prems"(3) this] show ?thesis using ld f unfolding eq by simp
  next
    case True
    have U: "?V = insert i ?U" using True by (auto simp: less_Suc_eq)
    have f: "\<not> (i = c \<or> \<not> core_valid (env_cores_local e ! i) \<or> \<not> core_online (env_cores_local e ! i))" using True by (simp add: core_usable_def)
    note st = most_of_insert [OF "2.prems"(4) le(2)]
    show ?thesis
    proof (cases "l < core_load s i")
      case True
      have "most_of s ?V i (core_load s i)" unfolding U using st True by simp
      from "2.IH"(2) [OF ld f lc True "2.prems"(1) le(1) "2.prems"(3) this] show ?thesis using ld f lc True unfolding eq by simp
    next
      case False
      have "most_of s ?V b l" unfolding U using st False by simp
      from "2.IH"(3) [OF ld f lc False "2.prems"(1) le(1) "2.prems"(3) this] show ?thesis using ld f lc False unfolding eq by simp
    qed
  qed
qed

lemma out_rest:
  assumes "balance_out e Q t s"
  shows "balance_ok e (Q - {t}) s"
proof -
  have "finite Q" using all_queued_finite [of s] assms by (auto simp: balance_out_def)
  then have "card (Q - {t}) \<le> card Q" by (rule card_mono) blast
  then show ?thesis using assms by (auto simp: balance_ok_def balance_out_def roomy_def)
qed

lemma out_metrics: "balance_out e Q t (upd_metrics f s) = balance_out e Q t s"
  by (simp add: balance_out_def all_queued_def free_thread_def candidates_def roomy_def)

lemma set_rq_index_twice [simp]: "set_rq_index i (set_rq_index j x) = set_rq_index i x"
  by (simp add: set_rq_index_def)

lemma steal_rest:
  assumes "env_ok e" "a < MAX_CORES" "c < MAX_CORES" "balance_ok e R s" "f \<notin> R"
  shows "\<exists>s' i. steal_loop e a c n (Some f) s = Some (Some f, s') \<and> balance_ok e R s' \<and> threads s' f = set_rq_index i (threads s f)"
  using assms(4,5)
proof (induction n arbitrary: s)
  case 0
  then show ?case by (auto simp: set_rq_index_def intro: exI [of _ "th_rq_index (threads s f)"])
next
  case (Suc n)
  show ?case
  proof (rule take_worst_out [OF assms(1) Suc.prems(1) assms(2,3)])
    assume "rq_take_worst e s a c = Some (None, s)"
    then show ?thesis using Suc.prems(1) by (auto simp: set_rq_index_def intro: exI [of _ "th_rq_index (threads s f)"])
  next
    fix t s1
    assume t: "rq_take_worst e s a c = Some (Some t, s1)" "balance_out e R t s1" "rq_change t s s1"
    define s2 where "s2 = note_migration (upd_metrics (\<lambda>m. m\<lparr>m_steals := m_steals m + 1\<rparr>) (assign_core t c s1))"
    have s2: "balance_out e R t s2" unfolding s2_def note_migration_def out_metrics by (rule assign_core_out(1) [OF t(2)])
    have ne: "f \<noteq> t" using t(2) Suc.prems(2) by (auto simp: balance_out_def)
    obtain s3 where s3: "rq_enqueue_cpu e s2 (Some t) c = Some s3" "balance_ok e R s3" "rq_change t s2 s3" using put_back [OF assms(1) s2 assms(3)] by blast
    obtain s4 i where s4: "steal_loop e a c n (Some f) s3 = Some (Some f, s4)" "balance_ok e R s4" "threads s4 f = set_rq_index i (threads s3 f)"
      using Suc.IH [OF s3(2) Suc.prems(2)] by blast
    obtain j k where "threads s1 f = set_rq_index j (threads s f)" "threads s3 f = set_rq_index k (threads s2 f)"
      using t(3) s3(3) ne unfolding rq_change_def by blast
    moreover have "threads s2 f = threads s1 f" using ne by (simp add: s2_def note_migration_def assign_core_def)
    ultimately have "threads s4 f = set_rq_index i (threads s f)" using s4(3) by simp
    moreover have "steal_loop e a c (Suc n) (Some f) s = Some (Some f, s4)" using t(1) s3(1) s4(1) by (simp add: s2_def Let_def)
    ultimately show ?thesis using s4(2) by blast
  qed
qed

text \<open>
  What a search for work on core \<open>c\<close> yields: nothing, with the same threads queued, or one of the queued threads, which left the queues,
  is ready and may run on the core.
\<close>

definition handed :: "sched_env \<Rightarrow> tid set \<Rightarrow> size_t \<Rightarrow> (tid ptr \<times> sched_state) exec \<Rightarrow> bool" where
  "handed e Q c r \<longleftrightarrow>
     (case r of
        None \<Rightarrow> False
      | Some (None, s) \<Rightarrow> balance_ok e Q s
      | Some (Some t, s) \<Rightarrow> t \<in> Q \<and> balance_ok e (Q - {t}) s \<and> rq_runnable (threads s) (Some t) \<and> cpu_allowed e (threads s t) c)"

lemma cpu_allowed_same: "th_allowed_cpu_mask x = th_allowed_cpu_mask y \<Longrightarrow> cpu_allowed e x c = cpu_allowed e y c"
  by (simp add: cpu_allowed_def)

lemma steal_loop_handed:
  assumes "env_ok e" "a < MAX_CORES" "c < MAX_CORES" "balance_ok e Q s"
  shows "handed e Q c (steal_loop e a c n None s)"
proof (cases n)
  case 0
  then show ?thesis using assms(4) by (simp add: handed_def)
next
  case (Suc m)
  show ?thesis
  proof (rule take_worst_out [OF assms(1,4,2,3)])
    assume "rq_take_worst e s a c = Some (None, s)"
    then show ?thesis using assms(4) Suc by (simp add: handed_def)
  next
    fix t s1
    assume t: "rq_take_worst e s a c = Some (Some t, s1)" "balance_out e Q t s1" "cpu_allowed e (threads s1 t) c"
    define s2 where "s2 = note_migration (upd_metrics (\<lambda>m. m\<lparr>m_steals := m_steals m + 1\<rparr>) (assign_core t c s1))"
    have s2: "balance_out e Q t s2" unfolding s2_def note_migration_def out_metrics by (rule assign_core_out(1) [OF t(2)])
    obtain s3 i where s3: "steal_loop e a c m (Some t) s2 = Some (Some t, s3)" "balance_ok e (Q - {t}) s3" "threads s3 t = set_rq_index i (threads s2 t)"
      using steal_rest [OF assms(1-3) out_rest [OF s2]] by blast
    have "rq_runnable (threads s3) (Some t)" using s2 s3(3) by (simp add: balance_out_def rq_runnable_iff)
    moreover have "th_allowed_cpu_mask (threads s3 t) = th_allowed_cpu_mask (threads s1 t)"
      using s3(3) by (simp add: s2_def note_migration_def assign_core_def)
    then have "cpu_allowed e (threads s3 t) c" using cpu_allowed_same t(3) by blast
    moreover have "steal_loop e a c n None s = Some (Some t, s3)" using t(1) s3(1) Suc by (simp add: s2_def Let_def)
    ultimately show ?thesis using s3(2) t(2) by (simp add: handed_def balance_out_def)
  qed
qed

lemma pop_best_handed:
  assumes "env_ok e" "c < MAX_CORES" "balance_ok e Q s"
  shows "handed e Q c (rq_pop_best_allowed e s c)"
proof -
  have ok: "sched_ok s" using assms(3) by (simp add: balance_ok_def)
  consider "rq_pop_best_allowed e s c = Some (None, s)"
    | t s' where "first_allowed e s c t" "rq_pop_best_allowed e s c = Some (Some t, s')" "rq_taken c t s s'"
    using rq_pop_best_allowed_spec [OF assms(1) ok assms(2)] by blast
  then show ?thesis
  proof cases
    case 1
    then show ?thesis using assms(3) by (simp add: handed_def)
  next
    case (2 t s')
    have t: "t \<in> queued s c" "cpu_allowed e (threads s t) c" using 2(1) by (simp_all add: first_allowed_def)
    then have "t \<in> Q" using assms(2,3) by (auto simp: balance_ok_def all_queued_def)
    then have r: "rq_runnable (threads s) (Some t)" using assms(3) by (simp add: balance_ok_def free_thread_def)
    have b: "balance_out e Q t s'" by (rule taken_out [OF assms(3,2) 2(3) r])
    have "cpu_allowed e (threads s' t) c" using t(2) 2(3) by (simp add: rq_taken_def)
    then show ?thesis using 2(2) b out_rest [OF b] by (simp add: handed_def balance_out_def)
  qed
qed

lemma rescue_handed:
  assumes "env_ok e" "c < MAX_CORES" "balance_ok e Q s"
  shows "handed e Q c (rescue_stranded e s c)"
proof (rule take_unfit_out [OF assms(1,3,2,2)])
  assume "rq_take_unfit e s c c = Some (None, s)"
  then show ?thesis using assms(3) by (simp add: rescue_stranded_def handed_def)
next
  fix t s1
  assume t: "rq_take_unfit e s c c = Some (Some t, s1)" "balance_out e Q t s1"
  obtain p where p: "pick_cpu e s1 (Some t) c = Some p" "p \<in> candidates e s1 t"
    using pick_cpu_spec [OF assms(1) candidates_out(2,1) [OF t(2)], of c] by blast
  note f = candidates_fit [OF assms(1) p(2)]
  have al: "sched_cpu_allowed e s1 (Some t) p = Some True" using f sched_cpu_allowed_eq [OF assms(1)] by (simp add: fit_core_def)
  have on: "load (env_cores_local e) p = Some (env_cores_local e ! p)" "core_online (env_cores_local e ! p)" "p < MAX_CORES"
    using f assms(1) by (simp_all add: fit_core_def env_ok_def load_ok)
  obtain s2 where s2: "rq_enqueue_cpu e s1 (Some t) c = Some s2" "balance_ok e Q s2" using put_back [OF assms(1) t(2) assms(2)] by blast
  obtain s3 where s3: "migrate_to e s1 t p = Some s3" "balance_ok e Q s3" using migrate_to_spec [OF assms(1) t(2) f] by blast
  have "rescue_stranded e s c = rq_pop_best_allowed e (if p = c then s2 else s3) c"
    using t(1) p(1) s2(1) s3(1) al on by (simp add: rescue_stranded_def)
  then show ?thesis using pop_best_handed [OF assms(1,2)] s2(2) s3(2) by simp
qed

lemma busiest_peer_spec:
  assumes "env_ok e" "cores_ok s"
  shows "\<exists>b l. busiest_peer e s c = Some (b, l) \<and> most_of s {k. online_core e k \<and> k \<noteq> c} b l"
proof -
  have U: "{k. k < min (env_core_count e) MAX_CORES \<and> k \<noteq> c \<and> core_usable e k} = {k. online_core e k \<and> k \<noteq> c}"
    by (auto simp: online_core_def)
  have "most_of s {k. k < 0 \<and> k \<noteq> c \<and> core_usable e k} MAX_CORES 0" by (simp add: most_of_def)
  from busiest_loop_spec [OF assms(2) _ _ this, of "min (env_core_count e) MAX_CORES"] assms(1) show ?thesis
    unfolding busiest_peer_def U add_0 by (simp add: env_ok_def)
qed



section \<open>Slices and preemption\<close>



lemma rq_peek_best_spec:
  assumes "env_ok e" "sched_ok s" "c < MAX_CORES"
  obtains "rq_peek_best e s c = Some None" "none_allowed e s c"
  | t where "rq_peek_best e s c = Some (Some t)" "first_allowed e s c t"
proof -
  obtain h where h: "rq_heap (runqueues s ! c) = Some h" "load (runqueues s) c = Some (runqueues s ! c)"
    using sched_ok_heap [OF assms(2,3)] by metis
  obtain r where r: "allowed_root e s c (runqueues s ! c) = Some r"
    "\<And>t. r = Some t \<Longrightarrow> first_allowed e s c t \<and> 0 < rq_nr_running (runqueues s ! c) \<and> h ! 0 = Some t"
    using allowed_root_spec [OF assms h(1)] by blast
  obtain best bi where b: "scan_best e s c (runqueues s ! c) = Some (best, bi)" "best = None \<Longrightarrow> none_allowed e s c"
    "\<And>t. best = Some t \<Longrightarrow> first_allowed e s c t \<and> bi < rq_nr_running (runqueues s ! c) \<and> h ! bi = Some t"
    using scan_best_spec [OF assms h(1)] by blast
  have "rq_peek_best e s c = Some (if r \<noteq> None then r else best)" using assms(3) h(2) r(1) b(1) by (simp add: rq_peek_best_def)
  then show thesis using that r(2) b(2,3) by (cases r; cases best) simp_all
qed

text \<open>
  (C27) When a thread is preempted by another of its core: always when a queued thread that may run on the core has less virtual runtime, and only if one
  has less, or the same and a smaller process id.
\<close>

theorem has_better_correct:
  assumes "env_ok e" "sched_ok s" "c < MAX_CORES"
  shows "\<exists>b. sched_has_better e s (Some cur) c = Some b \<and>
    ((\<exists>t \<in> queued s c. cpu_allowed e (threads s t) c \<and> th_vruntime_ns (threads s t) < th_vruntime_ns (threads s cur)) \<longrightarrow> b) \<and>
    (b \<longrightarrow> (\<exists>t \<in> queued s c. cpu_allowed e (threads s t) c \<and>
       (th_vruntime_ns (threads s t), th_pid (threads s t)) < (th_vruntime_ns (threads s cur), th_pid (threads s cur))))"
proof (rule rq_peek_best_spec [OF assms])
  assume "rq_peek_best e s c = Some None" "none_allowed e s c"
  then show ?thesis using assms(3) by (auto simp: sched_has_better_def none_allowed_def)
next
  fix t assume t: "rq_peek_best e s c = Some (Some t)" "first_allowed e s c t"
  let ?v = "\<lambda>u. th_vruntime_ns (threads s u)"
  have q: "t \<in> queued s c" "cpu_allowed e (threads s t) c" using t(2) by (simp_all add: first_allowed_def)
  have m: "?v t \<le> ?v u" if "u \<in> queued s c" "cpu_allowed e (threads s u) c" for u
    using t(2) that by (auto simp: first_allowed_def rq_key_def)
  have "sched_has_better e s (Some cur) c = Some (?v t < ?v cur \<or> ?v t = ?v cur \<and> th_pid (threads s t) < th_pid (threads s cur))"
    using t(1) assms(3) by (auto simp: sched_has_better_def Let_def)
  moreover have "?v t < ?v cur" if "u \<in> queued s c" "cpu_allowed e (threads s u) c" "?v u < ?v cur" for u
    by (rule le_less_trans [OF m [OF that(1,2)] that(3)])
  ultimately show ?thesis using q by (intro exI conjI) (assumption, blast, auto)
qed

text \<open>A scheduler with one queued thread.\<close>

lemma demo_balance:
  assumes "rq_added 0 0 demo_state s"
  shows "balance_ok (demo_env 4) {0} s"
proof -
  have ok: "sched_ok s" "queued s = (queued demo_state)(0 := insert 0 (queued demo_state 0))" using assms by (simp_all add: rq_added_def)
  have "queued demo_state c = {}" if "c < MAX_CORES" for c
    using that by (simp add: queued_def rq_members_def members_def demo_state_def empty_rq_def)
  then have "queued s c = (if c = 0 then {0} else {})" if "c < MAX_CORES" for c using ok(2) that by simp
  moreover have m: "0 < MAX_CORES" by (simp add: MAX_CORES_def)
  ultimately have q: "all_queued s = {0}" unfolding all_queued_def by (auto split: if_splits)
  have "sched_view (threads s 0) = sched_view (threads demo_state 0)" using assms by (auto simp: rq_added_def)
  then have "free_thread (demo_env 4) s 0" using demo_thread_fit(1,3,5) [of 0] free_thread_same [of s 0 demo_state] by (simp add: free_thread_def)
  moreover have "roomy 1 s" using assms by (simp add: roomy_def rq_added_def rq_change_def demo_state_def empty_rq_def SCHED_RQ_CAPACITY_def)
  ultimately show ?thesis using ok(1) q by (simp add: balance_ok_def)
qed

theorem has_better_correct_witness: "\<exists>b. sched_has_better (demo_env 4) demo_state (Some 1) 0 = Some b"
  using has_better_correct [OF demo_ok(1,3), of 0 1] by (simp add: MAX_CORES_def) blast



end
