(* ===== verification/Proc_Table.thy ===== *)
theory Proc_Table
  imports Hashmap Sched_Dispatch
begin

text \<open>
  The table of processes (\<open>kernel/sched/thread.c\<close>, and the creation of threads in \<open>create.c\<close> and \<open>state.c\<close>):
  process identifiers, the list of all threads, the hash map from identifiers to threads, references
  and the list of threads that wait to be freed.

  The hash map is the one of \<open>Hashmap\<close>: it stores the address of a thread as a 64 bit word.
  The lists of threads are the sequences that \<open>Linked_List\<close> implements: a node is appended
  when it is in no list and unlinked when it is in this one. \<open>procs\<close> adds the part \<open>sched_state.procs\<close>
  to the scheduler state. The result of the allocator for the map, of \<open>calloc\<close> for a thread and
  of the architecture layer are arguments.
\<close>

record procs =
  sched :: sched_state
  pid_index :: "hashmap ptr"
  next_user_pid :: pid_t
  next_kernel_pid :: pid_t
  zombie_list :: "tid list ptr"
  reap_list :: "tid list ptr"

datatype sched_pid_class = SCHED_PID_IDLE | SCHED_PID_USER | SCHED_PID_KERNEL

definition INT_MAX :: int where "INT_MAX = 2147483647"
definition INT_MIN :: int where "INT_MIN = - 2147483648"
definition SCHED_DEFER_QUEUED :: u32 where "SCHED_DEFER_QUEUED = 1"
definition SCHED_DESTROYING :: u32 where "SCHED_DESTROYING = 2"
definition SCHED_WAIT_ABORTED :: u8 where "SCHED_WAIT_ABORTED = 3"

abbreviation thread_of :: "procs \<Rightarrow> tid \<Rightarrow> sched_thread" where
  "thread_of p t \<equiv> threads (sched p) t"

definition put_thread :: "tid \<Rightarrow> (sched_thread \<Rightarrow> sched_thread) \<Rightarrow> procs \<Rightarrow> procs" where
  "put_thread t f p = p\<lparr>sched := upd_thread t f (sched p)\<rparr>"

text \<open>The conversions between \<open>sched_thread_t *\<close> and \<open>u64\<close>.\<close>

definition thread_word :: "tid \<Rightarrow> u64" where "thread_word t = of_nat t"
definition word_thread :: "u64 \<Rightarrow> tid ptr" where "word_thread w = (if w = 0 then None else Some (unat w))"

definition link_node :: "tid \<Rightarrow> tid list \<Rightarrow> tid list" where
  "link_node t xs = (if t \<in> set xs then xs else xs @ [t])"


section \<open>The index of process identifiers\<close>

definition pid_index_key :: "pid_t \<Rightarrow> u64" where
  "pid_index_key pid = ucast (word_of_int pid :: u32)"

definition live_as :: "procs \<Rightarrow> tid ptr \<Rightarrow> pid_t \<Rightarrow> bool" where
  "live_as p thread pid =
     (case thread of None \<Rightarrow> False | Some t \<Rightarrow> th_in_all_list (thread_of p t) \<and> th_pid (thread_of p t) = pid)"

definition pid_get :: "procs \<Rightarrow> pid_t \<Rightarrow> (tid ptr \<times> procs) exec" where
  "pid_get p pid =
     (if pid_index p = None \<or> pid \<le> 0 then Some (None, p)
      else do { (found, encoded) \<leftarrow> hashmap_get (pid_index p) (pid_index_key pid) (Some 0);
                let thread = Option.bind encoded word_thread;
                if \<not> found then Some (None, p)
                else if live_as p thread pid then Some (thread, p)
                else do { (removed, m) \<leftarrow> hashmap_remove (pid_index p) (pid_index_key pid);
                          if \<not> removed then None else Some (None, p\<lparr>pid_index := m\<rparr>) } })"

definition pid_set :: "(size_t \<Rightarrow> bool) \<Rightarrow> procs \<Rightarrow> tid ptr \<Rightarrow> procs exec" where
  "pid_set co p thread =
     (case thread of
        None \<Rightarrow> Some p
      | Some t \<Rightarrow>
          if pid_index p = None \<or> th_pid (thread_of p t) \<le> 0 then Some p
          else do { (inserted, m) \<leftarrow> hashmap_set co (pid_index p) (pid_index_key (th_pid (thread_of p t))) (thread_word t);
                    if \<not> inserted then None else Some (p\<lparr>pid_index := m\<rparr>) })"

definition pid_remove :: "procs \<Rightarrow> pid_t \<Rightarrow> procs exec" where
  "pid_remove p pid =
     (if pid_index p = None \<or> pid \<le> 0 then Some p
      else do { (found, encoded) \<leftarrow> hashmap_get (pid_index p) (pid_index_key pid) (Some 0);
                if \<not> found then Some p
                else do { (removed, m) \<leftarrow> hashmap_remove (pid_index p) (pid_index_key pid);
                          if \<not> removed then None else Some (p\<lparr>pid_index := m\<rparr>) } })"


section \<open>The list of all threads\<close>

definition thread_add :: "(size_t \<Rightarrow> bool) \<Rightarrow> procs \<Rightarrow> tid ptr \<Rightarrow> procs exec" where
  "thread_add co p thread =
     (case (thread, all_list (sched p)) of
        (Some t, Some xs) \<Rightarrow>
          if th_in_all_list (thread_of p t) then Some p
          else pid_set co (put_thread t (\<lambda>x. x\<lparr>th_in_all_list := True\<rparr>)
                             (p\<lparr>sched := (sched p)\<lparr>all_list := Some (link_node t xs)\<rparr>\<rparr>)) thread
      | _ \<Rightarrow> Some p)"

definition cleanup_thread :: "procs \<Rightarrow> tid ptr \<Rightarrow> procs exec" where
  "cleanup_thread p thread =
     (case (thread, all_list (sched p)) of
        (Some t, Some xs) \<Rightarrow>
          if \<not> th_in_all_list (thread_of p t) then Some p
          else do { p \<leftarrow> pid_remove p (th_pid (thread_of p t));
                    Some (put_thread t (\<lambda>x. x\<lparr>th_in_all_list := False\<rparr>)
                            (p\<lparr>sched := (sched p)\<lparr>all_list := Some (remove1 t xs)\<rparr>\<rparr>)) }
      | _ \<Rightarrow> Some p)"

definition thread_cleanup :: "procs \<Rightarrow> tid ptr \<Rightarrow> procs exec" where
  "thread_cleanup p thread =
     (if thread = None \<or> all_list (sched p) = None then Some p else cleanup_thread p thread)"

fun find_listed :: "procs \<Rightarrow> pid_t \<Rightarrow> tid list \<Rightarrow> tid ptr" where
  "find_listed p pid [] = None"
| "find_listed p pid (t # ts) = (if th_pid (thread_of p t) = pid then Some t else find_listed p pid ts)"

definition find_thread :: "(size_t \<Rightarrow> bool) \<Rightarrow> procs \<Rightarrow> pid_t \<Rightarrow> (tid ptr \<times> procs) exec" where
  "find_thread co p pid =
     (case all_list (sched p) of
        None \<Rightarrow> Some (None, p)
      | Some xs \<Rightarrow>
          do { (thread, p) \<leftarrow> pid_get p pid;
               if thread \<noteq> None then Some (thread, p)
               else case find_listed p pid xs of
                      None \<Rightarrow> Some (None, p)
                    | Some t \<Rightarrow> do { p \<leftarrow> pid_set co p (Some t); Some (Some t, p) } })"


section \<open>References\<close>

definition thread_get :: "tid ptr \<Rightarrow> procs \<Rightarrow> procs" where
  "thread_get thread p =
     (case thread of None \<Rightarrow> p | Some t \<Rightarrow> put_thread t (\<lambda>x. x\<lparr>th_refcount := th_refcount x + 1\<rparr>) p)"

definition defer_free :: "tid \<Rightarrow> procs \<Rightarrow> procs" where
  "defer_free t p =
     (case reap_list p of
        None \<Rightarrow> p
      | Some ys \<Rightarrow> if th_in_reap_list (thread_of p t) then p
                    else put_thread t (\<lambda>x. x\<lparr>th_in_reap_list := True\<rparr>) (p\<lparr>reap_list := Some (link_node t ys)\<rparr>))"

definition thread_put :: "tid ptr \<Rightarrow> procs \<Rightarrow> procs" where
  "thread_put thread p =
     (case thread of
        None \<Rightarrow> p
      | Some t \<Rightarrow>
          let old_refs = th_refcount (thread_of p t);
              p = put_thread t (\<lambda>x. x\<lparr>th_refcount := th_refcount x - 1\<rparr>) p
          in if old_refs = 0 then put_thread t (\<lambda>x. x\<lparr>th_refcount := th_refcount x + 1\<rparr>) p
             else if old_refs \<noteq> 1 then p
             else let old_flags = th_lifecycle_flags (thread_of p t);
                      p = put_thread t (\<lambda>x. x\<lparr>th_lifecycle_flags := th_lifecycle_flags x OR SCHED_DEFER_QUEUED\<rparr>) p
                  in if old_flags AND SCHED_DEFER_QUEUED \<noteq> 0 then p else defer_free t p)"

definition sched_find_thread :: "(size_t \<Rightarrow> bool) \<Rightarrow> procs \<Rightarrow> pid_t \<Rightarrow> (tid ptr \<times> procs) exec" where
  "sched_find_thread co p pid =
     do { (thread, p) \<leftarrow> find_thread co p pid;
          Some (if live_as p thread pid then (thread, thread_get thread p) else (None, p)) }"

definition sched_pid_alive :: "(size_t \<Rightarrow> bool) \<Rightarrow> procs \<Rightarrow> pid_t \<Rightarrow> (bool \<times> procs) exec" where
  "sched_pid_alive co p pid =
     (if pid \<le> 0 then Some (False, p)
      else do { (thread, p) \<leftarrow> find_thread co p pid;
                Some (case thread of
                        None \<Rightarrow> False
                      | Some t \<Rightarrow> live_as p thread pid \<and> thread_get_state (sched p) thread \<noteq> THREAD_ZOMBIE \<and>
                                   th_lifecycle_flags (thread_of p t) AND SCHED_DESTROYING = 0, p) })"


section \<open>Creation\<close>

definition sched_next_pid :: "procs \<Rightarrow> sched_pid_class \<Rightarrow> (pid_t \<times> procs) exec" where
  "sched_next_pid p pid_class =
     (case pid_class of
        SCHED_PID_IDLE \<Rightarrow> Some (0, p)
      | SCHED_PID_USER \<Rightarrow>
          if next_user_pid p \<le> 0 \<or> next_user_pid p = INT_MAX then None
          else Some (next_user_pid p, p\<lparr>next_user_pid := next_user_pid p + 1\<rparr>)
      | SCHED_PID_KERNEL \<Rightarrow>
          if 0 \<le> next_kernel_pid p \<or> next_kernel_pid p = INT_MIN then None
          else Some (next_kernel_pid p, p\<lparr>next_kernel_pid := next_kernel_pid p - 1\<rparr>))"

definition inherit_session :: "sched_thread ptr \<Rightarrow> bool \<Rightarrow> sched_thread \<Rightarrow> sched_thread" where
  "inherit_session parent user_thread x =
     (if user_thread then
        (case parent of
           Some y \<Rightarrow>
             if th_user_thread y \<and> 0 < th_pid y
             then x\<lparr>th_pgid := th_pgid y, th_sid := th_sid y, th_allowed_cpu_mask := th_allowed_cpu_mask y,
                    th_affinity_user_set := th_affinity_user_set y, th_vruntime_ns := th_vruntime_ns y\<rparr>
             else x\<lparr>th_pgid := th_pid x, th_sid := th_pid x\<rparr>
         | None \<Rightarrow> x\<lparr>th_pgid := th_pid x, th_sid := th_pid x\<rparr>)
      else x\<lparr>th_pgid := 0, th_sid := 0\<rparr>)"

definition inherit_creds :: "sched_thread ptr \<Rightarrow> sched_thread \<Rightarrow> sched_thread" where
  "inherit_creds parent x =
     (case parent of
        None \<Rightarrow> x\<lparr>th_ruid := 0, th_uid := 0, th_suid := 0, th_rgid := 0, th_gid := 0, th_sgid := 0, th_group_count := 0,
                   th_umask := 18, th_tty_index := -1\<rparr>
      | Some y \<Rightarrow>
          x\<lparr>th_ruid := th_ruid y, th_uid := th_uid y, th_suid := th_suid y, th_rgid := th_rgid y, th_gid := th_gid y, th_sgid := th_sgid y,
             th_group_count := th_group_count y, th_groups := (if th_group_count y \<noteq> 0 then th_groups y else th_groups x),
             th_umask := th_umask y, th_tty_index := th_tty_index y\<rparr>)"

definition sched_signal_init :: "sched_thread \<Rightarrow> sched_thread" where
  "sched_signal_init x =
     x\<lparr>th_signal_handlers := replicate (length (th_signal_handlers x)) 0, th_signal_pending := 0, th_signal_mask := 0,
       th_current_signal := 0, th_signal_saved_valid := 0, th_signal_trampoline := 0\<rparr>"

text \<open>The fields of a thread that \<open>calloc\<close> has zeroed, up to the allocation of its stack.\<close>

definition init_thread :: "sched_env \<Rightarrow> u64 \<Rightarrow> pid_t \<Rightarrow> bool \<Rightarrow> sched_thread ptr \<Rightarrow> sched_thread" where
  "init_thread e online pid user_thread parent =
     (inherit_creds parent (inherit_session parent user_thread
       (zero_thread\<lparr>th_state := THREAD_READY, th_affinity_core := MAX_CORES, th_last_cpu := env_cpu_id e, th_allowed_cpu_mask := online,
          th_affinity_user_set := False, th_vruntime_ns := 0, th_sum_exec_ns := 0, th_refcount := 1, th_lifecycle_flags := 0,
          th_user_thread := user_thread, th_pid := pid, th_ppid := 0, th_rq_index := UINT32_MAX, th_running_cpu := -1\<rparr>)))
     \<lparr>th_sleep_queued := False, th_sleep_index := 0, th_wait_deadline_tick := 0, th_wait_flags := 0,
      th_wait_result := SCHED_WAIT_ABORTED, th_wait_cookie := 0\<rparr>"

text \<open>
  \<open>addr\<close> is what \<open>calloc\<close> returns; \<open>stack_ok\<close> and \<open>vm_ok\<close> tell whether the stack and the address
  space could be allocated, and \<open>ctx\<close> is the context built on a kernel stack.
\<close>

definition create_thread ::
  "(size_t \<Rightarrow> bool) \<Rightarrow> sched_env \<Rightarrow> procs \<Rightarrow> tid ptr \<Rightarrow> bool \<Rightarrow> bool \<Rightarrow> u64 \<Rightarrow> bool \<Rightarrow> bool \<Rightarrow> sched_pid_class \<Rightarrow>
   (tid ptr \<times> procs) exec" where
  "create_thread co e p addr stack_ok vm_ok ctx enqueue user_thread pid_class =
     (case addr of
        None \<Rightarrow> Some (None, p)
      | Some t \<Rightarrow>
          do { online \<leftarrow> sched_online_cpu_mask e;
               (pid, p) \<leftarrow> sched_next_pid p pid_class;
               parent \<leftarrow> sched_local_current e (sched p);
               let x = init_thread e online pid user_thread (map_option (thread_of p) parent);
               if \<not> stack_ok \<or> user_thread \<and> \<not> vm_ok then Some (None, p)
               else do { p \<leftarrow> thread_add co
                            (put_thread t (\<lambda>_. sched_signal_init (if user_thread then x else x\<lparr>th_context := ctx\<rparr>)) p) (Some t);
                         if enqueue
                         then do { s \<leftarrow> enqueue_thread e (sched p) (Some t); Some (Some t, p\<lparr>sched := s\<rparr>) }
                         else Some (Some t, p) } })"

definition sched_spawn_kernel ::
  "(size_t \<Rightarrow> bool) \<Rightarrow> sched_env \<Rightarrow> procs \<Rightarrow> tid ptr \<Rightarrow> bool \<Rightarrow> u64 \<Rightarrow> (tid ptr \<times> procs) exec" where
  "sched_spawn_kernel co e p addr stack_ok ctx = create_thread co e p addr stack_ok False ctx True False SCHED_PID_KERNEL"

definition sched_create_user_thread ::
  "(size_t \<Rightarrow> bool) \<Rightarrow> sched_env \<Rightarrow> procs \<Rightarrow> tid ptr \<Rightarrow> bool \<Rightarrow> bool \<Rightarrow> (tid ptr \<times> procs) exec" where
  "sched_create_user_thread co e p addr stack_ok vm_ok = create_thread co e p addr stack_ok vm_ok 0 False True SCHED_PID_USER"

text \<open>What \<open>fork\<close> copies from its parent into the child it created (the fields of the model).\<close>

definition copy_fork_state :: "tid \<Rightarrow> tid \<Rightarrow> procs \<Rightarrow> procs" where
  "copy_fork_state child parent p =
     (let y = thread_of p parent
      in put_thread child (\<lambda>x. x\<lparr>th_ppid := th_pid y, th_pgid := th_pgid y, th_sid := th_sid y, th_umask := th_umask y,
           th_signal_handlers := th_signal_handlers y, th_signal_mask := th_signal_mask y, th_signal_trampoline := th_signal_trampoline y,
           th_signal_pending := 0, th_signal_saved_valid := 0, th_current_signal := 0, th_tty_index := th_tty_index y\<rparr>) p)"


section \<open>The invariant of the table\<close>

definition listed :: "procs \<Rightarrow> tid list" where
  "listed p = (case all_list (sched p) of None \<Rightarrow> [] | Some xs \<Rightarrow> xs)"

definition pids_unique :: "procs \<Rightarrow> bool" where
  "pids_unique p \<longleftrightarrow> (\<forall>t \<in> set (listed p). \<forall>u \<in> set (listed p). 0 < th_pid (thread_of p t) \<and> th_pid (thread_of p u) = th_pid (thread_of p t) \<longrightarrow> u = t)"

definition index_exact :: "procs \<Rightarrow> bool" where
  "index_exact p \<longleftrightarrow> hmp_inv (pid_index p) \<and>
     (\<forall>k v. hmp_content (pid_index p) k = Some v \<longleftrightarrow>
        (\<exists>t \<in> set (listed p). 0 < th_pid (thread_of p t) \<and> k = pid_index_key (th_pid (thread_of p t)) \<and> v = thread_word t))"

definition reap_queued :: "procs \<Rightarrow> bool" where
  "reap_queued p \<longleftrightarrow> (\<exists>ys. reap_list p = Some ys \<and> distinct ys \<and>
     (\<forall>t. th_in_reap_list (thread_of p t) \<longleftrightarrow> t \<in> set ys) \<and>
     (\<forall>t \<in> set ys. th_lifecycle_flags (thread_of p t) AND SCHED_DEFER_QUEUED \<noteq> 0))"

definition procs_ok :: "procs \<Rightarrow> bool" where
  "procs_ok p \<longleftrightarrow> all_list (sched p) \<noteq> None \<and> distinct (listed p) \<and>
     (\<forall>t. th_in_all_list (thread_of p t) \<longleftrightarrow> t \<in> set (listed p)) \<and>
     (\<forall>t \<in> set (listed p). 0 < t \<and> t < 2 ^ 64 \<and> th_pid (thread_of p t) < next_user_pid p) \<and>
     1 \<le> next_user_pid p \<and> next_user_pid p \<le> INT_MAX \<and> pids_unique p \<and> index_exact p"

lemma thread_word_inverse: "0 < t \<Longrightarrow> t < 2 ^ 64 \<Longrightarrow> word_thread (thread_word t) = Some t"
  by (auto simp: word_thread_def thread_word_def unat_of_nat take_bit_nat_eq_self word_of_nat_eq_0_iff dvd_imp_le)

lemma pid_key_inj:
  assumes "pid_index_key a = pid_index_key b" "0 < a" "a \<le> INT_MAX" "0 < b" "b \<le> INT_MAX"
  shows "a = b"
proof -
  have "uint (pid_index_key a) = a" if "0 < a" "a \<le> INT_MAX" for a
    using that by (simp add: pid_index_key_def INT_MAX_def unsigned_ucast_eq uint_word_of_int take_bit_int_eq_self)
  then show ?thesis using assms by metis
qed

lemma procs_okD:
  assumes "procs_ok p"
  shows "all_list (sched p) = Some (listed p)" "distinct (listed p)" "th_in_all_list (thread_of p t) \<longleftrightarrow> t \<in> set (listed p)"
    "t \<in> set (listed p) \<Longrightarrow> 0 < t \<and> t < 2 ^ 64 \<and> th_pid (thread_of p t) < next_user_pid p" "1 \<le> next_user_pid p" "next_user_pid p \<le> INT_MAX"
    "pids_unique p" "hmp_inv (pid_index p)" "pid_index p \<noteq> None"
    "hmp_content (pid_index p) k = Some v \<longleftrightarrow>
       (\<exists>t \<in> set (listed p). 0 < th_pid (thread_of p t) \<and> k = pid_index_key (th_pid (thread_of p t)) \<and> v = thread_word t)"
  using assms by (auto simp: procs_ok_def index_exact_def listed_def hmp_inv_def split: option.splits)

lemma procs_ok_cong:
  assumes "procs_ok p" "all_list (sched q) = all_list (sched p)" "pid_index q = pid_index p" "next_user_pid q = next_user_pid p"
    "\<And>t. th_pid (thread_of q t) = th_pid (thread_of p t) \<and> th_in_all_list (thread_of q t) = th_in_all_list (thread_of p t)"
  shows "procs_ok q"
  using assms by (simp add: procs_ok_def pids_unique_def index_exact_def listed_def)

lemma pids_uniqueD:
  "pids_unique p \<Longrightarrow> t \<in> set (listed p) \<Longrightarrow> u \<in> set (listed p) \<Longrightarrow> 0 < th_pid (thread_of p t) \<Longrightarrow>
    th_pid (thread_of p u) = th_pid (thread_of p t) \<Longrightarrow> u = t"
  by (simp add: pids_unique_def)

text \<open>What the map holds under the key of an identifier.\<close>

lemma index_content:
  assumes ok: "procs_ok p" and "0 < pid" "pid \<le> INT_MAX"
  shows "t \<in> set (listed p) \<Longrightarrow> th_pid (thread_of p t) = pid \<Longrightarrow> hmp_content (pid_index p) (pid_index_key pid) = Some (thread_word t)"
    and "\<nexists>t. t \<in> set (listed p) \<and> th_pid (thread_of p t) = pid \<Longrightarrow> hmp_content (pid_index p) (pid_index_key pid) = None"
proof -
  show "hmp_content (pid_index p) (pid_index_key pid) = Some (thread_word t)" if "t \<in> set (listed p)" "th_pid (thread_of p t) = pid"
    using procs_okD(10) [OF ok] that assms(2) by blast
  show "hmp_content (pid_index p) (pid_index_key pid) = None" if n: "\<nexists>t. t \<in> set (listed p) \<and> th_pid (thread_of p t) = pid"
  proof (rule ccontr)
    assume "hmp_content (pid_index p) (pid_index_key pid) \<noteq> None"
    then obtain v where "hmp_content (pid_index p) (pid_index_key pid) = Some v" by blast
    then obtain t where t: "t \<in> set (listed p)" "0 < th_pid (thread_of p t)" "pid_index_key pid = pid_index_key (th_pid (thread_of p t))"
      using procs_okD(10) [OF ok] by blast
    have "th_pid (thread_of p t) \<le> INT_MAX" using procs_okD(4) [OF ok t(1)] procs_okD(6) [OF ok] by linarith
    then have "pid = th_pid (thread_of p t)" using pid_key_inj [OF t(3)] assms(2,3) t(2) by blast
    then show False using n t(1) by blast
  qed
qed

lemma hashmap_get_content:
  assumes "hmp_inv hm"
  shows "hashmap_get hm k (Some 0) = Some (case hmp_content hm k of None \<Rightarrow> (False, Some 0) | Some v \<Rightarrow> (True, Some v))"
  using assms hashmap_get_spec [of _ k "Some 0"] by (cases hm) (auto simp: hmp_inv_def hmp_content_def split: option.splits)

lemma find_listed_None: "find_listed p pid xs = None \<longleftrightarrow> (\<forall>t \<in> set xs. th_pid (thread_of p t) \<noteq> pid)"
  by (induction xs) auto

lemma find_listed_Some: "find_listed p pid xs = Some t \<Longrightarrow> t \<in> set xs \<and> th_pid (thread_of p t) = pid"
  by (induction xs) (auto split: if_splits)

lemma pid_get_spec:
  assumes ok: "procs_ok p" and "pid \<le> INT_MAX"
  shows "pid_get p pid = Some (if 0 < pid then find_listed p pid (listed p) else None, p)"
proof (cases "0 < pid")
  case pos: True
  note g = hashmap_get_content [OF procs_okD(8) [OF ok], of "pid_index_key pid"]
  show ?thesis
  proof (cases "find_listed p pid (listed p)")
    case None
    then have "hmp_content (pid_index p) (pid_index_key pid) = None" using index_content(2) [OF ok pos assms(2)] by (auto simp: find_listed_None)
    then show ?thesis using g pos None by (simp add: pid_get_def)
  next
    case (Some t)
    note t = find_listed_Some [OF Some]
    then have "live_as p (Some t) pid" using procs_okD(3) [OF ok] by (simp add: live_as_def)
    moreover have "word_thread (thread_word t) = Some t" using thread_word_inverse procs_okD(4) [OF ok] t by blast
    moreover have "hmp_content (pid_index p) (pid_index_key pid) = Some (thread_word t)" using index_content(1) [OF ok pos assms(2)] t by blast
    ultimately show ?thesis using g pos procs_okD(9) [OF ok] Some by (simp add: pid_get_def)
  qed
qed (simp add: pid_get_def)

text \<open>With an exact index a lookup never changes the table and never needs the allocator.\<close>

lemma find_thread_spec:
  assumes ok: "procs_ok p" and "pid \<le> INT_MAX"
  shows "find_thread co p pid = Some (find_listed p pid (listed p), p)"
proof (cases "find_listed p pid (listed p)")
  case None
  then show ?thesis using pid_get_spec [OF assms] procs_okD(1) [OF ok] by (simp add: find_thread_def)
next
  case (Some t)
  have "th_pid (thread_of p t) = pid" using find_listed_Some [OF Some] by simp
  then show ?thesis using pid_get_spec [OF assms] procs_okD(1) [OF ok] Some by (auto simp: find_thread_def pid_set_def)
qed

lemma put_thread_simps [simp]:
  "thread_of (put_thread t f p) u = (if u = t then f (thread_of p t) else thread_of p u)"
  "all_list (sched (put_thread t f p)) = all_list (sched p)" "listed (put_thread t f p) = listed p"
  "pid_index (put_thread t f p) = pid_index p" "next_user_pid (put_thread t f p) = next_user_pid p" "next_kernel_pid (put_thread t f p) = next_kernel_pid p"
  "reap_list (put_thread t f p) = reap_list p" "zombie_list (put_thread t f p) = zombie_list p"
  "sched (put_thread t f p) = upd_thread t f (sched p)"
  by (simp_all add: put_thread_def listed_def)

definition added :: "tid \<Rightarrow> hashmap ptr \<Rightarrow> procs \<Rightarrow> procs" where
  "added t m p = put_thread t (\<lambda>x. x\<lparr>th_in_all_list := True\<rparr>) (p\<lparr>pid_index := m, sched := (sched p)\<lparr>all_list := Some (listed p @ [t])\<rparr>\<rparr>)"

text \<open>Adding a thread under a new identifier: only a failing allocator stops it, by a panic.\<close>

lemma thread_add_spec:
  assumes ok: "procs_ok p" and t: "t \<notin> set (listed p)" "0 < t" "t < 2 ^ 64"
    and pid: "th_pid (thread_of p t) < next_user_pid p" "0 < th_pid (thread_of p t) \<Longrightarrow> \<forall>u \<in> set (listed p). th_pid (thread_of p u) \<noteq> th_pid (thread_of p t)"
  obtains "0 < th_pid (thread_of p t)" "thread_add co p (Some t) = None"
      "map_option fst (hashmap_set co (pid_index p) (pid_index_key (th_pid (thread_of p t))) (thread_word t)) = Some False"
  | m where "thread_add co p (Some t) = Some (added t m p)" "procs_ok (added t m p)"
proof -
  let ?q = "\<lambda>m. added t m p"
  let ?k = "pid_index_key (th_pid (thread_of p t))" and ?pid = "th_pid (thread_of p t)"
  have nl: "\<not> th_in_all_list (thread_of p t)" using procs_okD(3) [OF ok] t(1) by blast
  have l: "link_node t (listed p) = listed p @ [t]" using t(1) by (simp add: link_node_def)
  have q: "listed (?q m) = listed p @ [t]" "th_pid (thread_of (?q m) u) = th_pid (thread_of p u)" for m u by (simp_all add: added_def listed_def)
  have uniq: "pids_unique (?q m)" for m using procs_okD(7) [OF ok] pid(2) unfolding pids_unique_def q by auto
  have lst: "th_in_all_list (thread_of (?q m) u) \<longleftrightarrow> u \<in> set (listed p @ [t])" for m u using procs_okD(3) [OF ok, of u] by (simp add: added_def)
  have okq: "procs_ok (?q m)" if "hmp_inv m" "hmp_content m = (if 0 < ?pid then (hmp_content (pid_index p))(?k \<mapsto> thread_word t) else hmp_content (pid_index p))" for m
  proof -
    have dis: "u \<in> set (listed p) \<Longrightarrow> 0 < ?pid \<Longrightarrow> 0 < th_pid (thread_of p u) \<Longrightarrow> pid_index_key (th_pid (thread_of p u)) \<noteq> ?k" for u
      using pid_key_inj [of "th_pid (thread_of p u)" ?pid] procs_okD(4) [OF ok, of u] procs_okD(6) [OF ok] pid by fastforce
    have i: "pid_index (?q m) = m" "next_user_pid (?q m) = next_user_pid p" by (simp_all add: added_def)
    have "index_exact (?q m)" unfolding index_exact_def q i
      using that procs_okD(10) [OF ok] dis by (auto split: if_splits) blast
    moreover have "distinct (listed p @ [t])" using procs_okD(2) [OF ok] t(1) by simp
    moreover have "\<forall>u \<in> set (listed p @ [t]). 0 < u \<and> u < 2 ^ 64 \<and> th_pid (thread_of p u) < next_user_pid p"
      using procs_okD(4) [OF ok] t pid(1) by auto
    ultimately show ?thesis unfolding procs_ok_def q lst i using uniq procs_okD(5,6) [OF ok] by (simp add: added_def)
  qed
  show thesis
  proof (cases "0 < ?pid")
    case True
    obtain b m where m: "hashmap_set co (pid_index p) ?k (thread_word t) = Some (b, m)" "hmp_inv m"
      "hmp_content m = (if b then (hmp_content (pid_index p))(?k \<mapsto> thread_word t) else hmp_content (pid_index p))"
      using int_map.put_law [OF procs_okD(8) [OF ok], where k = ?k and v = "thread_word t" and co = co] by blast
    show thesis
    proof (cases b)
      case b: True
      have "thread_add co p (Some t) = Some (?q m)"
        using nl procs_okD(1,9) [OF ok] True m(1) b l by (auto simp add: thread_add_def pid_set_def put_thread_def upd_thread_def added_def)
      then show thesis using that(2) [of m] okq [of m] m b True by simp
    next
      case False
      then have "thread_add co p (Some t) = None"
        using nl procs_okD(1,9) [OF ok] True m(1) l by (auto simp add: thread_add_def pid_set_def put_thread_def upd_thread_def added_def)
      then show thesis using that(1) True m(1) False by simp
    qed
  next
    case False
    then have "thread_add co p (Some t) = Some (?q (pid_index p))"
      using nl procs_okD(1,9) [OF ok] l by (auto simp add: thread_add_def pid_set_def put_thread_def upd_thread_def added_def)
    then show thesis using that(2) [of "pid_index p"] okq [of "pid_index p"] procs_okD(8) [OF ok] False by simp
  qed
qed

definition dropped :: "tid \<Rightarrow> hashmap ptr \<Rightarrow> procs \<Rightarrow> procs" where
  "dropped t m p = put_thread t (\<lambda>x. x\<lparr>th_in_all_list := False\<rparr>) (p\<lparr>pid_index := m, sched := (sched p)\<lparr>all_list := Some (remove1 t (listed p))\<rparr>\<rparr>)"

lemma cleanup_thread_spec:
  assumes ok: "procs_ok p" and t: "t \<in> set (listed p)"
  obtains m where "cleanup_thread p (Some t) = Some (dropped t m p)" "procs_ok (dropped t m p)"
proof -
  let ?pid = "th_pid (thread_of p t)" and ?k = "pid_index_key (th_pid (thread_of p t))"
  have il: "th_in_all_list (thread_of p t)" using procs_okD(3) [OF ok] t by blast
  obtain m0 where m0: "hashmap_remove (pid_index p) ?k = Some (?k \<in> dom (hmp_content (pid_index p)), m0)" "hmp_inv m0"
    "hmp_content m0 = (hmp_content (pid_index p))(?k := None)"
    using int_map.del_law [OF procs_okD(8) [OF ok], of ?k] by blast
  define m where "m = (if 0 < ?pid then m0 else pid_index p)"
  have le: "?pid \<le> INT_MAX" using procs_okD(4) [OF ok t] procs_okD(6) [OF ok] by linarith
  have c: "0 < ?pid \<Longrightarrow> hmp_content (pid_index p) ?k = Some (thread_word t)" using index_content(1) [OF ok _ le t] by simp
  have "pid_remove p ?pid = Some (p\<lparr>pid_index := m\<rparr>)"
    using m0(1) c hashmap_get_content [OF procs_okD(8) [OF ok], of ?k] procs_okD(9) [OF ok] by (auto simp: pid_remove_def m_def dom_def)
  then have e: "cleanup_thread p (Some t) = Some (dropped t m p)"
    using il procs_okD(1) [OF ok] by (simp add: cleanup_thread_def dropped_def)
  have q: "listed (dropped t m p) = remove1 t (listed p)" "th_pid (thread_of (dropped t m p) u) = th_pid (thread_of p u)"
    "pid_index (dropped t m p) = m" "next_user_pid (dropped t m p) = next_user_pid p" for u by (simp_all add: dropped_def listed_def)
  have s: "set (remove1 t (listed p)) = set (listed p) - {t}" using procs_okD(2) [OF ok] by simp
  have lst: "th_in_all_list (thread_of (dropped t m p) u) \<longleftrightarrow> u \<in> set (listed p) - {t}" for u using procs_okD(3) [OF ok, of u] by (simp add: dropped_def)
  have key: "pid_index_key (th_pid (thread_of p u)) \<noteq> ?k" if "u \<in> set (listed p)" "u \<noteq> t" "0 < th_pid (thread_of p u)" "0 < ?pid" for u
  proof
    assume "pid_index_key (th_pid (thread_of p u)) = ?k"
    moreover have "th_pid (thread_of p u) \<le> INT_MAX" using procs_okD(4) [OF ok that(1)] procs_okD(6) [OF ok] by linarith
    ultimately have "th_pid (thread_of p u) = ?pid" using pid_key_inj that le by blast
    then show False using pids_uniqueD [OF procs_okD(7) [OF ok] t that(1,4)] that(2) by simp
  qed
  have "hmp_content m k = Some v \<longleftrightarrow> (\<exists>u \<in> set (listed p) - {t}. 0 < th_pid (thread_of p u) \<and> k = pid_index_key (th_pid (thread_of p u)) \<and> v = thread_word u)" for k v
  proof (cases "0 < ?pid \<and> k = ?k")
    case True
    then show ?thesis using key by (auto simp: m_def m0(3)) blast
  next
    case False
    then have "hmp_content m k = hmp_content (pid_index p) k" by (auto simp: m_def m0(3))
    then show ?thesis using procs_okD(10) [OF ok, of k v] False by auto
  qed
  then have "index_exact (dropped t m p)" unfolding index_exact_def q s using m0(2) procs_okD(8) [OF ok] by (simp add: m_def)
  moreover have "pids_unique (dropped t m p)" using procs_okD(7) [OF ok] unfolding pids_unique_def q s by blast
  ultimately have "procs_ok (dropped t m p)" unfolding procs_ok_def q s lst
    using procs_okD(2,4-6) [OF ok] by (simp add: dropped_def)
  then show thesis using that [of m] e by blast
qed

section \<open>Operations on the table\<close>

text \<open>The table together with the run queues, and what memory returned by the allocator is: no part of a live thread.\<close>

definition procs_inv :: "procs \<Rightarrow> bool" where
  "procs_inv p \<longleftrightarrow> procs_ok p \<and> reap_queued p \<and> sched_ok (sched p)"

definition fresh_thread :: "procs \<Rightarrow> tid \<Rightarrow> bool" where
  "fresh_thread p t \<longleftrightarrow> t \<notin> set (listed p) \<and> 0 < t \<and> t < 2 ^ 64 \<and> \<not> th_on_rq (thread_of p t) \<and> \<not> th_in_reap_list (thread_of p t)"

text \<open>The thread up to what the run queues change.\<close>

definition same_thread :: "sched_thread \<Rightarrow> sched_thread \<Rightarrow> bool" where
  "same_thread x y \<longleftrightarrow> rq_erase x = rq_erase y"

lemma same_thread_refl [simp]: "same_thread x x"
  by (simp add: same_thread_def)

lemma same_threadD:
  assumes "same_thread x y"
  shows "th_pid x = th_pid y" "th_ppid x = th_ppid y" "th_pgid x = th_pgid y" "th_sid x = th_sid y" "th_user_thread x = th_user_thread y"
    "th_in_all_list x = th_in_all_list y" "th_in_reap_list x = th_in_reap_list y" "th_lifecycle_flags x = th_lifecycle_flags y"
    "th_refcount x = th_refcount y"
proof -
  have f: "f (rq_erase x) = f (rq_erase y)" for f :: "sched_thread \<Rightarrow> 'a" using assms by (simp add: same_thread_def)
  show "th_pid x = th_pid y" "th_ppid x = th_ppid y" "th_pgid x = th_pgid y" "th_sid x = th_sid y" "th_user_thread x = th_user_thread y"
    "th_in_all_list x = th_in_all_list y" "th_in_reap_list x = th_in_reap_list y" "th_lifecycle_flags x = th_lifecycle_flags y"
    "th_refcount x = th_refcount y"
    using f [of th_pid] f [of th_ppid] f [of th_pgid] f [of th_sid] f [of th_user_thread] f [of th_in_all_list] f [of th_in_reap_list]
      f [of th_lifecycle_flags] f [of th_refcount] by (simp_all add: rq_erase_def)
qed

lemma handled_thread: "handled t s s' \<Longrightarrow> same_thread (threads s' u) (threads s u)"
  using handledD(2) [of t s s' u] handledD(3) [of t s s'] by (cases "u = t") (auto simp: same_thread_def rq_erase_def set_rq_index_def)

lemma sched_ok_all_list [simp]: "sched_ok (s\<lparr>all_list := a\<rparr>) \<longleftrightarrow> sched_ok s"
  by (simp add: sched_ok_def cores_ok_def queued_def [abs_def])

lemma init_thread_simps [simp]:
  "th_pid (init_thread e m pid b y) = pid" "th_in_all_list (init_thread e m pid b y) = False" "th_in_reap_list (init_thread e m pid b y) = False"
  "th_on_rq (init_thread e m pid b y) = False" "th_in_run_queue (init_thread e m pid b y) = False"
  "th_rq_index (init_thread e m pid b y) = UINT32_MAX" "th_user_thread (init_thread e m pid b y) = b" "th_refcount (init_thread e m pid b y) = 1"
  by (simp_all add: init_thread_def inherit_creds_def inherit_session_def zero_thread_def split: option.splits)

lemma init_thread_session:
  "th_pgid (init_thread e m pid b y) = (if b then case y of Some z \<Rightarrow> if th_user_thread z \<and> 0 < th_pid z then th_pgid z else pid | None \<Rightarrow> pid else 0)"
  "th_sid (init_thread e m pid b y) = (if b then case y of Some z \<Rightarrow> if th_user_thread z \<and> 0 < th_pid z then th_sid z else pid | None \<Rightarrow> pid else 0)"
  by (simp_all add: init_thread_def inherit_creds_def inherit_session_def zero_thread_def split: option.splits)

lemma signal_init_simps [simp]:
  "th_pid (sched_signal_init x) = th_pid x" "th_pgid (sched_signal_init x) = th_pgid x" "th_sid (sched_signal_init x) = th_sid x"
  "th_in_all_list (sched_signal_init x) = th_in_all_list x" "th_in_reap_list (sched_signal_init x) = th_in_reap_list x"
  "th_on_rq (sched_signal_init x) = th_on_rq x" "th_in_run_queue (sched_signal_init x) = th_in_run_queue x"
  "th_rq_index (sched_signal_init x) = th_rq_index x" "th_user_thread (sched_signal_init x) = th_user_thread x"
  by (simp_all add: sched_signal_init_def)

lemma procs_ok_bump:
  assumes "procs_ok p" "next_user_pid p \<le> n" "n \<le> INT_MAX"
  shows "procs_ok (p\<lparr>next_user_pid := n\<rparr>)" "procs_ok (p\<lparr>next_kernel_pid := k\<rparr>)"
proof -
  have l: "listed (p\<lparr>next_user_pid := n\<rparr>) = listed p" by (simp add: listed_def)
  have "\<forall>t \<in> set (listed p). 0 < t \<and> t < 2 ^ 64 \<and> th_pid (thread_of p t) < n" using procs_okD(4) [OF assms(1)] assms(2) by fastforce
  then show "procs_ok (p\<lparr>next_user_pid := n\<rparr>)" using assms unfolding procs_ok_def pids_unique_def index_exact_def l by simp
  show "procs_ok (p\<lparr>next_kernel_pid := k\<rparr>)" by (rule procs_ok_cong [OF assms(1)]) simp_all
qed

lemma next_pid_spec:
  assumes ok: "procs_ok p" and r: "sched_next_pid p cls = Some (pid, q)"
  shows "procs_ok q" "sched q = sched p" "reap_list q = reap_list p" "pid_index q = pid_index p" "pid < next_user_pid q" "next_user_pid p \<le> next_user_pid q"
    "0 < pid \<Longrightarrow> pid = next_user_pid p" "(cls = SCHED_PID_USER) = (0 < pid)"
proof -
  show "procs_ok q"
    using r ok procs_ok_bump(1) [OF ok, of "next_user_pid p + 1"] procs_ok_bump(2) [OF ok order_refl procs_okD(6) [OF ok]] procs_okD(6) [OF ok]
    by (simp add: sched_next_pid_def split: sched_pid_class.splits if_splits) auto
  show "sched q = sched p" "reap_list q = reap_list p" "pid_index q = pid_index p" "pid < next_user_pid q" "next_user_pid p \<le> next_user_pid q"
    "0 < pid \<Longrightarrow> pid = next_user_pid p" "(cls = SCHED_PID_USER) = (0 < pid)"
    using r procs_okD(5) [OF ok] by (auto simp: sched_next_pid_def split: sched_pid_class.splits if_splits)
qed

lemma procs_invD:
  assumes "procs_inv p"
  shows "procs_ok p" "reap_queued p" "sched_ok (sched p)"
  using assms by (simp_all add: procs_inv_def)

lemma reap_queued_cong:
  assumes "reap_queued p" "reap_list q = reap_list p"
    "\<And>t. th_in_reap_list (thread_of q t) = th_in_reap_list (thread_of p t)"
    "\<And>t. th_in_reap_list (thread_of p t) \<Longrightarrow> th_lifecycle_flags (thread_of p t) AND SCHED_DEFER_QUEUED \<noteq> 0 \<Longrightarrow>
       th_lifecycle_flags (thread_of q t) AND SCHED_DEFER_QUEUED \<noteq> 0"
  shows "reap_queued q"
proof -
  obtain ys where ys: "reap_list p = Some ys" "distinct ys" "\<And>t. th_in_reap_list (thread_of p t) \<longleftrightarrow> t \<in> set ys"
    "\<And>t. t \<in> set ys \<Longrightarrow> th_lifecycle_flags (thread_of p t) AND SCHED_DEFER_QUEUED \<noteq> 0"
    using assms(1) unfolding reap_queued_def by blast
  then show ?thesis unfolding reap_queued_def assms(2,3) using assms(4) by (intro exI [of _ ys]) simp
qed

lemma queue_step_inv:
  assumes "procs_inv p" "handled t (sched p) s"
  shows "procs_inv (p\<lparr>sched := s\<rparr>)"
proof -
  have e: "same_thread (thread_of (p\<lparr>sched := s\<rparr>) u) (thread_of p u)" for u using handled_thread [OF assms(2)] by simp
  have "procs_ok (p\<lparr>sched := s\<rparr>)"
    by (rule procs_ok_cong [OF procs_invD(1) [OF assms(1)]]) (use handledD(8) [OF assms(2)] same_threadD(1,6) [OF e] in auto)
  moreover have "reap_queued (p\<lparr>sched := s\<rparr>)"
    by (rule reap_queued_cong [OF procs_invD(2) [OF assms(1)]]) (use same_threadD(7,8) [OF e] in auto)
  ultimately show ?thesis using handledD(1) [OF assms(2)] by (simp add: procs_inv_def)
qed

text \<open>A new record at a fresh address is invisible to the table until it is added.\<close>

definition blank :: "sched_thread \<Rightarrow> bool" where
  "blank x \<longleftrightarrow> \<not> th_in_all_list x \<and> \<not> th_in_reap_list x \<and> \<not> th_on_rq x \<and> \<not> th_in_run_queue x \<and> th_rq_index x = UINT32_MAX"

lemma blank_inv:
  assumes inv: "procs_inv p" and f: "fresh_thread p t" and x: "blank x"
  shows "procs_inv (put_thread t (\<lambda>_. x) p)"
proof -
  have l: "t \<notin> set (listed p)" "\<not> th_on_rq (thread_of p t)" "\<not> th_in_reap_list (thread_of p t)" using f by (simp_all add: fresh_thread_def)
  have "procs_ok (put_thread t (\<lambda>_. x) p)"
  proof -
    have pid: "u \<in> set (listed p) \<Longrightarrow> thread_of (put_thread t (\<lambda>_. x) p) u = thread_of p u" for u using l(1) by auto
    have il: "th_in_all_list (thread_of (put_thread t (\<lambda>_. x) p) u) = th_in_all_list (thread_of p u)" for u
      using x procs_okD(3) [OF procs_invD(1) [OF inv], of t] l(1) by (simp add: blank_def)
    show ?thesis using procs_invD(1) [OF inv] unfolding procs_ok_def pids_unique_def index_exact_def il put_thread_simps(2-5)
      by (simp add: pid cong: ball_cong bex_cong del: put_thread_simps(1,9))
  qed
  moreover have "reap_queued (put_thread t (\<lambda>_. x) p)"
    by (rule reap_queued_cong [OF procs_invD(2) [OF inv]]) (use x l(3) in \<open>auto simp: blank_def\<close>)
  moreover have "sched_ok (sched (put_thread t (\<lambda>_. x) p))"
    using sched_ok_upd_idle [OF procs_invD(3) [OF inv] l(2)] x by (simp add: blank_def)
  ultimately show ?thesis by (simp add: procs_inv_def)
qed

lemma added_inv:
  assumes "procs_inv p" "procs_ok (added t m p)"
  shows "procs_inv (added t m p)"
proof -
  have "reap_queued (added t m p)" by (rule reap_queued_cong [OF procs_invD(2) [OF assms(1)]]) (auto simp: added_def)
  moreover have "sched_ok (sched (added t m p))" unfolding added_def put_thread_simps
    by (rule sched_ok_upd_thread) (use procs_invD(3) [OF assms(1)] in \<open>simp_all add: rq_view_def rq_key_def\<close>)
  ultimately show ?thesis using assms(2) by (simp add: procs_inv_def)
qed

lemma cleanup_inv:
  assumes "procs_inv p"
  obtains q where "cleanup_thread p (Some t) = Some q" "procs_inv q" "listed q = remove1 t (listed p)"
    "next_user_pid q = next_user_pid p" "\<And>u. thread_of q u = (thread_of p u)\<lparr>th_in_all_list := u \<in> set (listed p) - {t}\<rparr>"
proof (cases "t \<in> set (listed p)")
  case True
  note ok = procs_invD(1) [OF assms]
  obtain m where m: "cleanup_thread p (Some t) = Some (dropped t m p)" "procs_ok (dropped t m p)" using cleanup_thread_spec [OF ok True] by blast
  have "reap_queued (dropped t m p)" by (rule reap_queued_cong [OF procs_invD(2) [OF assms]]) (auto simp: dropped_def)
  moreover have "sched_ok (sched (dropped t m p))" unfolding dropped_def put_thread_simps
    by (rule sched_ok_upd_thread) (use procs_invD(3) [OF assms] in \<open>simp_all add: rq_view_def rq_key_def\<close>)
  ultimately have "procs_inv (dropped t m p)" using m(2) by (simp add: procs_inv_def)
  moreover have "thread_of (dropped t m p) u = (thread_of p u)\<lparr>th_in_all_list := u \<in> set (listed p) - {t}\<rparr>" for u
    using procs_okD(3) [OF ok, of u] by (simp add: dropped_def)
  ultimately show thesis using that m(1) by (simp add: dropped_def listed_def)
next
  case False
  note ok = procs_invD(1) [OF assms]
  have c: "cleanup_thread p (Some t) = Some p" using False procs_okD(1,3) [OF ok] by (simp add: cleanup_thread_def)
  have eq: "thread_of p u = (thread_of p u)\<lparr>th_in_all_list := u \<in> set (listed p) - {t}\<rparr>" for u
    using procs_okD(3) [OF ok, of u] False by auto
  show thesis by (rule that [OF c assms _ refl eq]) (use False in \<open>simp add: remove1_idem\<close>)
qed

text \<open>Writes to fields that neither the table nor the run queues look at.\<close>

lemma put_thread_inv:
  assumes inv: "procs_inv p" and f: "\<And>x. rq_view (f x) = rq_view x" "\<And>x. th_in_all_list (f x) = th_in_all_list x"
    "\<And>x. th_in_reap_list (f x) = th_in_reap_list x" "\<And>x. th_lifecycle_flags x AND SCHED_DEFER_QUEUED \<noteq> 0 \<Longrightarrow> th_lifecycle_flags (f x) AND SCHED_DEFER_QUEUED \<noteq> 0"
  shows "procs_inv (put_thread t f p)"
proof -
  have pid: "th_pid (f x) = th_pid x" for x using f(1) [of x] by (simp add: rq_view_def rq_key_def)
  have "procs_ok (put_thread t f p)" by (rule procs_ok_cong [OF procs_invD(1) [OF inv]]) (simp_all add: f(2) pid)
  moreover have "reap_queued (put_thread t f p)" by (rule reap_queued_cong [OF procs_invD(2) [OF inv]]) (use f(3,4) in auto)
  moreover have "sched_ok (sched (put_thread t f p))" using sched_ok_upd_thread [OF procs_invD(3) [OF inv], of f t] f(1) by simp
  ultimately show ?thesis by (simp add: procs_inv_def)
qed

lemma thread_get_inv: "procs_inv p \<Longrightarrow> procs_inv (thread_get (Some t) p)"
  unfolding thread_get_def option.case by (rule put_thread_inv) (simp_all add: rq_view_def rq_key_def)

lemma defer_set: "(w OR SCHED_DEFER_QUEUED) AND SCHED_DEFER_QUEUED \<noteq> 0"
proof
  assume "(w OR SCHED_DEFER_QUEUED) AND SCHED_DEFER_QUEUED = 0"
  then have "bit ((w OR SCHED_DEFER_QUEUED) AND SCHED_DEFER_QUEUED) 0 = bit (0 :: u32) 0" by simp
  then show False by (simp add: bit_simps SCHED_DEFER_QUEUED_def)
qed

text \<open>Only the flagged thread enters the list of the reaper, and only once.\<close>

lemma defer_free_inv:
  assumes inv: "procs_inv p" and fl: "th_lifecycle_flags (thread_of p t) AND SCHED_DEFER_QUEUED \<noteq> 0"
  shows "procs_inv (defer_free t p)"
proof -
  obtain ys where ys: "reap_list p = Some ys" "distinct ys" "\<And>t. th_in_reap_list (thread_of p t) \<longleftrightarrow> t \<in> set ys"
    "\<And>t. t \<in> set ys \<Longrightarrow> th_lifecycle_flags (thread_of p t) AND SCHED_DEFER_QUEUED \<noteq> 0"
    using procs_invD(2) [OF inv] unfolding reap_queued_def by blast
  show ?thesis
  proof (cases "t \<in> set ys")
    case False
    let ?q = "put_thread t (\<lambda>x. x\<lparr>th_in_reap_list := True\<rparr>) (p\<lparr>reap_list := Some (ys @ [t])\<rparr>)"
    have "reap_queued ?q" unfolding reap_queued_def using False ys fl by (intro exI [of _ "ys @ [t]"]) auto
    moreover have "procs_ok ?q" by (rule procs_ok_cong [OF procs_invD(1) [OF inv]]) simp_all
    moreover have "sched_ok (sched ?q)" unfolding put_thread_simps
      by (rule sched_ok_upd_thread) (use procs_invD(3) [OF inv] in \<open>simp_all add: rq_view_def rq_key_def\<close>)
    ultimately show ?thesis using False ys(1,3) by (simp add: defer_free_def link_node_def procs_inv_def)
  qed (use inv ys in \<open>simp add: defer_free_def\<close>)
qed

lemma thread_put_inv:
  assumes inv: "procs_inv p"
  shows "procs_inv (thread_put (Some t) p)"
proof -
  let ?down = "put_thread t (\<lambda>x. x\<lparr>th_refcount := th_refcount x - 1\<rparr>) p"
  let ?flag = "put_thread t (\<lambda>x. x\<lparr>th_lifecycle_flags := th_lifecycle_flags x OR SCHED_DEFER_QUEUED\<rparr>)"
  have d: "procs_inv ?down" by (rule put_thread_inv [OF inv]) (simp_all add: rq_view_def rq_key_def)
  have u: "procs_inv (put_thread t (\<lambda>x. x\<lparr>th_refcount := th_refcount x + 1\<rparr>) ?down)"
    by (rule put_thread_inv [OF d]) (simp_all add: rq_view_def rq_key_def)
  have f: "procs_inv (?flag ?down)" by (rule put_thread_inv [OF d]) (use defer_set in \<open>simp_all add: rq_view_def rq_key_def\<close>)
  have "procs_inv (defer_free t (?flag ?down))" by (rule defer_free_inv [OF f]) (use defer_set in simp)
  then show ?thesis using d u f by (simp add: thread_put_def Let_def)
qed

lemma thread_put_same:
  "listed (thread_put (Some t) p) = listed p" "next_user_pid (thread_put (Some t) p) = next_user_pid p"
  "th_pid (thread_of (thread_put (Some t) p) u) = th_pid (thread_of p u)" "th_pgid (thread_of (thread_put (Some t) p) u) = th_pgid (thread_of p u)"
  "th_sid (thread_of (thread_put (Some t) p) u) = th_sid (thread_of p u)" "th_user_thread (thread_of (thread_put (Some t) p) u) = th_user_thread (thread_of p u)"
  "cpus (sched (thread_put (Some t) p)) = cpus (sched p)"
  by (simp_all add: thread_put_def Let_def defer_free_def listed_def split: option.splits)

section \<open>Creating a thread\<close>

text \<open>
  A thread that was created is listed last under an identifier no other thread has; creation
  panics only when the identifiers are used up or the map cannot take the new one.
\<close>

definition pid_spent :: "procs \<Rightarrow> sched_pid_class \<Rightarrow> bool" where
  "pid_spent p cls \<longleftrightarrow> cls = SCHED_PID_USER \<and> next_user_pid p = INT_MAX \<or> cls = SCHED_PID_KERNEL \<and> (0 \<le> next_kernel_pid p \<or> next_kernel_pid p = INT_MIN)"

definition created :: "procs \<Rightarrow> procs \<Rightarrow> tid \<Rightarrow> bool \<Rightarrow> sched_thread ptr \<Rightarrow> bool" where
  "created p q t user_thread parent \<longleftrightarrow> listed q = listed p @ [t] \<and> (\<forall>u. u \<noteq> t \<longrightarrow> same_thread (thread_of q u) (thread_of p u)) \<and>
     (\<exists>e online pid. th_pid (thread_of q t) = pid \<and> (0 < pid \<longrightarrow> pid = next_user_pid p) \<and> th_user_thread (thread_of q t) = user_thread \<and>
        th_pgid (thread_of q t) = th_pgid (init_thread e online pid user_thread parent) \<and>
        th_sid (thread_of q t) = th_sid (init_thread e online pid user_thread parent))"

text \<open>The end of a creation: the new record \<open>z\<close> is added and, for a kernel thread, queued.\<close>

definition publish_thread :: "(size_t \<Rightarrow> bool) \<Rightarrow> sched_env \<Rightarrow> bool \<Rightarrow> tid \<Rightarrow> sched_thread \<Rightarrow> procs \<Rightarrow> procs exec" where
  "publish_thread co e enq t z p =
     do { p \<leftarrow> thread_add co (put_thread t (\<lambda>_. z) p) (Some t);
          if enq then do { s \<leftarrow> enqueue_thread e (sched p) (Some t); Some (p\<lparr>sched := s\<rparr>) } else Some p }"

lemma publish_thread_spec:
  assumes inv: "procs_inv p" and e: "env_ok e" and f: "fresh_thread p t" and z: "blank z" "th_pid z < next_user_pid p"
    "0 < th_pid z \<Longrightarrow> \<forall>u \<in> set (listed p). th_pid (thread_of p u) \<noteq> th_pid z"
  obtains "publish_thread co e enq t z p = None" "0 < th_pid z" "map_option fst (hashmap_set co (pid_index p) (pid_index_key (th_pid z)) (thread_word t)) = Some False"
  | q where "publish_thread co e enq t z p = Some q" "procs_inv q" "listed q = listed p @ [t]" "next_user_pid q = next_user_pid p"
      "\<And>u. same_thread (thread_of q u) (if u = t then z\<lparr>th_in_all_list := True\<rparr> else thread_of p u)"
proof -
  let ?b = "put_thread t (\<lambda>_. z) p"
  have invb: "procs_inv ?b" by (rule blank_inv [OF inv f z(1)])
  have t: "t \<notin> set (listed ?b)" "0 < t" "t < 2 ^ 64" using f by (simp_all add: fresh_thread_def)
  have new: "\<forall>u \<in> set (listed ?b). th_pid (thread_of ?b u) \<noteq> th_pid (thread_of ?b t)" if "0 < th_pid (thread_of ?b t)"
    using z(3) that t(1) by auto
  show thesis
  proof (rule thread_add_spec [OF procs_invD(1) [OF invb] t _ new, of co])
    show "th_pid (thread_of ?b t) < next_user_pid ?b" using z(2) by simp
  next
    assume "0 < th_pid (thread_of ?b t)" "thread_add co ?b (Some t) = None"
      "map_option fst (hashmap_set co (pid_index ?b) (pid_index_key (th_pid (thread_of ?b t))) (thread_word t)) = Some False"
    then show thesis using that(1) by (simp add: publish_thread_def)
  next
    fix m
    assume m: "thread_add co ?b (Some t) = Some (added t m ?b)" "procs_ok (added t m ?b)"
    note inva = added_inv [OF invb m(2)]
    have l: "all_list (sched (added t m ?b)) = Some (listed p @ [t])" "next_user_pid (added t m ?b) = next_user_pid p"
      "thread_of (added t m ?b) u = (if u = t then z\<lparr>th_in_all_list := True\<rparr> else thread_of p u)" for u
      by (simp_all add: added_def listed_def)
    obtain s where s: "enqueue_thread e (sched (added t m ?b)) (Some t) = Some s" "handled t (sched (added t m ?b)) s"
      using enqueue_ipi_handled [OF e procs_invD(3) [OF inva], of t True] by (auto simp: enqueue_thread_def)
    let ?q = "if enq then (added t m ?b)\<lparr>sched := s\<rparr> else added t m ?b"
    have r: "publish_thread co e enq t z p = Some ?q" using m(1) s(1) by (simp add: publish_thread_def)
    have "same_thread (thread_of ?q u) (thread_of (added t m ?b) u)" for u using handled_thread [OF s(2)] by simp
    then show thesis using that(2) [OF r] queue_step_inv [OF inva s(2)] inva l handledD(8) [OF s(2)] by (simp add: listed_def)
  qed
qed

lemma create_thread_eq:
  assumes "procs_inv p" "env_ok e"
  obtains on y where "sched_online_cpu_mask e = Some on" "sched_local_current e (sched p) = Some y"
    "create_thread co e p (Some t) so vo ctx enq user cls =
       do { (pid, p1) \<leftarrow> sched_next_pid p cls;
            let x = init_thread e on pid user (map_option (thread_of p) y);
            if \<not> so \<or> user \<and> \<not> vo then Some (None, p1)
            else do { q \<leftarrow> publish_thread co e enq t (sched_signal_init (if user then x else x\<lparr>th_context := ctx\<rparr>)) p1; Some (Some t, q) } }"
proof -
  obtain on where on: "sched_online_cpu_mask e = Some on" using sched_online_cpu_mask_some [OF assms(2)] by blast
  obtain y where y: "sched_local_current e (sched p) = Some y"
    using sched_okD(2) [OF procs_invD(3) [OF assms(1)]] assms(2) by (simp add: sched_local_current_def env_ok_def load_ok)
  show thesis
  proof (rule that [OF on y], cases "sched_next_pid p cls")
    case (Some r)
    obtain pid p1 where p1: "r = (pid, p1)" by (cases r)
    have "sched p1 = sched p" using next_pid_spec(2) [OF procs_invD(1) [OF assms(1)]] Some p1 by blast
    then show "create_thread co e p (Some t) so vo ctx enq user cls = (do { (pid, p1) \<leftarrow> sched_next_pid p cls;
            let x = init_thread e on pid user (map_option (thread_of p) y);
            if \<not> so \<or> user \<and> \<not> vo then Some (None, p1)
            else do { q \<leftarrow> publish_thread co e enq t (sched_signal_init (if user then x else x\<lparr>th_context := ctx\<rparr>)) p1; Some (Some t, q) } })"
      using Some p1 on y by (simp add: create_thread_def publish_thread_def Let_def split: bind_split if_split)
  qed (simp add: create_thread_def on)
qed

lemma create_thread_spec:
  assumes inv: "procs_inv p" and e: "env_ok e" and f: "fresh_thread p t"
  obtains (panic) "create_thread co e p (Some t) so vo ctx enq user cls = None"
      "pid_spent p cls \<or> map_option fst (hashmap_set co (pid_index p) (pid_index_key (next_user_pid p)) (thread_word t)) = Some False"
  | (failed) q where "create_thread co e p (Some t) so vo ctx enq user cls = Some (None, q)" "\<not> so \<or> user \<and> \<not> vo"
      "procs_inv q" "sched q = sched p" "next_user_pid p \<le> next_user_pid q"
  | (made) q y where "create_thread co e p (Some t) so vo ctx enq user cls = Some (Some t, q)" "procs_inv q" "next_user_pid p \<le> next_user_pid q"
      "sched_local_current e (sched p) = Some y" "created p q t user (map_option (thread_of p) y)"
      "(cls = SCHED_PID_USER) = (0 < th_pid (thread_of q t))"
proof -
  note ok = procs_invD(1) [OF inv]
  obtain on y where y: "sched_local_current e (sched p) = Some y" and c: "create_thread co e p (Some t) so vo ctx enq user cls =
       do { (pid, p1) \<leftarrow> sched_next_pid p cls;
            let x = init_thread e on pid user (map_option (thread_of p) y);
            if \<not> so \<or> user \<and> \<not> vo then Some (None, p1)
            else do { q \<leftarrow> publish_thread co e enq t (sched_signal_init (if user then x else x\<lparr>th_context := ctx\<rparr>)) p1; Some (Some t, q) } }"
    using create_thread_eq [OF inv e] by blast
  show thesis
  proof (cases "sched_next_pid p cls")
    case None
    then have "pid_spent p cls" using procs_okD(5) [OF ok] by (auto simp: sched_next_pid_def pid_spent_def split: sched_pid_class.splits if_splits)
    then show thesis using panic c None by simp
  next
    case (Some r)
    obtain pid p1 where p1: "sched_next_pid p cls = Some (pid, p1)" using Some by (cases r) simp
    note np = next_pid_spec [OF ok p1]
    have inv1: "procs_inv p1" using inv np(1-3) by (simp add: procs_inv_def reap_queued_def)
    have f1: "fresh_thread p1 t" "listed p1 = listed p" using f np(2) by (simp_all add: fresh_thread_def listed_def)
    define x where "x = init_thread e on pid user (map_option (thread_of p) y)"
    define z where "z = sched_signal_init (if user then x else x\<lparr>th_context := ctx\<rparr>)"
    have z: "blank z" "th_pid z = pid" "th_pgid z = th_pgid x" "th_sid z = th_sid x" "th_user_thread z = user" by (simp_all add: z_def x_def blank_def)
    have zn: "th_pid z < next_user_pid p1" "0 < th_pid z \<Longrightarrow> \<forall>u \<in> set (listed p1). th_pid (thread_of p1 u) \<noteq> th_pid z"
      using z(2) np(2,5,7) f1(2) procs_okD(4) [OF ok] by fastforce+
    show thesis
    proof (cases "\<not> so \<or> user \<and> \<not> vo")
      case True
      then show thesis using failed [OF _ True inv1 np(2,6)] c p1 by (simp add: Let_def)
    next
      case False
      then have c: "create_thread co e p (Some t) so vo ctx enq user cls = do { q \<leftarrow> publish_thread co e enq t z p1; Some (Some t, q) }"
        using c p1 by (simp add: Let_def z_def x_def)
      show thesis
      proof (rule publish_thread_spec [OF inv1 e f1(1) z(1) zn, of co enq])
        assume "publish_thread co e enq t z p1 = None" "0 < th_pid z" "map_option fst (hashmap_set co (pid_index p1) (pid_index_key (th_pid z)) (thread_word t)) = Some False"
        then show thesis using panic c np(4,7) z(2) by simp
      next
        fix q
        assume q: "publish_thread co e enq t z p1 = Some q" "procs_inv q" "listed q = listed p1 @ [t]" "next_user_pid q = next_user_pid p1"
          "\<And>u. same_thread (thread_of q u) (if u = t then z\<lparr>th_in_all_list := True\<rparr> else thread_of p1 u)"
        have "same_thread (thread_of q t) (z\<lparr>th_in_all_list := True\<rparr>)" using q(5) [of t] by simp
        note x = same_threadD [OF this]
        moreover have "\<forall>u. u \<noteq> t \<longrightarrow> same_thread (thread_of q u) (thread_of p u)" using q(5) np(2) by metis
        ultimately have "created p q t user (map_option (thread_of p) y)"
          unfolding created_def using q(3) f1(2) z np(7) x_def by auto
        then show thesis using made [of q y] c q(1,2,4) y np(6,8) x(1) z(2) by simp
      qed
    qed
  qed
qed

end
