(* ===== verification/Cred.thy ===== *)
theory Cred
  imports Proc_Table
begin

text \<open>
  Credentials, affinity, process groups and sessions (\<open>kernel/sched/cred.c\<close>). Every operation acts
  for the thread that runs on the calling core. A result is the \<open>int\<close> the function returns, with
  errors negative.
\<close>

definition EACCES :: int where "EACCES = 2"
definition EINVAL :: int where "EINVAL = 28"
definition EPERM :: int where "EPERM = 66"
definition ESRCH :: int where "ESRCH = 74"
definition SCHED_GROUP_MAX :: size_t where "SCHED_GROUP_MAX = 16"
definition TTY_NONE :: int where "TTY_NONE = -1"

definition sched_getpid :: "sched_env \<Rightarrow> procs \<Rightarrow> pid_t exec" where
  "sched_getpid e p =
     do { thread \<leftarrow> sched_local_current e (sched p);
          Some (case thread of None \<Rightarrow> - EINVAL | Some t \<Rightarrow> th_pid (thread_of p t)) }"


section \<open>User and group identifiers\<close>

fun scan_groups :: "u32 list \<Rightarrow> u32 \<Rightarrow> nat \<Rightarrow> size_t \<Rightarrow> bool exec" where
  "scan_groups gs gid 0 i = Some False"
| "scan_groups gs gid (Suc n) i = do { g \<leftarrow> load gs i; if g = gid then Some True else scan_groups gs gid n (i + 1) }"

definition has_group :: "procs \<Rightarrow> tid ptr \<Rightarrow> u32 \<Rightarrow> bool exec" where
  "has_group p thread gid =
     (case thread of
        None \<Rightarrow> Some False
      | Some t \<Rightarrow> if th_gid (thread_of p t) = gid then Some True
                   else scan_groups (th_groups (thread_of p t)) gid (th_group_count (thread_of p t)) 0)"

definition sched_setuid :: "sched_env \<Rightarrow> procs \<Rightarrow> u32 \<Rightarrow> (int \<times> procs) exec" where
  "sched_setuid e p uid =
     do { thread \<leftarrow> sched_local_current e (sched p);
          case thread of
            None \<Rightarrow> Some (- EINVAL, p)
          | Some t \<Rightarrow>
              let x = thread_of p t
              in if th_uid x = 0 then Some (0, put_thread t (\<lambda>x. x\<lparr>th_ruid := uid, th_uid := uid, th_suid := uid\<rparr>) p)
                 else if uid \<noteq> th_ruid x \<and> uid \<noteq> th_uid x \<and> uid \<noteq> th_suid x then Some (- EPERM, p)
                 else Some (0, put_thread t (\<lambda>x. x\<lparr>th_uid := uid\<rparr>) p) }"

definition sched_seteuid :: "sched_env \<Rightarrow> procs \<Rightarrow> u32 \<Rightarrow> (int \<times> procs) exec" where
  "sched_seteuid e p uid =
     do { thread \<leftarrow> sched_local_current e (sched p);
          case thread of
            None \<Rightarrow> Some (- EINVAL, p)
          | Some t \<Rightarrow>
              let x = thread_of p t
              in if th_uid x \<noteq> 0 \<and> uid \<noteq> th_ruid x \<and> uid \<noteq> th_uid x \<and> uid \<noteq> th_suid x then Some (- EPERM, p)
                 else Some (0, put_thread t (\<lambda>x. x\<lparr>th_uid := uid\<rparr>) p) }"

text \<open>The loops that take a group out of the supplementary groups.\<close>

fun shift_groups :: "u32 list \<Rightarrow> nat \<Rightarrow> size_t \<Rightarrow> u32 list exec" where
  "shift_groups gs 0 j = Some gs"
| "shift_groups gs (Suc n) j = do { g \<leftarrow> load gs j; gs \<leftarrow> store gs (j - 1) g; shift_groups gs n (j + 1) }"

function purge_groups :: "u32 \<Rightarrow> u32 list \<Rightarrow> size_t \<Rightarrow> size_t \<Rightarrow> (u32 list \<times> size_t) exec" where
  "purge_groups gid gs i count =
     (if i < count
      then do { g \<leftarrow> load gs i;
                if g \<noteq> gid then purge_groups gid gs (i + 1) count
                else do { gs \<leftarrow> shift_groups gs (count - (i + 1)) (i + 1); purge_groups gid gs i (count - 1) } }
      else Some (gs, count))"
  by pat_completeness auto
termination by (relation "measure (\<lambda>(gid, gs, i, count). count - i)") auto

declare purge_groups.simps [simp del]

definition sched_setgid :: "sched_env \<Rightarrow> procs \<Rightarrow> u32 \<Rightarrow> (int \<times> procs) exec" where
  "sched_setgid e p gid =
     do { thread \<leftarrow> sched_local_current e (sched p);
          case thread of
            None \<Rightarrow> Some (- EINVAL, p)
          | Some t \<Rightarrow>
              let x = thread_of p t
              in if th_uid x = 0 \<or> gid = th_rgid x \<or> gid = th_gid x \<or> gid = th_sgid x
                 then do { (gs, n) \<leftarrow> purge_groups gid (th_groups x) 0 (th_group_count x);
                           Some (0, put_thread t (\<lambda>x. (if th_uid x = 0 then x\<lparr>th_rgid := gid, th_gid := gid, th_sgid := gid\<rparr>
                                                       else x\<lparr>th_gid := gid\<rparr>)\<lparr>th_groups := gs, th_group_count := n\<rparr>) p) }
                 else Some (- EPERM, p) }"

definition sched_setegid :: "sched_env \<Rightarrow> procs \<Rightarrow> u32 \<Rightarrow> (int \<times> procs) exec" where
  "sched_setegid e p gid =
     do { thread \<leftarrow> sched_local_current e (sched p);
          case thread of
            None \<Rightarrow> Some (- EINVAL, p)
          | Some t \<Rightarrow>
              let x = thread_of p t
              in if th_uid x \<noteq> 0 \<and> gid \<noteq> th_rgid x \<and> gid \<noteq> th_gid x \<and> gid \<noteq> th_sgid x then Some (- EPERM, p)
                 else Some (0, put_thread t (\<lambda>x. x\<lparr>th_gid := gid\<rparr>) p) }"

text \<open>
  The loop of \<open>sched_setgroups\<close>: \<open>n\<close> groups of the caller are left, \<open>out\<close> are stored. The result
  tells whether it ran to the end.
\<close>

fun setgroups_loop :: "u32 list \<Rightarrow> u32 \<Rightarrow> nat \<Rightarrow> size_t \<Rightarrow> u32 list \<Rightarrow> size_t \<Rightarrow> (bool \<times> u32 list \<times> size_t) exec" where
  "setgroups_loop groups own 0 i gs out = Some (True, gs, out)"
| "setgroups_loop groups own (Suc n) i gs out =
     do { gid \<leftarrow> load groups i;
          if gid = own then setgroups_loop groups own n (i + 1) gs out
          else do { seen \<leftarrow> scan_groups gs gid out 0;
                    if seen then setgroups_loop groups own n (i + 1) gs out
                    else if SCHED_GROUP_MAX \<le> out then Some (False, gs, out)
                    else do { gs \<leftarrow> store gs out gid; setgroups_loop groups own n (i + 1) gs (out + 1) } } }"

definition sched_setgroups :: "sched_env \<Rightarrow> procs \<Rightarrow> u32 list ptr \<Rightarrow> size_t \<Rightarrow> (int \<times> procs) exec" where
  "sched_setgroups e p groups group_count =
     do { thread \<leftarrow> sched_local_current e (sched p);
          case thread of
            None \<Rightarrow> Some (- EINVAL, p)
          | Some t \<Rightarrow>
              let x = thread_of p t
              in if th_uid x \<noteq> 0 then Some (- EPERM, p)
                 else if SCHED_GROUP_MAX < group_count \<or> group_count \<noteq> 0 \<and> groups = None then Some (- EINVAL, p)
                 else do { (done, gs, out) \<leftarrow> setgroups_loop (case groups of None \<Rightarrow> [] | Some l \<Rightarrow> l) (th_gid x) group_count 0 (th_groups x) 0;
                           if \<not> done then Some (- EINVAL, put_thread t (\<lambda>x. x\<lparr>th_groups := gs\<rparr>) p)
                           else Some (0, put_thread t (\<lambda>x. x\<lparr>th_groups := gs, th_group_count := out\<rparr>) p) } }"

definition sched_gid_matches_cred :: "sched_env \<Rightarrow> procs \<Rightarrow> u32 \<Rightarrow> u32 \<Rightarrow> u32 \<Rightarrow> bool exec" where
  "sched_gid_matches_cred e p uid gid target_gid =
     (if gid = target_gid then Some True
      else do { thread \<leftarrow> sched_local_current e (sched p);
                case thread of
                  None \<Rightarrow> Some False
                | Some t \<Rightarrow> if th_uid (thread_of p t) \<noteq> uid \<or> th_gid (thread_of p t) \<noteq> gid then Some False
                             else has_group p thread target_gid })"

definition sched_setumask :: "sched_env \<Rightarrow> procs \<Rightarrow> u32 \<Rightarrow> (int \<times> procs) exec" where
  "sched_setumask e p umask =
     do { thread \<leftarrow> sched_local_current e (sched p);
          case thread of
            None \<Rightarrow> Some (- EINVAL, p)
          | Some t \<Rightarrow> Some (0, put_thread t (\<lambda>x. x\<lparr>th_umask := umask AND 511\<rparr>) p) }"


section \<open>Affinity\<close>

definition held_put :: "bool \<Rightarrow> tid \<Rightarrow> procs \<Rightarrow> procs" where
  "held_put held t p = (if held then thread_put (Some t) p else p)"

text \<open>The thread an affinity call is about, with a reference when it was looked up; \<open>Inl\<close> is an error.\<close>

definition affinity_target :: "(size_t \<Rightarrow> bool) \<Rightarrow> procs \<Rightarrow> tid ptr \<Rightarrow> pid_t \<Rightarrow> ((int + tid \<times> bool) \<times> procs) exec" where
  "affinity_target co p self pid =
     (if pid < 0 then Some (Inl (- EINVAL), p)
      else do { (target, p) \<leftarrow> (if pid = 0 then Some (self, p) else sched_find_thread co p pid);
                case target of
                  None \<Rightarrow> Some (Inl (- ESRCH), p)
                | Some t \<Rightarrow>
                    let held = 0 < pid
                    in if (case self of None \<Rightarrow> False
                           | Some y \<Rightarrow> th_uid (thread_of p y) \<noteq> 0 \<and> th_uid (thread_of p y) \<noteq> th_uid (thread_of p t))
                       then Some (Inl (- EPERM), held_put held t p)
                       else Some (Inr (t, held), p) })"

definition sched_set_affinity :: "(size_t \<Rightarrow> bool) \<Rightarrow> sched_env \<Rightarrow> procs \<Rightarrow> pid_t \<Rightarrow> u64 \<Rightarrow> (int \<times> procs) exec" where
  "sched_set_affinity co e p pid cpu_mask =
     do { self \<leftarrow> sched_local_current e (sched p);
          online \<leftarrow> sched_online_cpu_mask e;
          let allowed = cpu_mask AND online;
          if allowed = 0 then Some (- EINVAL, p)
          else do { (r, p) \<leftarrow> affinity_target co p self pid;
                    case r of
                      Inl err \<Rightarrow> Some (err, p)
                    | Inr (t, held) \<Rightarrow>
                        do { let s = upd_thread t (\<lambda>x. x\<lparr>th_allowed_cpu_mask := allowed, th_affinity_user_set := True\<rparr>) (sched p);
                             s \<leftarrow> (if th_on_rq (threads s t) \<and> th_state (threads s t) = THREAD_READY
                                    then do { s \<leftarrow> rq_remove s (Some t); enqueue_thread e s (Some t) } else Some s);
                             fits \<leftarrow> sched_cpu_allowed e s (Some t) (th_last_cpu (threads s t));
                             let resched_cpu = (if th_state (threads s t) = THREAD_RUNNING \<and> \<not> fits then th_last_cpu (threads s t) else MAX_CORES);
                             s \<leftarrow> sched_kick_cpu e s resched_cpu;
                             Some (0, held_put held t (p\<lparr>sched := s\<rparr>)) } } }"

definition sched_get_affinity :: "(size_t \<Rightarrow> bool) \<Rightarrow> sched_env \<Rightarrow> procs \<Rightarrow> pid_t \<Rightarrow> u64 ptr \<Rightarrow> (int \<times> u64 ptr \<times> procs) exec" where
  "sched_get_affinity co e p pid mask_out =
     (case mask_out of
        None \<Rightarrow> Some (- EINVAL, mask_out, p)
      | Some _ \<Rightarrow>
          do { self \<leftarrow> sched_local_current e (sched p);
               (r, p) \<leftarrow> affinity_target co p self pid;
               case r of
                 Inl err \<Rightarrow> Some (err, mask_out, p)
               | Inr (t, held) \<Rightarrow>
                   do { allowed \<leftarrow> (if th_allowed_cpu_mask (thread_of p t) = 0 then sched_online_cpu_mask e
                                   else Some (th_allowed_cpu_mask (thread_of p t)));
                        Some (0, Some allowed, held_put held t p) } })"


section \<open>Process groups and sessions\<close>

text \<open>The loop that looks for a member of a group in a session; a missing list would be dereferenced.\<close>

definition group_in_session :: "procs \<Rightarrow> pid_t \<Rightarrow> pid_t \<Rightarrow> bool exec" where
  "group_in_session p pgid sid =
     do { xs \<leftarrow> all_list (sched p);
          Some (list_ex (\<lambda>t. th_pgid (thread_of p t) = pgid \<and> th_sid (thread_of p t) = sid) xs) }"

text \<open>The checks of \<open>sched_setpgid\<close> on the target it found, and the move of the target.\<close>

definition regroup :: "procs \<Rightarrow> tid \<Rightarrow> tid \<Rightarrow> pid_t \<Rightarrow> (int \<times> procs) exec" where
  "regroup p self target pgid =
     (let x = thread_of p target; y = thread_of p self
      in if \<not> th_user_thread x then Some (- ESRCH, p)
         else if th_pid x \<noteq> th_pid y \<and> th_ppid x \<noteq> th_pid y then Some (- ESRCH, p)
         else if target \<noteq> self \<and> th_did_exec x then Some (- EACCES, p)
         else if th_sid x \<noteq> th_sid y then Some (- EPERM, p)
         else if th_sid x = th_pid x then Some (- EPERM, p)
         else let pgid = (if pgid = 0 then th_pid x else pgid)
              in do { found \<leftarrow> (if pgid = th_pid x then Some True else group_in_session p pgid (th_sid y));
                      if \<not> found then Some (- EPERM, p)
                      else Some (0, put_thread target (\<lambda>x. x\<lparr>th_pgid := pgid\<rparr>) p) })"

definition sched_setpgid :: "(size_t \<Rightarrow> bool) \<Rightarrow> sched_env \<Rightarrow> procs \<Rightarrow> pid_t \<Rightarrow> pid_t \<Rightarrow> (int \<times> procs) exec" where
  "sched_setpgid co e p pid pgid =
     do { cur \<leftarrow> sched_local_current e (sched p);
          case cur of
            None \<Rightarrow> Some (- EINVAL, p)
          | Some self \<Rightarrow>
              if \<not> th_user_thread (thread_of p self) \<or> pid < 0 \<or> pgid < 0 then Some (- EINVAL, p)
              else do { (found, p) \<leftarrow> (if 0 < pid then find_thread co p pid else Some (cur, p));
                        case found of
                          None \<Rightarrow> Some (- ESRCH, p)
                        | Some target \<Rightarrow> regroup p self target pgid } }"

definition sched_setsid :: "sched_env \<Rightarrow> procs \<Rightarrow> (pid_t \<times> procs) exec" where
  "sched_setsid e p =
     do { thread \<leftarrow> sched_local_current e (sched p);
          case thread of
            None \<Rightarrow> Some (- EINVAL, p)
          | Some t \<Rightarrow>
              let pid = th_pid (thread_of p t)
              in if \<not> th_user_thread (thread_of p t) then Some (- EINVAL, p)
                 else if (case all_list (sched p) of None \<Rightarrow> False | Some xs \<Rightarrow> list_ex (\<lambda>u. th_pgid (thread_of p u) = pid) xs)
                 then Some (- EPERM, p)
                 else Some (pid, put_thread t (\<lambda>x. x\<lparr>th_sid := pid, th_pgid := pid, th_tty_index := TTY_NONE\<rparr>) p) }"

definition sched_pgrp_in_session :: "procs \<Rightarrow> pid_t \<Rightarrow> pid_t \<Rightarrow> bool" where
  "sched_pgrp_in_session p pgid sid =
     (if pgid \<le> 0 \<or> sid \<le> 0 then False
      else case all_list (sched p) of
             None \<Rightarrow> False
           | Some xs \<Rightarrow> list_ex (\<lambda>t. th_pgid (thread_of p t) = pgid \<and> th_sid (thread_of p t) = sid) xs)"

section \<open>Groups as sets\<close>

text \<open>The array of groups has its size and the count stays inside it.\<close>

definition groups_ok :: "sched_thread \<Rightarrow> bool" where
  "groups_ok x \<longleftrightarrow> length (th_groups x) = SCHED_GROUP_MAX \<and> th_group_count x \<le> SCHED_GROUP_MAX"

definition groups_of :: "sched_thread \<Rightarrow> u32 list" where
  "groups_of x = take (th_group_count x) (th_groups x)"

lemma scan_groups_spec:
  "i + n \<le> length gs \<Longrightarrow> scan_groups gs gid n i = Some (gid \<in> set (take n (drop i gs)))"
proof (induction n arbitrary: i)
  case (Suc n)
  have "take (Suc n) (drop i gs) = gs ! i # take n (drop (i + 1) gs)" using Suc.prems by (simp add: Cons_nth_drop_Suc [symmetric])
  then show ?case using Suc by (auto simp: load_ok)
qed simp

lemma has_group_spec:
  "groups_ok (thread_of p t) \<Longrightarrow> has_group p (Some t) gid = Some (gid = th_gid (thread_of p t) \<or> gid \<in> set (groups_of (thread_of p t)))"
  using scan_groups_spec [of 0 "th_group_count (thread_of p t)" "th_groups (thread_of p t)" gid]
  by (auto simp: has_group_def groups_ok_def groups_of_def)

lemma shift_groups_spec:
  "0 < j \<Longrightarrow> j + n \<le> length gs \<Longrightarrow>
    shift_groups gs n j = Some (take (j - 1) gs @ take n (drop j gs) @ drop (j - 1 + n) gs)"
proof (induction n arbitrary: gs j)
  case (Suc n)
  let ?gs = "gs[j - 1 := gs ! j]"
  have "shift_groups ?gs n (j + 1) = Some (take j ?gs @ take n (drop (j + 1) ?gs) @ drop (j + n) ?gs)" using Suc.IH [of "j + 1" ?gs] Suc.prems by simp
  moreover have "take j ?gs = take (j - 1) gs @ [gs ! j]" using Suc.prems by (cases j) (simp_all add: take_Suc_conv_app_nth)
  moreover have "drop (j + 1) ?gs = drop (j + 1) gs" "drop (j + n) ?gs = drop (j + n) gs" using Suc.prems by simp_all
  moreover have "take (Suc n) (drop j gs) = gs ! j # take n (drop (j + 1) gs)" using Suc.prems by (simp add: Cons_nth_drop_Suc [symmetric])
  moreover have "j - 1 + Suc n = j + n" using Suc.prems by simp
  ultimately show ?case using Suc.prems by (simp add: load_ok store_ok)
qed simp

lemma purge_groups_spec:
  "i \<le> count \<Longrightarrow> count \<le> length gs \<Longrightarrow>
    \<exists>gs' n. purge_groups gid gs i count = Some (gs', n) \<and> length gs' = length gs \<and> n \<le> count \<and>
      take n gs' = take i gs @ filter (\<lambda>g. g \<noteq> gid) (drop i (take count gs))"
proof (induction gid gs i count rule: purge_groups.induct)
  case (1 gid gs i count)
  show ?case
  proof (cases "i < count")
    case True
    have d: "drop i (take count gs) = gs ! i # drop (Suc i) (take count gs)" using True 1(4) by (simp add: Cons_nth_drop_Suc [symmetric])
    have l: "load gs i = Some (gs ! i)" using True 1(4) by (simp add: load_ok)
    show ?thesis
    proof (cases "gs ! i = gid")
      case False
      have "take (i + 1) gs = take i gs @ [gs ! i]" using True 1(4) by (simp add: take_Suc_conv_app_nth)
      then show ?thesis using 1(1) [OF True l False] True 1(4) False l d by (subst purge_groups.simps) auto
    next
      case eq: True
      let ?gs = "take i gs @ take (count - (i + 1)) (drop (i + 1) gs) @ drop (count - 1) gs"
      have s: "shift_groups gs (count - (i + 1)) (i + 1) = Some ?gs" using shift_groups_spec [of "i + 1" "count - (i + 1)" gs] True 1(4) by simp
      have "length ?gs = length gs" using True 1(4) by simp
      moreover have "take i ?gs = take i gs" "drop i (take (count - 1) ?gs) = drop (Suc i) (take count gs)"
        using True 1(4) by (simp_all add: drop_take min_def)
      ultimately show ?thesis using 1(2) [OF True l _ s] True 1(4) eq l d s by (subst purge_groups.simps) fastforce
    qed
  qed (use 1(3,4) in \<open>simp add: purge_groups.simps\<close>)
qed

text \<open>\<open>sched_setgroups\<close> keeps the first occurrence of each group that is not the own one.\<close>

fun fresh_groups :: "u32 \<Rightarrow> u32 list \<Rightarrow> u32 list \<Rightarrow> u32 list" where
  "fresh_groups own acc [] = acc"
| "fresh_groups own acc (g # gs) = fresh_groups own (if g = own \<or> g \<in> set acc then acc else acc @ [g]) gs"

lemma fresh_groups_props:
  "distinct acc \<Longrightarrow> own \<notin> set acc \<Longrightarrow> distinct (fresh_groups own acc gs) \<and> set (fresh_groups own acc gs) = set acc \<union> (set gs - {own})"
  by (induction gs arbitrary: acc) auto

lemma setgroups_loop_spec:
  assumes "i + n \<le> length groups" "out + n \<le> SCHED_GROUP_MAX" "length gs = SCHED_GROUP_MAX"
  shows "\<exists>gs' m. setgroups_loop groups own n i gs out = Some (True, gs', m) \<and> length gs' = SCHED_GROUP_MAX \<and> m \<le> out + n \<and>
    take m gs' = fresh_groups own (take out gs) (take n (drop i groups))"
  using assms
proof (induction n arbitrary: i gs out)
  case (Suc n)
  have d: "take (Suc n) (drop i groups) = groups ! i # take n (drop (i + 1) groups)" using Suc.prems by (simp add: Cons_nth_drop_Suc [symmetric])
  have l: "load groups i = Some (groups ! i)" using Suc.prems by (simp add: load_ok)
  have sc: "scan_groups gs (groups ! i) out 0 = Some (groups ! i \<in> set (take out gs))" using scan_groups_spec [of 0 out gs] Suc.prems by simp
  show ?case
  proof (cases "groups ! i = own \<or> groups ! i \<in> set (take out gs)")
    case True
    then show ?thesis using Suc.IH [of "i + 1" out gs] Suc.prems l sc d by fastforce
  next
    case False
    have st: "store gs out (groups ! i) = Some (gs[out := groups ! i])" using Suc.prems by (simp add: store_ok)
    have "take (out + 1) (gs[out := groups ! i]) = take out gs @ [groups ! i]" using Suc.prems by (simp add: take_Suc_conv_app_nth)
    then show ?thesis using Suc.IH [of "i + 1" "out + 1" "gs[out := groups ! i]"] Suc.prems l sc d st False by fastforce
  qed
qed simp

section \<open>Privileges\<close>

datatype cred_op = Setuid u32 | Seteuid u32 | Setgid u32 | Setegid u32 | Setgroups "u32 list ptr" size_t

fun cred_call :: "sched_env \<Rightarrow> procs \<Rightarrow> cred_op \<Rightarrow> (int \<times> procs) exec" where
  "cred_call e p (Setuid uid) = sched_setuid e p uid"
| "cred_call e p (Seteuid uid) = sched_seteuid e p uid"
| "cred_call e p (Setgid gid) = sched_setgid e p gid"
| "cred_call e p (Setegid gid) = sched_setegid e p gid"
| "cred_call e p (Setgroups groups n) = sched_setgroups e p groups n"

fun cred_calls :: "sched_env \<Rightarrow> procs \<Rightarrow> cred_op list \<Rightarrow> (int list \<times> procs) exec" where
  "cred_calls e p [] = Some ([], p)"
| "cred_calls e p (c # cs) = do { (r, p) \<leftarrow> cred_call e p c; (rs, p) \<leftarrow> cred_calls e p cs; Some (r # rs, p) }"

text \<open>The users and the groups a thread may act as.\<close>

definition uids :: "sched_thread \<Rightarrow> u32 set" where "uids x = {th_ruid x, th_uid x, th_suid x}"
definition gids :: "sched_thread \<Rightarrow> u32 set" where "gids x = {th_rgid x, th_gid x, th_sgid x} \<union> set (groups_of x)"

definition runs :: "sched_env \<Rightarrow> procs \<Rightarrow> tid \<Rightarrow> bool" where
  "runs e p t \<longleftrightarrow> sched_local_current e (sched p) = Some (Some t)"

lemma runs_put [simp]: "runs e (put_thread t f p) u = runs e p u"
  by (simp add: runs_def sched_local_current_def)

definition narrowed :: "tid \<Rightarrow> procs \<Rightarrow> procs \<Rightarrow> bool" where
  "narrowed t p q \<longleftrightarrow> groups_ok (thread_of q t) \<and> uids (thread_of q t) \<subseteq> uids (thread_of p t) \<and> gids (thread_of q t) \<subseteq> gids (thread_of p t) \<and>
     (\<forall>u. u \<noteq> t \<longrightarrow> thread_of q u = thread_of p u)"

lemma narrowed_refl: "groups_ok (thread_of p t) \<Longrightarrow> narrowed t p p"
  by (simp add: narrowed_def)

lemma narrowed_trans:
  assumes "narrowed t p q" "narrowed t q r"
  shows "narrowed t p r"
  unfolding narrowed_def
proof (intro conjI allI impI)
  note n = assms [unfolded narrowed_def]
  show "groups_ok (thread_of r t)" using n(2) by (elim conjE)
  show "uids (thread_of r t) \<subseteq> uids (thread_of p t)" using n by (elim conjE) (rule order_trans)
  show "gids (thread_of r t) \<subseteq> gids (thread_of p t)" using n by (elim conjE) (rule order_trans)
  show "thread_of r u = thread_of p u" if "u \<noteq> t" for u using n that by simp
qed

lemma setgid_narrows:
  assumes "runs e p t" "groups_ok (thread_of p t)" "th_uid (thread_of p t) \<noteq> 0"
  shows "\<exists>r q. sched_setgid e p gid = Some (r, q) \<and> narrowed t p q \<and> runs e q t"
proof -
  let ?x = "thread_of p t"
  obtain gs n where g: "purge_groups gid (th_groups ?x) 0 (th_group_count ?x) = Some (gs, n)" "length gs = SCHED_GROUP_MAX" "n \<le> SCHED_GROUP_MAX"
    "take n gs = filter (\<lambda>g. g \<noteq> gid) (groups_of ?x)"
    using purge_groups_spec [of 0 "th_group_count ?x" "th_groups ?x" gid] assms(2) by (auto simp: groups_ok_def groups_of_def)
  show ?thesis
  proof (cases "gid = th_rgid ?x \<or> gid = th_gid ?x \<or> gid = th_sgid ?x")
    case True
    let ?q = "put_thread t (\<lambda>x. (if th_uid x = 0 then x\<lparr>th_rgid := gid, th_gid := gid, th_sgid := gid\<rparr> else x\<lparr>th_gid := gid\<rparr>)\<lparr>th_groups := gs, th_group_count := n\<rparr>) p"
    have "sched_setgid e p gid = Some (0, ?q)" using assms(1) True g(1) by (auto simp: sched_setgid_def runs_def)
    moreover have "narrowed t p ?q" using assms(3) True g(2-4) by (auto simp: narrowed_def groups_ok_def uids_def gids_def groups_of_def)
    ultimately show ?thesis using assms(1) by simp
  qed (use assms narrowed_refl in \<open>simp add: sched_setgid_def runs_def\<close>)
qed

lemma set_uid_narrows:
  assumes "groups_ok (thread_of p t)" "uid \<in> uids (thread_of p t)"
  shows "narrowed t p (put_thread t (\<lambda>x. x\<lparr>th_uid := uid\<rparr>) p)"
  using assms by (auto simp: narrowed_def groups_ok_def groups_of_def uids_def gids_def)

lemma setuid_eq:
  assumes "runs e p t" "th_uid (thread_of p t) \<noteq> 0"
  shows "sched_setuid e p uid = Some (if uid \<in> uids (thread_of p t) then (0, put_thread t (\<lambda>x. x\<lparr>th_uid := uid\<rparr>) p) else (- EPERM, p))"
    "sched_seteuid e p uid = Some (if uid \<in> uids (thread_of p t) then (0, put_thread t (\<lambda>x. x\<lparr>th_uid := uid\<rparr>) p) else (- EPERM, p))"
  using assms by (auto simp: sched_setuid_def sched_seteuid_def runs_def uids_def)

lemma cred_call_narrows:
  assumes "runs e p t" "groups_ok (thread_of p t)" "th_uid (thread_of p t) \<noteq> 0"
  shows "\<exists>r q. cred_call e p c = Some (r, q) \<and> narrowed t p q \<and> runs e q t"
proof (cases c)
  case (Setgid gid)
  then show ?thesis using setgid_narrows [OF assms] by simp
next
  case (Setuid uid)
  then show ?thesis using setuid_eq(1) [OF assms(1,3)] set_uid_narrows [OF assms(2)] narrowed_refl [of p t, OF assms(2)] assms(1) by simp
next
  case (Seteuid uid)
  then show ?thesis using setuid_eq(2) [OF assms(1,3)] set_uid_narrows [OF assms(2)] narrowed_refl [of p t, OF assms(2)] assms(1) by simp
next
  case (Setegid gid)
  let ?q = "put_thread t (\<lambda>x. x\<lparr>th_gid := gid\<rparr>) p" and ?in = "gid \<in> {th_rgid (thread_of p t), th_gid (thread_of p t), th_sgid (thread_of p t)}"
  have "sched_setegid e p gid = Some (if ?in then (0, ?q) else (- EPERM, p))" using assms(1,3) by (auto simp: sched_setegid_def runs_def)
  moreover have "?in \<Longrightarrow> narrowed t p ?q" using assms(2) by (auto simp: narrowed_def groups_ok_def groups_of_def uids_def gids_def)
  ultimately show ?thesis using Setegid narrowed_refl [of p t, OF assms(2)] assms(1) by simp
next
  case (Setgroups groups n)
  then show ?thesis using assms narrowed_refl [of p t, OF assms(2)] by (simp add: sched_setgroups_def runs_def)
qed

lemma cred_calls_narrow:
  assumes "runs e p t" "groups_ok (thread_of p t)" "0 \<notin> uids (thread_of p t)"
  shows "\<exists>rs q. cred_calls e p cs = Some (rs, q) \<and> length rs = length cs \<and> narrowed t p q"
  using assms
proof (induction cs arbitrary: p)
  case (Cons c cs)
  have u: "th_uid (thread_of p t) \<noteq> 0" using Cons.prems(3) by (auto simp: uids_def)
  obtain r q where q: "cred_call e p c = Some (r, q)" "narrowed t p q" "runs e q t" using cred_call_narrows [OF Cons.prems(1,2) u] by blast
  have "groups_ok (thread_of q t)" "0 \<notin> uids (thread_of q t)" using q(2) Cons.prems(3) by (auto simp: narrowed_def)
  then obtain rs s where "cred_calls e q cs = Some (rs, s)" "length rs = length cs" "narrowed t q s" using Cons.IH [OF q(3)] by blast
  then show ?case using q(1) narrowed_trans [OF q(2)] by auto
qed (simp add: narrowed_refl)

text \<open>
  (C7) No escalation of privileges. Whatever sequence of \<open>setuid\<close>, \<open>seteuid\<close>, \<open>setgid\<close>,
  \<open>setegid\<close> and \<open>setgroups\<close> calls a thread without any root identifier makes, every call returns, the users and the
  groups it can act as only shrink, and no other thread changes. A root thread that gives up its
  rights with \<open>setuid\<close> never gets them back: all three user identifiers stay the new one.
\<close>

theorem cred_no_escalation:
  assumes "runs e p t" "groups_ok (thread_of p t)"
  shows "(0 \<notin> uids (thread_of p t) \<longrightarrow>
      (\<exists>rs q. cred_calls e p cs = Some (rs, q) \<and> length rs = length cs \<and> uids (thread_of q t) \<subseteq> uids (thread_of p t) \<and>
         gids (thread_of q t) \<subseteq> gids (thread_of p t) \<and> (\<forall>u. u \<noteq> t \<longrightarrow> thread_of q u = thread_of p u))) \<and>
    (th_uid (thread_of p t) = 0 \<and> v \<noteq> 0 \<longrightarrow>
      (\<exists>rs q. cred_calls e p (Setuid v # cs) = Some (0 # rs, q) \<and> uids (thread_of q t) = {v}))"
proof (intro conjI impI)
  assume "0 \<notin> uids (thread_of p t)"
  then obtain rs q where q: "cred_calls e p cs = Some (rs, q)" "length rs = length cs" "narrowed t p q" using cred_calls_narrow [OF assms] by blast
  show "\<exists>rs q. cred_calls e p cs = Some (rs, q) \<and> length rs = length cs \<and> uids (thread_of q t) \<subseteq> uids (thread_of p t) \<and>
      gids (thread_of q t) \<subseteq> gids (thread_of p t) \<and> (\<forall>u. u \<noteq> t \<longrightarrow> thread_of q u = thread_of p u)"
    by (intro exI [of _ rs] exI [of _ q] conjI q(1,2)) (use q(3) in \<open>simp_all add: narrowed_def\<close>)
next
  assume root: "th_uid (thread_of p t) = 0 \<and> v \<noteq> 0"
  let ?p = "put_thread t (\<lambda>x. x\<lparr>th_ruid := v, th_uid := v, th_suid := v\<rparr>) p"
  have s: "sched_setuid e p v = Some (0, ?p)" using root assms(1) by (simp add: sched_setuid_def runs_def)
  have u: "uids (thread_of ?p t) = {v}" "groups_ok (thread_of ?p t)" using assms(2) by (simp_all add: uids_def groups_ok_def)
  obtain rs q where q: "cred_calls e ?p cs = Some (rs, q)" "narrowed t ?p q" using cred_calls_narrow [of e ?p t cs] assms(1) u root by auto
  have "uids (thread_of q t) \<subseteq> {v}" using q(2) unfolding narrowed_def u(1) by (elim conjE)
  then have "uids (thread_of q t) = {v}" by (auto simp: uids_def)
  then show "\<exists>rs q. cred_calls e p (Setuid v # cs) = Some (0 # rs, q) \<and> uids (thread_of q t) = {v}" using s q(1) by auto
qed

text \<open>A thread runs on core 0 as user and group 1000 in the groups 4 and 24; the other threads are root's.\<close>

definition demo_procs :: procs where
  "demo_procs = \<lparr>sched = \<lparr>
       threads = (\<lambda>t. if t = 1 then (demo_thread 1)\<lparr>th_ruid := 1000, th_uid := 1000, th_suid := 1001, th_rgid := 1000, th_gid := 1000, th_sgid := 1000,
           th_groups := [4, 24] @ replicate 14 0, th_group_count := 2\<rparr> else demo_thread (int t)),
       all_list = Some [1, 2], runqueues = [], wake_rr_cursor = 0,
       cpus = [\<lparr>cpu_current = Some 1, cpu_idle_thread = None, cpu_handoff_ready = None, cpu_preempt_depth = 0, cpu_sched_lock_depth = 0, cpu_slice_ns = 0,
         cpu_need_resched = False, cpu_force_resched = False, cpu_resched_irq = False\<rparr>],
       sleep = \<lparr>sl_heap = [], sl_count = 0\<rparr>,
       metrics = \<lparr>m_migrations = 0, m_steals = 0, m_wake_ipi = 0, m_runqueue_max = 0, m_balance_runs = 0, m_wait_timeout_count = 0\<rparr>, running = True\<rparr>,
     pid_index = None, next_user_pid = 3, next_kernel_pid = -1, zombie_list = Some [], reap_list = Some []\<rparr>"

theorem cred_no_escalation_witness:
  "\<exists>rs q. cred_calls (demo_env 2) demo_procs [Setuid 0, Setuid 1001, Setgroups (Some [0]) 1, Setgid 0, Setegid 1000, Seteuid 1000] = Some (rs, q) \<and>
     rs = [- 66, 0, - 66, - 66, 0, 0] \<and> uids (thread_of q 1) \<subseteq> {1000, 1001} \<and> gids (thread_of q 1) \<subseteq> {1000, 4, 24}"
proof -
  let ?cs = "[Setuid 0, Setuid 1001, Setgroups (Some [0]) 1, Setgid 0, Setegid 1000, Seteuid 1000]"
  have r: "runs (demo_env 2) demo_procs 1"
    by (simp add: runs_def sched_local_current_def demo_procs_def demo_env_def load_def)
  have x: "groups_ok (thread_of demo_procs 1)" "uids (thread_of demo_procs 1) = {1000, 1001}" "gids (thread_of demo_procs 1) = {1000, 4, 24}"
    by (auto simp: demo_procs_def groups_ok_def SCHED_GROUP_MAX_def uids_def gids_def groups_of_def)
  have "map_option fst (cred_calls (demo_env 2) demo_procs ?cs) = Some [- 66, 0, - 66, - 66, 0, 0]" by code_simp
  moreover have "0 \<notin> uids (thread_of demo_procs 1)" unfolding x(2) by simp
  then obtain rs q where q: "cred_calls (demo_env 2) demo_procs ?cs = Some (rs, q)" "uids (thread_of q 1) \<subseteq> uids (thread_of demo_procs 1)"
    "gids (thread_of q 1) \<subseteq> gids (thread_of demo_procs 1)"
    using mp [OF conjunct1 [OF cred_no_escalation [OF r x(1), where cs = ?cs and v = 5]]] by blast
  ultimately have "rs = [- 66, 0, - 66, - 66, 0, 0]" by simp
  then show ?thesis using q(1) q(2,3) [unfolded x(2,3)] by (intro exI conjI)
qed

end
