(* ===== verification/Sessions.thy ===== *)
theory Sessions
  imports Cred
begin

text \<open>
  Process groups and sessions stay consistent while threads are created, forked, looked up,
  regrouped and removed: the invariant over all steps of the process table.
\<close>

section \<open>Sessions\<close>

text \<open>
  All threads of a process group belong to one session, the session of the thread the group is
  named after while that thread lives; a group is named by an identifier that was
  given out, so a new thread never takes the name of a group; and user threads are those with positive identifiers.
\<close>

definition sessions_ok :: "procs \<Rightarrow> bool" where
  "sessions_ok p \<longleftrightarrow>
     (\<forall>t \<in> set (listed p). \<forall>u \<in> set (listed p). 0 < th_pgid (thread_of p t) \<and> th_pgid (thread_of p u) = th_pgid (thread_of p t) \<longrightarrow>
        th_sid (thread_of p u) = th_sid (thread_of p t)) \<and>
     (\<forall>t \<in> set (listed p). \<forall>u \<in> set (listed p). 0 < th_pid (thread_of p t) \<and> th_pgid (thread_of p u) = th_pid (thread_of p t) \<longrightarrow>
        th_sid (thread_of p u) = th_sid (thread_of p t)) \<and>
     (\<forall>t \<in> set (listed p). th_pgid (thread_of p t) < next_user_pid p) \<and>
     (\<forall>t \<in> set (listed p). th_user_thread (thread_of p t) = (0 < th_pid (thread_of p t)))"

lemma sessions_okI:
  assumes "\<And>t u. t \<in> set (listed p) \<Longrightarrow> u \<in> set (listed p) \<Longrightarrow> 0 < th_pgid (thread_of p t) \<Longrightarrow> th_pgid (thread_of p u) = th_pgid (thread_of p t) \<Longrightarrow>
      th_sid (thread_of p u) = th_sid (thread_of p t)"
    "\<And>t u. t \<in> set (listed p) \<Longrightarrow> u \<in> set (listed p) \<Longrightarrow> 0 < th_pid (thread_of p t) \<Longrightarrow> th_pgid (thread_of p u) = th_pid (thread_of p t) \<Longrightarrow>
      th_sid (thread_of p u) = th_sid (thread_of p t)"
    "\<And>t. t \<in> set (listed p) \<Longrightarrow> th_pgid (thread_of p t) < next_user_pid p"
    "\<And>t. t \<in> set (listed p) \<Longrightarrow> th_user_thread (thread_of p t) = (0 < th_pid (thread_of p t))"
  shows "sessions_ok p"
  unfolding sessions_ok_def
  by (intro conjI ballI impI; (elim conjE)?) (rule assms(1) assms(2) assms(3) assms(4); assumption)+

lemma sessions_okD:
  assumes "sessions_ok p"
  shows "t \<in> set (listed p) \<Longrightarrow> u \<in> set (listed p) \<Longrightarrow> 0 < th_pgid (thread_of p t) \<Longrightarrow> th_pgid (thread_of p u) = th_pgid (thread_of p t) \<Longrightarrow>
      th_sid (thread_of p u) = th_sid (thread_of p t)"
    "t \<in> set (listed p) \<Longrightarrow> u \<in> set (listed p) \<Longrightarrow> 0 < th_pid (thread_of p t) \<Longrightarrow> th_pgid (thread_of p u) = th_pid (thread_of p t) \<Longrightarrow>
      th_sid (thread_of p u) = th_sid (thread_of p t)"
    "t \<in> set (listed p) \<Longrightarrow> th_pgid (thread_of p t) < next_user_pid p"
    "t \<in> set (listed p) \<Longrightarrow> th_user_thread (thread_of p t) = (0 < th_pid (thread_of p t))"
proof -
  note d = assms [unfolded sessions_ok_def]
  show "th_sid (thread_of p u) = th_sid (thread_of p t)" if "t \<in> set (listed p)" "u \<in> set (listed p)" "0 < th_pgid (thread_of p t)"
    "th_pgid (thread_of p u) = th_pgid (thread_of p t)"
    using mp [OF bspec [OF bspec [OF conjunct1 [OF d] that(1)] that(2)] conjI [OF that(3,4)]] .
  show "th_sid (thread_of p u) = th_sid (thread_of p t)" if "t \<in> set (listed p)" "u \<in> set (listed p)" "0 < th_pid (thread_of p t)"
    "th_pgid (thread_of p u) = th_pid (thread_of p t)"
    using mp [OF bspec [OF bspec [OF conjunct1 [OF conjunct2 [OF d]] that(1)] that(2)] conjI [OF that(3,4)]] .
  show "th_pgid (thread_of p t) < next_user_pid p" if "t \<in> set (listed p)" using bspec [OF conjunct1 [OF conjunct2 [OF conjunct2 [OF d]]] that] .
  show "th_user_thread (thread_of p t) = (0 < th_pid (thread_of p t))" if "t \<in> set (listed p)" using bspec [OF conjunct2 [OF conjunct2 [OF conjunct2 [OF d]]] that] .
qed

text \<open>A state with no other threads in the list and the same groups.\<close>

lemma sessions_ok_sub:
  assumes "sessions_ok p" "set (listed q) \<subseteq> set (listed p)" "next_user_pid p \<le> next_user_pid q"
    "\<And>t. th_pid (thread_of q t) = th_pid (thread_of p t) \<and> th_pgid (thread_of q t) = th_pgid (thread_of p t) \<and>
       th_sid (thread_of q t) = th_sid (thread_of p t) \<and> th_user_thread (thread_of q t) = th_user_thread (thread_of p t)"
  shows "sessions_ok q"
proof -
  note D = sessions_okD [OF assms(1)]
  have l: "t \<in> set (listed p)" if "t \<in> set (listed q)" for t using assms(2) that by (rule subsetD)
  have e: "th_pid (thread_of q t) = th_pid (thread_of p t)" "th_pgid (thread_of q t) = th_pgid (thread_of p t)"
    "th_sid (thread_of q t) = th_sid (thread_of p t)" "th_user_thread (thread_of q t) = th_user_thread (thread_of p t)" for t using assms(4) [of t] by simp_all
  show ?thesis
  proof (rule sessions_okI, unfold e)
    fix t assume t: "t \<in> set (listed q)"
    show "th_pgid (thread_of p t) < next_user_pid q" using D(3) [OF l [OF t]] assms(3) by linarith
    show "th_user_thread (thread_of p t) = (0 < th_pid (thread_of p t))" by (rule D(4) [OF l [OF t]])
    fix u assume u: "u \<in> set (listed q)"
    show "th_sid (thread_of p u) = th_sid (thread_of p t)" if "0 < th_pgid (thread_of p t)" "th_pgid (thread_of p u) = th_pgid (thread_of p t)"
      by (rule D(1) [OF l [OF t] l [OF u] that])
    show "th_sid (thread_of p u) = th_sid (thread_of p t)" if "0 < th_pid (thread_of p t)" "th_pgid (thread_of p u) = th_pid (thread_of p t)"
      by (rule D(2) [OF l [OF t] l [OF u] that])
  qed
qed

text \<open>One thread of the list moves to the group \<open>g\<close> and the session \<open>s\<close>.\<close>

lemma sessions_ok_move:
  assumes ok: "sessions_ok p" and t: "t \<in> set (listed p)" "0 < th_pid (thread_of p t)"
    and f: "th_pid (f (thread_of p t)) = th_pid (thread_of p t)" "th_user_thread (f (thread_of p t)) = th_user_thread (thread_of p t)"
      "th_pgid (f (thread_of p t)) = g" "th_sid (f (thread_of p t)) = s"
    and g: "g < next_user_pid p" "\<And>u. u \<in> set (listed p) \<Longrightarrow> u \<noteq> t \<Longrightarrow> th_pgid (thread_of p u) = g \<Longrightarrow> th_sid (thread_of p u) = s"
      "\<And>u. u \<in> set (listed p) \<Longrightarrow> u \<noteq> t \<Longrightarrow> th_pid (thread_of p u) = g \<Longrightarrow> th_sid (thread_of p u) = s"
      "\<And>u. u \<in> set (listed p) \<Longrightarrow> u \<noteq> t \<Longrightarrow> th_pgid (thread_of p u) = th_pid (thread_of p t) \<Longrightarrow> th_sid (thread_of p u) = s"
  shows "sessions_ok (put_thread t f p)"
proof -
  let ?q = "put_thread t f p"
  note D = sessions_okD [OF ok]
  have q: "listed ?q = listed p" "next_user_pid ?q = next_user_pid p" "th_pid (thread_of ?q u) = th_pid (thread_of p u)"
    "th_user_thread (thread_of ?q u) = th_user_thread (thread_of p u)"
    "th_pgid (thread_of ?q u) = (if u = t then g else th_pgid (thread_of p u))" "th_sid (thread_of ?q u) = (if u = t then s else th_sid (thread_of p u))" for u
    using f by simp_all
  show ?thesis
  proof (rule sessions_okI, unfold q)
    fix u assume u: "u \<in> set (listed p)"
    show "(if u = t then g else th_pgid (thread_of p u)) < next_user_pid p" using D(3) [OF u] g(1) by simp
    show "th_user_thread (thread_of p u) = (0 < th_pid (thread_of p u))" by (rule D(4) [OF u])
    fix w assume w: "w \<in> set (listed p)"
    show "(if w = t then s else th_sid (thread_of p w)) = (if u = t then s else th_sid (thread_of p u))"
      if "0 < (if u = t then g else th_pgid (thread_of p u))" "(if w = t then g else th_pgid (thread_of p w)) = (if u = t then g else th_pgid (thread_of p u))"
      using that D(1) [OF u w] g(2) [OF u] g(2) [OF w] by (cases "u = t"; cases "w = t") simp_all
    show "(if w = t then s else th_sid (thread_of p w)) = (if u = t then s else th_sid (thread_of p u))"
      if "0 < th_pid (thread_of p u)" "(if w = t then g else th_pgid (thread_of p w)) = th_pid (thread_of p u)"
      using that D(2) [OF u w] g(3) [OF u] g(4) [OF w] by (cases "u = t"; cases "w = t") simp_all
  qed
qed

lemma setsid_eq:
  assumes "procs_ok p" "runs e p t"
  shows "sched_setsid e p =
     (if \<not> th_user_thread (thread_of p t) then Some (- EINVAL, p)
      else if \<exists>u \<in> set (listed p). th_pgid (thread_of p u) = th_pid (thread_of p t) then Some (- EPERM, p)
      else Some (th_pid (thread_of p t), put_thread t (\<lambda>x. x\<lparr>th_sid := th_pid (thread_of p t), th_pgid := th_pid (thread_of p t), th_tty_index := TTY_NONE\<rparr>) p))"
  using assms(2) by (simp add: sched_setsid_def runs_def list_ex_iff procs_okD(1) [OF assms(1)] Let_def)

lemma setsid_sessions:
  assumes ok: "procs_inv p" "sessions_ok p" and r: "runs e p t" "t \<in> set (listed p)" and s: "sched_setsid e p = Some (v, q)"
  shows "procs_inv q \<and> sessions_ok q"
proof (cases "th_user_thread (thread_of p t) \<and> (\<forall>u \<in> set (listed p). th_pgid (thread_of p u) \<noteq> th_pid (thread_of p t))")
  case True
  note pok = procs_invD(1) [OF ok(1)]
  let ?pid = "th_pid (thread_of p t)" and ?f = "\<lambda>x. x\<lparr>th_sid := th_pid (thread_of p t), th_pgid := th_pid (thread_of p t), th_tty_index := TTY_NONE\<rparr>"
  have us: "th_user_thread (thread_of p t)" using True by (rule conjunct1)
  have ng: "th_pgid (thread_of p u) \<noteq> ?pid" if "u \<in> set (listed p)" for u using bspec [OF conjunct2 [OF True] that] .
  have "sched_setsid e p = Some (?pid, put_thread t ?f p)" unfolding setsid_eq [OF pok r(1)] using ng us by auto
  then have q: "q = put_thread t ?f p" using s by simp
  have pos: "0 < ?pid" using sessions_okD(4) [OF ok(2) r(2)] us by simp
  have "sessions_ok (put_thread t ?f p)"
  proof (rule sessions_ok_move [OF ok(2) r(2) pos, where g = ?pid and s = ?pid])
    show "?pid < next_user_pid p" using procs_okD(4) [OF pok r(2)] by simp
    show "th_sid (thread_of p u) = ?pid" if "u \<in> set (listed p)" "u \<noteq> t" "th_pid (thread_of p u) = ?pid" for u
      using pids_uniqueD [OF procs_okD(7) [OF pok] r(2) that(1) pos that(3)] that(2) by simp
  qed (use ng in simp_all)
  moreover have "procs_inv (put_thread t ?f p)" by (rule put_thread_inv [OF ok(1)]) (simp_all add: rq_view_def rq_key_def)
  ultimately show ?thesis using q by simp
next
  case False
  then have "sched_setsid e p = Some (- EINVAL, p) \<or> sched_setsid e p = Some (- EPERM, p)"
    unfolding setsid_eq [OF procs_invD(1) [OF ok(1)] r(1)] by (simp split: if_split)
  then have "q = p" using s by auto
  then show ?thesis using ok by simp
qed

lemma setpgid_eq:
  assumes pok: "procs_ok p" and r: "runs e p self" and pid: "pid \<le> INT_MAX"
  shows "sched_setpgid co e p pid pgid =
     (if \<not> th_user_thread (thread_of p self) \<or> pid < 0 \<or> pgid < 0 then Some (- EINVAL, p)
      else case if 0 < pid then find_listed p pid (listed p) else Some self of None \<Rightarrow> Some (- ESRCH, p) | Some t \<Rightarrow> regroup p self t pgid)"
proof -
  have f: "(if 0 < pid then find_thread co p pid else Some (Some self, p)) = Some (if 0 < pid then find_listed p pid (listed p) else Some self, p)"
    using find_thread_spec [OF pok pid, of co] by simp
  show ?thesis unfolding sched_setpgid_def r [unfolded runs_def] bind.simps option.case f prod.case ..
qed

lemma group_in_session_eq:
  "procs_ok p \<Longrightarrow> group_in_session p pgid sid = Some (\<exists>u \<in> set (listed p). th_pgid (thread_of p u) = pgid \<and> th_sid (thread_of p u) = sid)"
  by (simp add: group_in_session_def procs_okD(1) list_ex_iff)

lemma regroup_cases:
  assumes pok: "procs_ok p" and s: "regroup p self t pgid = Some (v, q)" and pgid: "0 \<le> pgid"
  obtains "q = p"
  | g where "th_user_thread (thread_of p t)" "th_sid (thread_of p t) = th_sid (thread_of p self)"
      "q = put_thread t (\<lambda>x. x\<lparr>th_pgid := g\<rparr>) p" "g = th_pid (thread_of p t)"
  | g u where "th_user_thread (thread_of p t)" "th_sid (thread_of p t) = th_sid (thread_of p self)"
      "q = put_thread t (\<lambda>x. x\<lparr>th_pgid := g\<rparr>) p" "0 < g" "u \<in> set (listed p)" "th_pgid (thread_of p u) = g" "th_sid (thread_of p u) = th_sid (thread_of p self)"
proof -
  define g where "g = (if pgid = 0 then th_pid (thread_of p t) else pgid)"
  define free where "free \<longleftrightarrow> g = th_pid (thread_of p t) \<or> (\<exists>u \<in> set (listed p). th_pgid (thread_of p u) = g \<and> th_sid (thread_of p u) = th_sid (thread_of p self))"
  have f: "(if g = th_pid (thread_of p t) then Some True else group_in_session p g (th_sid (thread_of p self))) = Some free"
    by (simp add: group_in_session_eq [OF pok] free_def)
  show thesis
  proof (cases "q = p")
    case False
    have "th_user_thread (thread_of p t) \<and> th_sid (thread_of p t) = th_sid (thread_of p self) \<and> free \<and> q = put_thread t (\<lambda>x. x\<lparr>th_pgid := g\<rparr>) p"
      using s False unfolding regroup_def Let_def g_def [symmetric] f by (simp split: if_split_asm)
    then have m: "th_user_thread (thread_of p t)" "th_sid (thread_of p t) = th_sid (thread_of p self)" "q = put_thread t (\<lambda>x. x\<lparr>th_pgid := g\<rparr>) p"
      and fr: "free" by - (elim conjE, assumption)+
    show thesis
    proof (cases "g = th_pid (thread_of p t)")
      case False
      then obtain u where u: "u \<in> set (listed p)" "th_pgid (thread_of p u) = g" "th_sid (thread_of p u) = th_sid (thread_of p self)"
        using fr(1) unfolding free_def by blast
      moreover have "0 < g" using False pgid by (simp add: g_def split: if_splits)
      ultimately show thesis by (intro that(3) [OF m])
    qed (rule that(2) [OF m])
  qed (rule that(1))
qed

lemma regroup_sessions:
  assumes ok: "procs_inv p" "sessions_ok p" and t: "t \<in> set (listed p)" and pgid: "0 \<le> pgid" and s: "regroup p self t pgid = Some (v, q)"
  shows "procs_inv q \<and> sessions_ok q"
proof -
  note pok = procs_invD(1) [OF ok(1)] and D = sessions_okD [OF ok(2)]
  have inv: "procs_inv (put_thread t (\<lambda>x. x\<lparr>th_pgid := g\<rparr>) p)" for g by (rule put_thread_inv [OF ok(1)]) (simp_all add: rq_view_def rq_key_def)
  show ?thesis
  proof (rule regroup_cases [OF pok s pgid])
    assume "q = p"
    then show ?thesis using ok by simp
  next
    fix g
    assume us: "th_user_thread (thread_of p t)" and q: "q = put_thread t (\<lambda>x. x\<lparr>th_pgid := g\<rparr>) p" and g: "g = th_pid (thread_of p t)"
    have pos: "0 < th_pid (thread_of p t)" using D(4) [OF t] us by simp
    have "sessions_ok (put_thread t (\<lambda>x. x\<lparr>th_pgid := g\<rparr>) p)"
    proof (rule sessions_ok_move [OF ok(2) t pos, where g = g and s = "th_sid (thread_of p t)"])
      show "g < next_user_pid p" using procs_okD(4) [OF pok t] g by simp
      show "th_sid (thread_of p u) = th_sid (thread_of p t)" if "u \<in> set (listed p)" "th_pgid (thread_of p u) = g" for u
        by (rule D(2) [OF t that(1) pos]) (simp add: that(2) g)
      show "th_sid (thread_of p u) = th_sid (thread_of p t)" if "u \<in> set (listed p)" "th_pgid (thread_of p u) = th_pid (thread_of p t)" for u
        by (rule D(2) [OF t that(1) pos that(2)])
      show "th_sid (thread_of p u) = th_sid (thread_of p t)" if "u \<in> set (listed p)" "u \<noteq> t" "th_pid (thread_of p u) = g" for u
        using pids_uniqueD [OF procs_okD(7) [OF pok] t that(1) pos] that(2,3) g by simp
    qed simp_all
    then show ?thesis using inv q by simp
  next
    fix g u
    assume us: "th_user_thread (thread_of p t)" and sid: "th_sid (thread_of p t) = th_sid (thread_of p self)"
      and q: "q = put_thread t (\<lambda>x. x\<lparr>th_pgid := g\<rparr>) p" and g: "0 < g" and u: "u \<in> set (listed p)" "th_pgid (thread_of p u) = g" "th_sid (thread_of p u) = th_sid (thread_of p self)"
    have pos: "0 < th_pid (thread_of p t)" using D(4) [OF t] us by simp
    have su: "th_sid (thread_of p u) = th_sid (thread_of p t)" using u(3) sid by simp
    have "sessions_ok (put_thread t (\<lambda>x. x\<lparr>th_pgid := g\<rparr>) p)"
    proof (rule sessions_ok_move [OF ok(2) t pos, where g = g and s = "th_sid (thread_of p t)"])
      show "g < next_user_pid p" using D(3) [OF u(1)] u(2) by simp
      show "th_sid (thread_of p w) = th_sid (thread_of p t)" if "w \<in> set (listed p)" "th_pgid (thread_of p w) = g" for w
        unfolding su [symmetric] by (rule D(1) [OF u(1) that(1)]) (simp_all add: u(2) g that(2))
      show "th_sid (thread_of p w) = th_sid (thread_of p t)" if "w \<in> set (listed p)" "th_pid (thread_of p w) = g" for w
        unfolding su [symmetric] by (rule sym, rule D(2) [OF that(1) u(1)]) (simp_all add: u(2) g that(2))
      show "th_sid (thread_of p w) = th_sid (thread_of p t)" if "w \<in> set (listed p)" "th_pgid (thread_of p w) = th_pid (thread_of p t)" for w
        by (rule D(2) [OF t that(1) pos that(2)])
    qed simp_all
    then show ?thesis using inv q by simp
  qed
qed

lemma setpgid_sessions:
  assumes ok: "procs_inv p" "sessions_ok p" and r: "runs e p self" "self \<in> set (listed p)" and pid: "pid \<le> INT_MAX"
    and s: "sched_setpgid co e p pid pgid = Some (v, q)"
  shows "procs_inv q \<and> sessions_ok q"
proof -
  note pok = procs_invD(1) [OF ok(1)]
  have e: "procs_inv p \<and> sessions_ok p" using ok by simp
  define found where "found = (if 0 < pid then find_listed p pid (listed p) else Some self)"
  have c: "q = p \<or> (\<exists>t. found = Some t \<and> 0 \<le> pgid \<and> regroup p self t pgid = Some (v, q))"
    using s unfolding setpgid_eq [OF pok r(1) pid] found_def [symmetric] by (cases found) (auto split: if_splits)
  show ?thesis
  proof (cases "q = p")
    case False
    then obtain t where f: "found = Some t" "0 \<le> pgid" "regroup p self t pgid = Some (v, q)" using c by blast
    have t: "t \<in> set (listed p)" using f(1) r(2) find_listed_Some [of p pid "listed p" t] by (auto simp: found_def split: if_splits)
    show ?thesis using regroup_sessions [OF ok t f(2,3)] .
  qed (use e in simp)
qed


section \<open>Creation and removal\<close>

text \<open>A user thread on the core is in the list; the idle thread and kernel threads have no session.\<close>

definition current_listed :: "sched_env \<Rightarrow> procs \<Rightarrow> bool" where
  "current_listed e p \<longleftrightarrow> (\<forall>t. runs e p t \<longrightarrow> th_user_thread (thread_of p t) \<longrightarrow> t \<in> set (listed p))"

lemma sessions_ok_add:
  assumes ok: "sessions_ok p" and l: "listed q = listed p @ [t]"
    and e: "\<And>u. u \<in> set (listed p) \<Longrightarrow> th_pid (thread_of q u) = th_pid (thread_of p u)" "\<And>u. u \<in> set (listed p) \<Longrightarrow> th_pgid (thread_of q u) = th_pgid (thread_of p u)"
      "\<And>u. u \<in> set (listed p) \<Longrightarrow> th_sid (thread_of q u) = th_sid (thread_of p u)" "\<And>u. u \<in> set (listed p) \<Longrightarrow> th_user_thread (thread_of q u) = th_user_thread (thread_of p u)"
    and a: "\<And>u. u \<in> set (listed p) \<Longrightarrow> 0 < th_pgid (thread_of p u) \<Longrightarrow> th_pgid (thread_of q t) = th_pgid (thread_of p u) \<Longrightarrow> th_sid (thread_of q t) = th_sid (thread_of p u)"
      "\<And>u. u \<in> set (listed p) \<Longrightarrow> 0 < th_pid (thread_of p u) \<Longrightarrow> th_pgid (thread_of q t) = th_pid (thread_of p u) \<Longrightarrow> th_sid (thread_of q t) = th_sid (thread_of p u)"
      "\<And>u. u \<in> set (listed p) \<Longrightarrow> 0 < th_pid (thread_of q t) \<Longrightarrow> th_pgid (thread_of p u) \<noteq> th_pid (thread_of q t)"
    and n: "th_pgid (thread_of q t) < next_user_pid q" "next_user_pid p \<le> next_user_pid q" "th_user_thread (thread_of q t) = (0 < th_pid (thread_of q t))"
  shows "sessions_ok q"
proof (rule sessions_okI)
  note D = sessions_okD [OF ok]
  have s: "u \<in> set (listed p) \<or> u = t" if "u \<in> set (listed q)" for u using that l by auto
  fix u assume u: "u \<in> set (listed q)"
  show "th_pgid (thread_of q u) < next_user_pid q" using s [OF u] D(3) [of u] e(2) [of u] n by (elim disjE) simp_all
  show "th_user_thread (thread_of q u) = (0 < th_pid (thread_of q u))" using s [OF u] D(4) [of u] e(1,4) [of u] n(3) by (elim disjE) simp_all
  fix w assume w: "w \<in> set (listed q)"
  show "th_sid (thread_of q w) = th_sid (thread_of q u)" if h: "0 < th_pgid (thread_of q u)" "th_pgid (thread_of q w) = th_pgid (thread_of q u)"
    using s [OF u] s [OF w]
  proof (elim disjE)
    assume i: "u \<in> set (listed p)" "w \<in> set (listed p)"
    note h' = h [unfolded e(2) [OF i(1)] e(2) [OF i(2)]]
    show ?thesis unfolding e(3) [OF i(1)] e(3) [OF i(2)] by (rule D(1) [OF i h'])
  next
    assume i: "u \<in> set (listed p)" "w = t"
    note h' = h [unfolded i(2) e(2) [OF i(1)]]
    show ?thesis unfolding i(2) e(3) [OF i(1)] by (rule a(1) [OF i(1) h'])
  next
    assume i: "u = t" "w \<in> set (listed p)"
    note h' = h [unfolded i(1) e(2) [OF i(2)]]
    show ?thesis unfolding i(1) e(3) [OF i(2)] by (rule sym, rule a(1) [OF i(2)]) (use h' in simp_all)
  qed simp
  show "th_sid (thread_of q w) = th_sid (thread_of q u)" if h: "0 < th_pid (thread_of q u)" "th_pgid (thread_of q w) = th_pid (thread_of q u)"
    using s [OF u] s [OF w]
  proof (elim disjE)
    assume i: "u \<in> set (listed p)" "w \<in> set (listed p)"
    note h' = h [unfolded e(1) [OF i(1)] e(2) [OF i(2)]]
    show ?thesis unfolding e(3) [OF i(1)] e(3) [OF i(2)] by (rule D(2) [OF i h'])
  next
    assume i: "u \<in> set (listed p)" "w = t"
    note h' = h [unfolded i(2) e(1) [OF i(1)]]
    show ?thesis unfolding i(2) e(3) [OF i(1)] by (rule a(2) [OF i(1) h'])
  next
    assume i: "u = t" "w \<in> set (listed p)"
    note h' = h [unfolded i(1) e(2) [OF i(2)]]
    show ?thesis by (rule notE [OF a(3) [OF i(2) h'(1)] h'(2)])
  qed simp
qed

lemma created_sessions:
  assumes ok: "procs_inv p" "sessions_ok p" "procs_inv q" and c: "created p q t user (map_option (thread_of p) y)"
    and y: "sched_local_current e (sched p) = Some y" "current_listed e p" and f: "fresh_thread p t"
    and cls: "user = (0 < th_pid (thread_of q t))" and n: "next_user_pid p \<le> next_user_pid q"
  shows "sessions_ok q"
proof -
  note D = sessions_okD [OF ok(2)]
  let ?x = "thread_of q t"
  have l: "listed q = listed p @ [t]" and same: "\<And>u. u \<noteq> t \<Longrightarrow> same_thread (thread_of q u) (thread_of p u)" and us: "th_user_thread ?x = user"
    and pid: "0 < th_pid ?x \<Longrightarrow> th_pid ?x = next_user_pid p" using c by (auto simp: created_def)
  have nt: "u \<noteq> t" if "u \<in> set (listed p)" for u using that f by (auto simp: fresh_thread_def)
  have e: "th_pid (thread_of q u) = th_pid (thread_of p u)" "th_pgid (thread_of q u) = th_pgid (thread_of p u)" "th_sid (thread_of q u) = th_sid (thread_of p u)"
    "th_user_thread (thread_of q u) = th_user_thread (thread_of p u)" if "u \<in> set (listed p)" for u
    using same_threadD(1,3,4,5) [OF same [OF nt [OF that]]] by simp_all
  text \<open>The new thread is in the group of a listed thread, leads its own group, or is a kernel thread.\<close>
  have new: "(\<exists>w \<in> set (listed p). 0 < th_pid ?x \<and> th_pgid ?x = th_pgid (thread_of p w) \<and> th_sid ?x = th_sid (thread_of p w)) \<or>
      0 < th_pid ?x \<and> th_pgid ?x = th_pid ?x \<and> th_sid ?x = th_pid ?x \<or> th_pid ?x \<le> 0 \<and> th_pgid ?x = 0 \<and> th_sid ?x = 0"
  proof (cases user)
    case True
    show ?thesis
    proof (cases "\<exists>w. y = Some w \<and> th_user_thread (thread_of p w) \<and> 0 < th_pid (thread_of p w)")
      case w: True
      then obtain w where w: "y = Some w" "th_user_thread (thread_of p w)" "0 < th_pid (thread_of p w)" by blast
      have "w \<in> set (listed p)" using y w(1,2) by (simp add: current_listed_def runs_def)
      moreover have "th_pgid ?x = th_pgid (thread_of p w)" "th_sid ?x = th_sid (thread_of p w)" using c w True by (auto simp: created_def init_thread_session)
      ultimately show ?thesis using cls True by blast
    next
      case False
      then have "th_pgid ?x = th_pid ?x" "th_sid ?x = th_pid ?x" using c True by (cases y; auto simp: created_def init_thread_session)+
      then show ?thesis using cls True by simp
    qed
  next
    case False
    then show ?thesis using c cls by (auto simp: created_def init_thread_session)
  qed
  have old: "th_pid (thread_of p u) < next_user_pid p" if "u \<in> set (listed p)" for u using procs_okD(4) [OF procs_invD(1) [OF ok(1)] that] by simp
  have lim: "th_pid ?x < next_user_pid q" "1 \<le> next_user_pid p" using procs_okD(4) [OF procs_invD(1) [OF ok(3)], of t] procs_okD(5) [OF procs_invD(1) [OF ok(1)]] l by simp_all
  show ?thesis
  proof (rule sessions_ok_add [OF ok(2) l e])
    fix u assume u: "u \<in> set (listed p)"
    show "th_sid ?x = th_sid (thread_of p u)" if h: "0 < th_pgid (thread_of p u)" "th_pgid ?x = th_pgid (thread_of p u)" using new
    proof (elim disjE bexE conjE)
      fix w assume w: "w \<in> set (listed p)" "th_pgid ?x = th_pgid (thread_of p w)" "th_sid ?x = th_sid (thread_of p w)"
      show ?thesis unfolding w(3) by (rule D(1) [OF u w(1) h(1)]) (use h(2) w(2) in simp)
    qed (use h pid D(3) [OF u] in linarith)+
    show "th_sid ?x = th_sid (thread_of p u)" if h: "0 < th_pid (thread_of p u)" "th_pgid ?x = th_pid (thread_of p u)" using new
    proof (elim disjE bexE conjE)
      fix w assume w: "w \<in> set (listed p)" "th_pgid ?x = th_pgid (thread_of p w)" "th_sid ?x = th_sid (thread_of p w)"
      show ?thesis unfolding w(3) by (rule D(2) [OF u w(1) h(1)]) (use h(2) w(2) in simp)
    qed (use h pid old [OF u] in linarith)+
    show "th_pgid (thread_of p u) \<noteq> th_pid ?x" if "0 < th_pid ?x" using D(3) [OF u] pid [OF that] by simp
  next
    show "th_pgid ?x < next_user_pid q" using new
    proof (elim disjE bexE conjE)
      fix w assume "w \<in> set (listed p)" "th_pgid ?x = th_pgid (thread_of p w)"
      then show ?thesis using D(3) [of w] n by linarith
    qed (use lim n in linarith)+
    show "th_user_thread ?x = (0 < th_pid ?x)" using us cls by simp
  qed (use n in simp_all)
qed


section \<open>The steps of the process table\<close>

text \<open>
  A step is a whole call under the scheduler lock, or a step of the rest of the scheduler, which
  may do anything but touch the identifiers and the list of threads. \<open>current_listed\<close> holds
  since a thread leaves the list only after it stopped running.
\<close>

definition ids_same :: "sched_thread \<Rightarrow> sched_thread \<Rightarrow> bool" where
  "ids_same x y \<longleftrightarrow> th_pid x = th_pid y \<and> th_pgid x = th_pgid y \<and> th_sid x = th_sid y \<and> th_user_thread x = th_user_thread y \<and>
     th_in_all_list x = th_in_all_list y \<and> th_in_reap_list x = th_in_reap_list y \<and> th_lifecycle_flags x = th_lifecycle_flags y"

inductive proc_step :: "(size_t \<Rightarrow> bool) \<Rightarrow> procs \<Rightarrow> procs \<Rightarrow> bool" for co where
  create: "env_ok e \<Longrightarrow> current_listed e p \<Longrightarrow> fresh_thread p t \<Longrightarrow>
    create_thread co e p (Some t) stack_ok vm_ok ctx enqueue (cls = SCHED_PID_USER) cls = Some (r, q) \<Longrightarrow> proc_step co p q"
| fork: "env_ok e \<Longrightarrow> runs e p y \<Longrightarrow> y \<in> set (listed p) \<Longrightarrow> th_user_thread (thread_of p y) \<Longrightarrow> fresh_thread p t \<Longrightarrow>
    sched_create_user_thread co e p (Some t) stack_ok vm_ok = Some (Some t, q) \<Longrightarrow> proc_step co p (copy_fork_state t y q)"
| cleanup: "thread_cleanup p (Some t) = Some q \<Longrightarrow> proc_step co p q"
| lookup: "pid \<le> INT_MAX \<Longrightarrow> sched_find_thread co p pid = Some (r, q) \<Longrightarrow> proc_step co p q"
| release: "proc_step co p (thread_put (Some t) p)"
| setpgid: "runs e p y \<Longrightarrow> y \<in> set (listed p) \<Longrightarrow> pid \<le> INT_MAX \<Longrightarrow> sched_setpgid co e p pid pgid = Some (v, q) \<Longrightarrow> proc_step co p q"
| setsid: "runs e p y \<Longrightarrow> y \<in> set (listed p) \<Longrightarrow> sched_setsid e p = Some (v, q) \<Longrightarrow> proc_step co p q"
| schedule: "sched_ok s \<Longrightarrow> all_list s = all_list (sched p) \<Longrightarrow> (\<And>u. ids_same (threads s u) (thread_of p u)) \<Longrightarrow> proc_step co p (p\<lparr>sched := s\<rparr>)"

lemma create_step:
  assumes ok: "procs_inv p" "sessions_ok p" and a: "env_ok e" "current_listed e p" "fresh_thread p t"
    and c: "create_thread co e p (Some t) stack_ok vm_ok ctx enqueue (cls = SCHED_PID_USER) cls = Some (r, q)"
  shows "procs_inv q \<and> sessions_ok q"
proof (rule create_thread_spec [OF ok(1) a(1,3), of co stack_ok vm_ok ctx enqueue "cls = SCHED_PID_USER" cls])
  assume "create_thread co e p (Some t) stack_ok vm_ok ctx enqueue (cls = SCHED_PID_USER) cls = None"
  then show ?thesis using c by simp
next
  fix q' assume f: "create_thread co e p (Some t) stack_ok vm_ok ctx enqueue (cls = SCHED_PID_USER) cls = Some (None, q')" "procs_inv q'" "sched q' = sched p"
    "next_user_pid p \<le> next_user_pid q'"
  have "sessions_ok q'" by (rule sessions_ok_sub [OF ok(2) _ f(4)]) (simp_all add: f(3) listed_def)
  then show ?thesis using c f(1,2) by simp
next
  fix q' y assume m: "create_thread co e p (Some t) stack_ok vm_ok ctx enqueue (cls = SCHED_PID_USER) cls = Some (Some t, q')" "procs_inv q'"
    "next_user_pid p \<le> next_user_pid q'" "sched_local_current e (sched p) = Some y" "created p q' t (cls = SCHED_PID_USER) (map_option (thread_of p) y)"
    "(cls = SCHED_PID_USER) = (0 < th_pid (thread_of q' t))"
  have "sessions_ok q'" by (rule created_sessions [OF ok m(2,5,4) a(2,3) m(6,3)])
  then show ?thesis using c m(1,2) by simp
qed

lemma fork_step:
  assumes ok: "procs_inv p" "sessions_ok p" and e: "env_ok e" and y: "runs e p y" "y \<in> set (listed p)" "th_user_thread (thread_of p y)"
    and f: "fresh_thread p t" and c: "sched_create_user_thread co e p (Some t) stack_ok vm_ok = Some (Some t, q)"
  shows "procs_inv (copy_fork_state t y q) \<and> sessions_ok (copy_fork_state t y q)"
proof -
  have cr: "create_thread co e p (Some t) stack_ok vm_ok 0 False True SCHED_PID_USER = Some (Some t, q)" using c by (simp add: sched_create_user_thread_def)
  have cl: "current_listed e p" using y(1,2) by (simp add: current_listed_def runs_def)
  have ok': "procs_inv q" "sessions_ok q" using create_step [OF ok e cl f, where cls = SCHED_PID_USER] cr by auto
  have "created p q t True (Some (thread_of p y))"
    by (rule create_thread_spec [OF ok(1) e f, of co stack_ok vm_ok 0 False True SCHED_PID_USER]) (use y(1) cr in \<open>simp_all add: runs_def\<close>)
  then have x: "th_pgid (thread_of q t) = th_pgid (thread_of p y)" "th_sid (thread_of q t) = th_sid (thread_of p y)" "same_thread (thread_of q y) (thread_of p y)"
    using sessions_okD(4) [OF ok(2) y(2)] y(2,3) f by (auto simp: created_def init_thread_session fresh_thread_def)
  have i: "procs_inv (copy_fork_state t y q)" unfolding copy_fork_state_def Let_def by (rule put_thread_inv [OF ok'(1)]) (simp_all add: rq_view_def rq_key_def)
  have "sessions_ok (copy_fork_state t y q)"
    by (rule sessions_ok_sub [OF ok'(2)]) (use x(1,2) same_threadD(3,4) [OF x(3)] in \<open>simp_all add: copy_fork_state_def Let_def\<close>)
  then show ?thesis using i by simp
qed

lemma proc_step_inv:
  assumes "proc_step co p q" "procs_inv p" "sessions_ok p"
  shows "procs_inv q \<and> sessions_ok q"
  using assms(1)
proof cases
  case (create e t stack_ok vm_ok ctx enqueue cls r)
  then show ?thesis using create_step [OF assms(2,3)] by blast
next
  case (fork e y t stack_ok vm_ok q')
  then show ?thesis using fork_step [OF assms(2,3)] by blast
next
  case (cleanup t)
  obtain q' where q: "cleanup_thread p (Some t) = Some q'" "procs_inv q'" "listed q' = remove1 t (listed p)" "next_user_pid q' = next_user_pid p"
    "\<And>u. thread_of q' u = (thread_of p u)\<lparr>th_in_all_list := u \<in> set (listed p) - {t}\<rparr>" using cleanup_inv [OF assms(2)] by blast
  have "q = q'" using cleanup q(1) procs_okD(1) [OF procs_invD(1) [OF assms(2)]] by (simp add: thread_cleanup_def)
  moreover have "sessions_ok q'" by (rule sessions_ok_sub [OF assms(3)]) (simp_all add: q set_remove1_subset)
  ultimately show ?thesis using q(2) by simp
next
  case (lookup pid r)
  have "q = p \<or> (\<exists>t. q = thread_get (Some t) p)"
    using lookup find_thread_spec [OF procs_invD(1) [OF assms(2)]] by (auto simp: sched_find_thread_def live_as_def split: if_splits option.splits)
  moreover have "sessions_ok (thread_get (Some t) p)" for t by (rule sessions_ok_sub [OF assms(3)]) (simp_all add: thread_get_def)
  ultimately show ?thesis using assms(2,3) thread_get_inv [OF assms(2)] by auto
next
  case (release t)
  have "sessions_ok (thread_put (Some t) p)" by (rule sessions_ok_sub [OF assms(3)]) (simp_all add: thread_put_same)
  then show ?thesis using release thread_put_inv [OF assms(2)] by simp
next
  case (setpgid e y pid pgid v)
  then show ?thesis using setpgid_sessions [OF assms(2,3)] by blast
next
  case (setsid e y v)
  then show ?thesis using setsid_sessions [OF assms(2,3)] by blast
next
  case (schedule s)
  have i: "ids_same (threads s u) (thread_of p u)" for u by (rule schedule(4))
  have "procs_ok q" by (rule procs_ok_cong [OF procs_invD(1) [OF assms(2)]]) (use schedule(1,3) i in \<open>simp_all add: ids_same_def\<close>)
  moreover have "reap_queued q" by (rule reap_queued_cong [OF procs_invD(2) [OF assms(2)]]) (use schedule(1) i in \<open>simp_all add: ids_same_def\<close>)
  moreover have "sessions_ok q" by (rule sessions_ok_sub [OF assms(3)]) (use schedule(1,3) i in \<open>simp_all add: ids_same_def listed_def\<close>)
  ultimately show ?thesis using schedule(1,2) by (simp add: procs_inv_def)
qed


section \<open>Properties\<close>

text \<open>The table that \<open>scheduler_init\<close> sets up before the first thread.\<close>

definition procs_boot :: "sched_state \<Rightarrow> hashmap ptr \<Rightarrow> procs" where
  "procs_boot s hm = \<lparr>sched = s\<lparr>all_list := Some []\<rparr>, pid_index = hm, next_user_pid = 1, next_kernel_pid = -1,
     zombie_list = Some [], reap_list = Some []\<rparr>"

definition no_threads :: "sched_state \<Rightarrow> bool" where
  "no_threads s \<longleftrightarrow> (\<forall>t. \<not> th_in_all_list (threads s t) \<and> \<not> th_in_reap_list (threads s t))"

lemma procs_boot_inv:
  assumes "sched_ok s" "no_threads s" "hashmap_create node_ok co = Some m"
  shows "procs_inv (procs_boot s (Some m)) \<and> sessions_ok (procs_boot s (Some m))"
proof -
  have "HASHMAP_INITIAL_CAPACITY \<le> SIZE_MAX" by (simp add: HASHMAP_INITIAL_CAPACITY_def SIZE_MAX_def)
  then have m: "hm_inv m" "hm_content m = Map.empty" using hashmap_create_sized_spec [of node_ok co HASHMAP_INITIAL_CAPACITY m] assms(3) by (simp_all add: hashmap_create_def)
  have l: "listed (procs_boot s (Some m)) = []" by (simp add: procs_boot_def listed_def)
  have "procs_ok (procs_boot s (Some m))" unfolding procs_ok_def pids_unique_def index_exact_def l
    using m assms(2) by (simp add: procs_boot_def no_threads_def hmp_inv_def hmp_content_def INT_MAX_def)
  moreover have "reap_queued (procs_boot s (Some m))" using assms(2) by (simp add: reap_queued_def procs_boot_def no_threads_def)
  moreover have "sched_ok (sched (procs_boot s (Some m)))" using assms(1) by (simp add: procs_boot_def)
  ultimately show ?thesis by (simp add: procs_inv_def sessions_ok_def l)
qed

lemma proc_reachable:
  assumes "(proc_step co)\<^sup>*\<^sup>* (procs_boot s (Some m)) p" "sched_ok s" "no_threads s" "hashmap_create node_ok co = Some m"
  shows "procs_inv p \<and> sessions_ok p"
  using assms(1)
proof induction
  case base
  then show ?case by (rule procs_boot_inv [OF assms(2-4)])
next
  case (step p q)
  then show ?case using proc_step_inv by blast
qed

text \<open>Start-up on the state of the scheduler examples, and the creation of the first user thread.\<close>

lemma boot_first:
  obtains m q where "hashmap_create True (\<lambda>_. True) = Some m" "(proc_step (\<lambda>_. True))\<^sup>*\<^sup>* (procs_boot demo_state (Some m)) q"
    "listed q = [7]" "th_pid (thread_of q 7) = 1" "th_pgid (thread_of q 7) = 1" "th_sid (thread_of q 7) = 1"
proof -
  obtain m where m: "hashmap_create True (\<lambda>_. True) = Some m" by (simp add: hashmap_create_def hashmap_create_sized_def Let_def)
  let ?p = "procs_boot demo_state (Some m)"
  have nt: "no_threads demo_state" by (simp add: no_threads_def demo_state_def demo_thread_def zero_thread_def)
  have inv: "procs_inv ?p" using procs_boot_inv [OF demo_ok(3) nt m] by simp
  have f: "fresh_thread ?p 7" by (simp add: fresh_thread_def procs_boot_def listed_def demo_state_def demo_thread_def zero_thread_def)
  have cur: "sched_local_current (demo_env 4) (sched ?p) = Some None"
    by (simp add: sched_local_current_def procs_boot_def demo_state_def demo_env_def load_def MAX_CORES_def)
  have "map_option fst (do { m \<leftarrow> hashmap_create True (\<lambda>_. True); hashmap_set (\<lambda>_. True) (Some m) (pid_index_key 1) (thread_word 7) }) = Some True"
    by code_simp
  then have set: "map_option fst (hashmap_set (\<lambda>_. True) (Some m) (pid_index_key 1) (thread_word 7)) = Some True" by (simp add: m)
  show thesis
  proof (rule create_thread_spec [OF inv demo_ok(1) f, of "\<lambda>_. True" True True 0 False True SCHED_PID_USER])
    assume "pid_spent ?p SCHED_PID_USER \<or>
      map_option fst (hashmap_set (\<lambda>_. True) (pid_index ?p) (pid_index_key (next_user_pid ?p)) (thread_word 7)) = Some False"
    then show thesis using set by (simp add: pid_spent_def procs_boot_def INT_MAX_def)
  next
    fix q y
    assume q: "create_thread (\<lambda>_. True) (demo_env 4) ?p (Some 7) True True 0 False True SCHED_PID_USER = Some (Some 7, q)"
      "sched_local_current (demo_env 4) (sched ?p) = Some y" "created ?p q 7 True (map_option (thread_of ?p) y)"
      "(SCHED_PID_USER = SCHED_PID_USER) = (0 < th_pid (thread_of q 7))"
    have "proc_step (\<lambda>_. True) ?p q"
      by (rule proc_step.create [OF demo_ok(1) _ f, where cls = SCHED_PID_USER]) (use q(1) cur in \<open>simp_all add: current_listed_def runs_def\<close>)
    moreover have "y = None" using q(2) cur by simp
    ultimately show thesis using q(3,4) m by (intro that [of m q]) (auto simp: created_def init_thread_session procs_boot_def listed_def)
  qed simp_all
qed



text \<open>
  (C8) Sessions are consistent in every such state: all threads of a process group are in one session, so
  \<open>sched_pgrp_in_session\<close>, which looks for one member, answers for the whole group; and a group stays in the session of the
  thread it is named after.
\<close>

theorem sessions_consistent:
  assumes "(proc_step co)\<^sup>*\<^sup>* (procs_boot s (Some m)) p" "sched_ok s" "no_threads s" "hashmap_create node_ok co = Some m"
    and "t \<in> set (listed p)" "0 < th_pgid (thread_of p t)"
  shows "(sched_pgrp_in_session p (th_pgid (thread_of p t)) sid \<longleftrightarrow> 0 < sid \<and> th_sid (thread_of p t) = sid) \<and>
    (\<forall>u \<in> set (listed p). 0 < th_pid (thread_of p u) \<and> th_pgid (thread_of p t) = th_pid (thread_of p u) \<longrightarrow>
       th_sid (thread_of p t) = th_sid (thread_of p u))"
proof (intro conjI ballI impI)
  have ok: "procs_ok p" "sessions_ok p" using proc_reachable [OF assms(1-4)] by (simp_all add: procs_inv_def)
  have "(\<exists>u \<in> set (listed p). th_pgid (thread_of p u) = th_pgid (thread_of p t) \<and> th_sid (thread_of p u) = sid) \<longleftrightarrow> th_sid (thread_of p t) = sid"
  proof
    assume "\<exists>u \<in> set (listed p). th_pgid (thread_of p u) = th_pgid (thread_of p t) \<and> th_sid (thread_of p u) = sid"
    then obtain u where u: "u \<in> set (listed p)" "th_pgid (thread_of p u) = th_pgid (thread_of p t)" "th_sid (thread_of p u) = sid" by blast
    show "th_sid (thread_of p t) = sid" using sessions_okD(1) [OF ok(2) assms(5) u(1) assms(6) u(2)] u(3) by simp
  qed (use assms(5) in blast)
  then show "sched_pgrp_in_session p (th_pgid (thread_of p t)) sid \<longleftrightarrow> 0 < sid \<and> th_sid (thread_of p t) = sid"
    using assms(6) by (auto simp: sched_pgrp_in_session_def procs_okD(1) [OF ok(1)] list_ex_iff)
  show "th_sid (thread_of p t) = th_sid (thread_of p u)" if "u \<in> set (listed p)" "0 < th_pid (thread_of p u) \<and> th_pgid (thread_of p t) = th_pid (thread_of p u)" for u
    using sessions_okD(2) [OF ok(2) that(1) assms(5)] that(2) by simp
qed

theorem sessions_consistent_witness:
  "\<exists>q. listed q = [7] \<and> th_sid (thread_of q 7) = 1 \<and> (sched_pgrp_in_session q (th_pgid (thread_of q 7)) 1 \<longleftrightarrow> 0 < (1 :: int) \<and> th_sid (thread_of q 7) = 1)"
proof -
  obtain m q where q: "hashmap_create True (\<lambda>_. True) = Some m" "(proc_step (\<lambda>_. True))\<^sup>*\<^sup>* (procs_boot demo_state (Some m)) q" "listed q = [7]"
    "th_pgid (thread_of q 7) = 1" "th_sid (thread_of q 7) = 1"
    using boot_first by metis
  have nt: "no_threads demo_state" by (simp add: no_threads_def demo_state_def demo_thread_def zero_thread_def)
  have "7 \<in> set (listed q)" "0 < th_pgid (thread_of q 7)" using q(3,4) by simp_all
  note s = conjunct1 [OF sessions_consistent [OF q(2) demo_ok(3) nt q(1) this, of 1]]
  show ?thesis by (intro exI [of _ q] conjI q(3,5) s)
qed

end
