(* ===== verification/Civil_Time.thy ===== *)
theory Civil_Time
  imports Prelude "HOL-Library.Signed_Division"
begin

text \<open>
  Calendar arithmetic of the C library (\<open>libs/libc/time.c\<close>): \<open>days_from_civil\<close>, \<open>civil_from_days\<close>, \<open>gmtime_r\<close>
  and \<open>mktime\<close>. \<open>long long\<close> is \<open>int\<close> with the truncating division \<open>sdiv\<close> and \<open>smod\<close> of C (\<open>mktime_in_range\<close> shows that no
  value leaves 64 bits); \<open>unsigned\<close> is a 32-bit word.
\<close>

section \<open>Model\<close>

record tm =
  tm_sec :: int
  tm_min :: int
  tm_hour :: int
  tm_mday :: int
  tm_mon :: int
  tm_year :: int
  tm_wday :: int
  tm_yday :: int
  tm_isdst :: int

definition INT_MAX :: int where "INT_MAX = 2147483647"
definition INT_MIN :: int where "INT_MIN = - 2147483648"

definition EPOCH_WDAY :: int where "EPOCH_WDAY = 4"
definition SECS_PER_MIN :: int where "SECS_PER_MIN = 60"
definition SECS_PER_HOUR :: int where "SECS_PER_HOUR = 60 * SECS_PER_MIN"
definition SECS_PER_DAY :: int where "SECS_PER_DAY = 24 * SECS_PER_HOUR"

text \<open>The conversions to \<open>unsigned\<close> and \<open>int\<close>.\<close>

definition to_unsigned :: "int \<Rightarrow> u32" where
  "to_unsigned x = word_of_int x"

definition to_c_int :: "int \<Rightarrow> int" where
  "to_c_int x = sint (word_of_int x :: u32)"

definition days_from_civil :: "int \<Rightarrow> int \<Rightarrow> int \<Rightarrow> int" where
  "days_from_civil year month day =
     (let year = year - (if month \<le> 2 then 1 else 0);
          era = (if 0 \<le> year then year sdiv 400 else (year - 399) sdiv 400);
          yoe = to_unsigned (year - era * 400);
          m = to_unsigned (month + (if 2 < month then -3 else 9));
          doy = (153 * m + 2) div 5 + to_unsigned day - 1;
          doe = yoe * 365 + yoe div 4 - yoe div 100 + doy in
      era * 146097 + uint doe - 719468)"

definition civil_from_days :: "int \<Rightarrow> int \<times> int \<times> int \<times> int" where
  "civil_from_days days =
     (let z = days + 719468;
          era = (if 0 \<le> z then z sdiv 146097 else (z - 146096) sdiv 146097);
          doe = to_unsigned (z - era * 146097);
          yoe = (doe - doe div 1460 + doe div 36524 - doe div 146096) div 365;
          year = uint yoe + era * 400;
          yday = doe - (365 * yoe + yoe div 4 - yoe div 100);
          mp = (5 * yday + 2) div 153;
          day = yday - (153 * mp + 2) div 5 + 1;
          month = to_c_int (uint mp) + (if mp < 10 then 3 else -9);
          year = year + (if month \<le> 2 then 1 else 0) in
      (year, month, to_c_int (uint day), to_c_int (days - days_from_civil year 1 1)))"

text \<open>A call returns whether the result is non-NULL, and the structure behind \<open>result\<close>.\<close>

definition gmtime_r :: "int ptr \<Rightarrow> tm ptr \<Rightarrow> bool \<times> tm ptr" where
  "gmtime_r timer result =
     (case (timer, result) of
        (Some t, Some r) \<Rightarrow>
          let days = t sdiv SECS_PER_DAY;
              rem = t smod SECS_PER_DAY;
              (rem, days) = (if rem < 0 then (rem + SECS_PER_DAY, days - 1) else (rem, days));
              r = r\<lparr>tm_hour := to_c_int (rem sdiv SECS_PER_HOUR)\<rparr>;
              rem = rem smod SECS_PER_HOUR;
              r = r\<lparr>tm_min := to_c_int (rem sdiv SECS_PER_MIN), tm_sec := to_c_int (rem smod SECS_PER_MIN)\<rparr>;
              wday = to_c_int ((days + EPOCH_WDAY) smod 7);
              r = r\<lparr>tm_wday := (if wday < 0 then wday + 7 else wday)\<rparr>;
              (year, month, mday, yday) = civil_from_days days in
          if year < INT_MIN + 1900 \<or> INT_MAX + 1900 < year then (False, Some r)
          else (True, Some (r\<lparr>tm_year := to_c_int (year - 1900), tm_yday := yday, tm_mon := month - 1,
                              tm_mday := mday, tm_isdst := 0\<rparr>))
      | _ \<Rightarrow> (False, result))"

definition gmtime :: "int ptr \<Rightarrow> tm \<Rightarrow> bool \<times> tm ptr" where
  "gmtime timer tm_buf = gmtime_r timer (Some tm_buf)"

definition localtime_r :: "int ptr \<Rightarrow> tm ptr \<Rightarrow> bool \<times> tm ptr" where
  "localtime_r timer result = gmtime_r timer result"

definition localtime :: "int ptr \<Rightarrow> tm \<Rightarrow> bool \<times> tm ptr" where
  "localtime timer tm_buf = gmtime timer tm_buf"

definition mktime_seconds :: "tm \<Rightarrow> int" where
  "mktime_seconds tm =
     (let year = tm_year tm + 1900;
          month = tm_mon tm;
          month_years = month sdiv 12;
          month_in_year = to_c_int (month smod 12);
          (month_in_year, month_years) =
            (if month_in_year < 0 then (month_in_year + 12, month_years - 1) else (month_in_year, month_years));
          year = year + month_years;
          days = days_from_civil year (month_in_year + 1) (tm_mday tm);
          seconds = days * SECS_PER_DAY;
          seconds = seconds + tm_hour tm * SECS_PER_HOUR;
          seconds = seconds + tm_min tm * SECS_PER_MIN in
      seconds + tm_sec tm)"

definition mktime :: "tm ptr \<Rightarrow> int \<times> tm ptr" where
  "mktime tm =
     (case tm of
        None \<Rightarrow> (-1, None)
      | Some x \<Rightarrow> let seconds = mktime_seconds x in (seconds, snd (gmtime_r (Some seconds) tm)))"


section \<open>Division\<close>

text \<open>The truncating divisions with their corrections are the flooring ones.\<close>

lemma sdiv_pos: "0 \<le> a \<Longrightarrow> 0 < b \<Longrightarrow> (a::int) sdiv b = a div b" "0 \<le> a \<Longrightarrow> 0 < b \<Longrightarrow> (a::int) smod b = a mod b"
  by (simp_all add: signed_divide_int_def signed_modulo_int_def sgn_if minus_div_mult_eq_mod)

lemma sdiv_neg: "a < 0 \<Longrightarrow> 0 < b \<Longrightarrow> (a::int) sdiv b = - ((- a) div b)" "a < 0 \<Longrightarrow> 0 < b \<Longrightarrow> (a::int) smod b = - ((- a) mod b)"
proof -
  assume "a < 0" "0 < b"
  then show s: "a sdiv b = - ((- a) div b)" by (simp add: signed_divide_int_def sgn_if)
  show "a smod b = - ((- a) mod b)" using \<open>a < 0\<close> \<open>0 < b\<close> by (simp add: signed_modulo_int_def sgn_if)
qed

lemma floor_era:
  assumes "0 < (b::int)" "c = b - 1"
  shows "(if 0 \<le> a then a sdiv b else (a - c) sdiv b) = a div b"
proof (cases "0 \<le> a")
  case False
  have d: "a = a div b * b + a mod b" "0 \<le> a mod b" "a mod b < b" using assms by simp_all
  have "- (a - (b - 1)) div b = - (a div b)"
    by (rule int_div_pos_eq [of _ _ _ "b - 1 - a mod b"]) (use d in \<open>auto simp: algebra_simps\<close>)
  then show ?thesis using False assms sdiv_neg(1) [of "a - (b - 1)" b] by (simp add: assms(2))
qed (use assms in \<open>simp add: sdiv_pos\<close>)

lemma floor_split:
  assumes "0 < (b::int)"
  shows "(if a smod b < 0 then (a smod b + b, a sdiv b - 1) else (a smod b, a sdiv b)) = (a mod b, a div b)"
proof (cases "0 \<le> a")
  case True
  then show ?thesis using assms pos_mod_sign [OF assms, of a] by (simp add: sdiv_pos not_less)
next
  case False
  have m: "- a = - a div b * b + - a mod b" "0 \<le> - a mod b" "- a mod b < b" using assms by simp_all
  show ?thesis
  proof (cases "- a mod b = 0")
    case True
    then have "a = - (- a div b) * b" using m(1) by linarith
    then have "a mod b = 0" "a div b = - (- a div b)" using assms by (metis mod_mult_self2_is_0, metis nonzero_mult_div_cancel_right less_irrefl)
    then show ?thesis using False assms True by (simp add: sdiv_neg)
  next
    case nz: False
    have "a div b = - (- a div b) - 1"
      by (rule int_div_pos_eq [of _ _ _ "b - (- a mod b)"]) (use m nz in \<open>auto simp: algebra_simps\<close>)
    moreover have "a mod b = b - (- a mod b)"
      by (rule int_mod_pos_eq [of _ _ "- (- a div b) - 1"]) (use m nz in \<open>auto simp: algebra_simps\<close>)
    moreover have "0 < - a mod b" using m(2) nz by linarith
    ultimately show ?thesis using False assms by (simp add: sdiv_neg)
  qed
qed

lemma to_c_int_exact: "INT_MIN \<le> x \<Longrightarrow> x \<le> INT_MAX \<Longrightarrow> to_c_int x = x"
  unfolding to_c_int_def INT_MIN_def INT_MAX_def by transfer (simp add: signed_take_bit_int_eq_self)

text \<open>Unsigned arithmetic as the arithmetic of its value.\<close>

lemma unsigned_numeral [simp]: "to_unsigned (numeral k) = numeral k"
  by (simp add: to_unsigned_def)

lemma uint_unsigned: "0 \<le> a \<Longrightarrow> a < 2 ^ 32 \<Longrightarrow> uint (to_unsigned a) = a"
  by (simp add: to_unsigned_def uint_word_of_int)

lemma unsigned_div:
  assumes "0 \<le> a" "a < 2 ^ 32" "0 \<le> b" "b < 2 ^ 32"
  shows "to_unsigned a div to_unsigned b = to_unsigned (a div b)"
  using uint_unsigned [OF assms(1,2)] uint_unsigned [OF assms(3,4)] by (metis to_unsigned_def word_div_def)

lemma unsigned_hom:
  "to_unsigned a + to_unsigned b = to_unsigned (a + b)" "to_unsigned a - to_unsigned b = to_unsigned (a - b)"
  "to_unsigned a * numeral k = to_unsigned (a * numeral k)" "numeral k * to_unsigned a = to_unsigned (numeral k * a)"
  "to_unsigned a + numeral k = to_unsigned (a + numeral k)" "to_unsigned a - 1 = to_unsigned (a - 1)" "to_unsigned a + 1 = to_unsigned (a + 1)"
  by (simp_all add: to_unsigned_def)


section \<open>Days of an era\<close>

text \<open>
  Years start in March. In an era of 400 years, \<open>before_year y\<close> days precede year \<open>y\<close>, and \<open>year_of_era\<close> is the formula of
  \<open>civil_from_days\<close> for the year of a day.
\<close>

definition before_year :: "int \<Rightarrow> int" where
  "before_year y = 365 * y + y div 4 - y div 100"

definition year_of_era :: "int \<Rightarrow> int" where
  "year_of_era d = (d - d div 1460 + d div 36524 - d div 146096) div 365"

definition before_month :: "int \<Rightarrow> int" where
  "before_month m = (153 * m + 2) div 5"

definition march_year :: "int \<Rightarrow> int \<Rightarrow> int" where
  "march_year year month = year - (if month \<le> 2 then 1 else 0)"

definition march_month :: "int \<Rightarrow> int" where
  "march_month month = month + (if 2 < month then -3 else 9)"

lemma days_from_civil_eq:
  fixes year month day
  defines "y \<equiv> march_year year month" and "m \<equiv> march_month month"
  assumes "1 \<le> month" "month \<le> 12"
    and "0 \<le> before_year (y mod 400) + before_month m + day - 1" "before_year (y mod 400) + before_month m + day - 1 < 2 ^ 32"
  shows "days_from_civil year month day = y div 400 * 146097 + before_year (y mod 400) + before_month m + day - 1 - 719468"
proof -
  have era: "(if 0 \<le> y then y sdiv 400 else (y - 399) sdiv 400) = y div 400" by (rule floor_era) simp_all
  have q: "y - y div 400 * 400 = y mod 400" "0 \<le> y mod 400" "y mod 400 < 400" by (simp_all add: minus_div_mult_eq_mod)
  have m: "0 \<le> m" "m \<le> 11" using assms(3,4) by (simp_all add: m_def march_month_def)
  have "to_unsigned (y mod 400) div 4 = to_unsigned (y mod 400 div 4)" "to_unsigned (y mod 400) div 100 = to_unsigned (y mod 400 div 100)"
    using unsigned_div [of "y mod 400" 4] unsigned_div [of "y mod 400" 100] q by simp_all
  moreover have "to_unsigned (153 * m + 2) div 5 = to_unsigned (before_month m)" using unsigned_div [of "153 * m + 2" 5] m by (simp add: before_month_def)
  ultimately have "to_unsigned (y mod 400) * 365 + to_unsigned (y mod 400) div 4 - to_unsigned (y mod 400) div 100 + ((153 * to_unsigned m + 2) div 5 + to_unsigned day - 1)
    = to_unsigned (before_year (y mod 400) + before_month m + day - 1)"
    by (simp only: unsigned_hom, intro arg_cong [of _ _ to_unsigned]) (simp add: before_year_def)
  then show ?thesis
    using uint_unsigned [OF assms(5,6)] unfolding days_from_civil_def Let_def march_year_def [symmetric] march_month_def [symmetric] y_def [symmetric] m_def [symmetric] era q(1) by simp
qed

lemma div_bounds: "0 < (b::int) \<Longrightarrow> b * (a div b) \<le> a \<and> a < b * (a div b) + b"
  using mult_div_mod_eq [of b a] pos_mod_sign [of b a] pos_mod_bound [of b a] by linarith

text \<open>A day of an era in centuries, cycles of four years, years and days; only the last century has a leap day at its end.\<close>

definition era_parts :: "int \<Rightarrow> int \<Rightarrow> int \<Rightarrow> int \<Rightarrow> bool" where
  "era_parts c q r n \<longleftrightarrow> 0 \<le> c \<and> c \<le> 3 \<and> 0 \<le> q \<and> q \<le> 24 \<and> 0 \<le> r \<and> r \<le> 3 \<and> 0 \<le> n \<and> n \<le> 365 \<and>
     (n = 365 \<longrightarrow> r = 3 \<and> (q < 24 \<or> c = 3))"

lemma era_parts_low:
  assumes "era_parts c q r n"
  shows "1461 * q + 365 * r + n < 36524 \<or> 1461 * q + 365 * r + n = 36524 \<and> c = 3"
proof -
  have p: "q \<le> 24" "r \<le> 3" "n \<le> 365" "n = 365 \<longrightarrow> r = 3 \<and> (q < 24 \<or> c = 3)" using assms by (simp_all add: era_parts_def)
  show ?thesis
  proof (cases "n = 365 \<and> q = 24")
    case True
    then show ?thesis using p(4) by simp
  next
    case False
    then have "n \<le> 364 \<or> q \<le> 23" using p(1,3) by linarith
    then show ?thesis using p(1,2,3) by linarith
  qed
qed

lemma before_year_parts:
  assumes "era_parts c q r n"
  shows "before_year (100 * c + 4 * q + r) = 36524 * c + 1461 * q + 365 * r"
proof -
  have "(100 * c + 4 * q + r) div 4 = 25 * c + q" by (rule int_div_pos_eq [of _ _ _ r]) (use assms in \<open>auto simp: era_parts_def\<close>)
  moreover have "(100 * c + 4 * q + r) div 100 = c" by (rule int_div_pos_eq [of _ _ _ "4 * q + r"]) (use assms in \<open>auto simp: era_parts_def\<close>)
  ultimately show ?thesis by (simp add: before_year_def)
qed

lemma year_of_era_parts:
  assumes "era_parts c q r n"
  shows "year_of_era (36524 * c + 1461 * q + 365 * r + n) = 100 * c + 4 * q + r"
proof -
  define d where "d = 36524 * c + 1461 * q + 365 * r + n"
  define x where "x = (24 * c + q + 365 * r + n) div 1460"
  have p: "0 \<le> c" "c \<le> 3" "0 \<le> q" "q \<le> 24" "0 \<le> r" "r \<le> 3" "0 \<le> n" "n \<le> 365" "n = 365 \<Longrightarrow> r = 3 \<and> (q < 24 \<or> c = 3)"
    using assms by (auto simp: era_parts_def)
  have x: "1460 * x \<le> 24 * c + q + 365 * r + n" "24 * c + q + 365 * r + n < 1460 * x + 1460" by (simp_all add: x_def) (presburger+)?
  then have x01: "0 \<le> x" "x \<le> 1" using p by linarith+
  have d1: "d div 1460 = 25 * c + q + x" by (rule int_div_pos_eq [of _ _ _ "24 * c + q + 365 * r + n - 1460 * x"]) (use x in \<open>auto simp: d_def\<close>)
  note low = era_parts_low [OF assms]
  define e where "e = (if 1461 * q + 365 * r + n = 36524 then 1 else (0::int))"
  have d2: "d div 36524 = c + e"
    by (rule int_div_pos_eq [of _ _ _ "1461 * q + 365 * r + n - 36524 * e"]) (use p(3,5,7) low in \<open>auto simp: d_def e_def\<close>)
  have "0 \<le> d - 146096 * e" "d - 146096 * e < 146096" using p(1-7) low by (auto simp: d_def e_def)
  then have d3: "d div 146096 = e" by (intro int_div_pos_eq [of _ _ _ "d - 146096 * e"]) auto
  have "d - d div 1460 + d div 36524 - d div 146096 = 365 * (100 * c + 4 * q + r) + (n - x)" unfolding d1 d2 d3 by (simp add: d_def)
  moreover have "0 \<le> n - x" "n - x < 365" using p x x01 by linarith+
  ultimately show ?thesis unfolding year_of_era_def d_def [symmetric] by (intro int_div_pos_eq [of _ _ _ "n - x"])
qed

lemma capped_div:
  assumes "0 < b" "0 \<le> (a::int)" "a \<le> b * k + b" "0 \<le> k"
  obtains x where "0 \<le> x" "x \<le> k" "b * x \<le> a" "a < b * x + b \<or> x = k \<and> a = b * k + b"
proof (cases "a = b * k + b")
  case True
  then show thesis using that [of k] assms by simp
next
  case False
  have x: "b * (a div b) \<le> a" "a < b * (a div b) + b" using div_bounds [OF assms(1)] by simp_all
  have "b * (a div b) < b * (k + 1)" using x(1) False assms(3) by (simp add: algebra_simps)
  then have "a div b \<le> k" using assms(1) by simp
  then show thesis using that [of "a div b"] x assms by (simp add: pos_imp_zdiv_nonneg_iff)
qed

lemma era_day_parts:
  assumes "0 \<le> d" "d < 146097"
  obtains c q r n where "era_parts c q r n" "d = 36524 * c + 1461 * q + 365 * r + n"
proof -
  obtain c where c: "0 \<le> c" "c \<le> 3" "36524 * c \<le> d" "d < 36524 * c + 36524 \<or> c = 3 \<and> d = 36524 * 3 + 36524"
    by (rule capped_div [of 36524 d 3]) (use assms in simp_all)
  define i where "i = d - 36524 * c"
  have i: "0 \<le> i" "i < 36524 \<or> c = 3 \<and> i = 36524" using c by (auto simp: i_def)
  obtain q where q: "0 \<le> q" "q \<le> 24" "1461 * q \<le> i" "i < 1461 * q + 1461 \<or> q = 24 \<and> i = 1461 * 24 + 1461"
    by (rule capped_div [of 1461 i 24]) (use i in auto)
  define k where "k = i - 1461 * q"
  have k: "0 \<le> k" "k \<le> 1460" using q i by (auto simp: k_def)
  obtain r where r: "0 \<le> r" "r \<le> 3" "365 * r \<le> k" "k < 365 * r + 365 \<or> r = 3 \<and> k = 365 * 3 + 365"
    by (rule capped_div [of 365 k 3]) (use k in auto)
  have "k - 365 * r = 365 \<longrightarrow> r = 3 \<and> (q < 24 \<or> c = 3)" using r(4) q(2) i(2) by (auto simp: k_def)
  moreover have "0 \<le> k - 365 * r" "k - 365 * r \<le> 365" using r(3,4) by auto
  ultimately have "era_parts c q r (k - 365 * r)" unfolding era_parts_def using c(1,2) q(1,2) r(1,2) by (intro conjI) assumption+
  moreover have "d = 36524 * c + 1461 * q + 365 * r + (k - 365 * r)" by (simp add: k_def i_def)
  ultimately show thesis by (rule that)
qed

text \<open>The first year of an era that a day lies in starts on or before it, and the month and day are read off the rest.\<close>

definition civil_parts :: "int \<Rightarrow> int \<Rightarrow> int \<Rightarrow> int \<Rightarrow> int \<times> int \<times> int" where
  "civil_parts era y mp day =
     (let month = mp + (if mp < 10 then 3 else -9) in (era * 400 + y + (if month \<le> 2 then 1 else 0), month, day))"

lemma unsigned_yoe:
  assumes "0 \<le> d" "d < 146097"
  shows "(to_unsigned d - to_unsigned d div 1460 + to_unsigned d div 36524 - to_unsigned d div 146096) div 365 = to_unsigned (year_of_era d)"
proof -
  let ?i = "d - d div 1460 + d div 36524 - d div 146096"
  have u: "to_unsigned d div 1460 = to_unsigned (d div 1460)" "to_unsigned d div 36524 = to_unsigned (d div 36524)"
    "to_unsigned d div 146096 = to_unsigned (d div 146096)"
    using unsigned_div [of d 1460] unsigned_div [of d 36524] unsigned_div [of d 146096] assms by simp_all
  define a1 where "a1 = d div 1460"
  define a2 where "a2 = d div 36524"
  define a3 where "a3 = d div 146096"
  have "1460 * a1 \<le> d \<and> d < 1460 * a1 + 1460" "36524 * a2 \<le> d \<and> d < 36524 * a2 + 36524" "146096 * a3 \<le> d \<and> d < 146096 * a3 + 146096"
    unfolding a1_def a2_def a3_def by (rule div_bounds, simp)+
  then have "0 \<le> d - a1 + a2 - a3" "d - a1 + a2 - a3 < 2 ^ 32" using assms by simp_all
  then have "0 \<le> ?i" "?i < 2 ^ 32" by (simp_all only: a1_def a2_def a3_def)
  then show ?thesis using unsigned_div [of ?i 365] unfolding u unsigned_hom year_of_era_def by simp
qed

lemma civil_from_days_eq:
  assumes "era_parts c q r n" "days + 719468 = era * 146097 + (36524 * c + 1461 * q + 365 * r + n)"
  shows "civil_from_days days =
    (case civil_parts era (100 * c + 4 * q + r) ((5 * n + 2) div 153) (n - before_month ((5 * n + 2) div 153) + 1) of
       (y, m, d) \<Rightarrow> (y, m, d, to_c_int (days - days_from_civil y 1 1)))"
proof -
  define d where "d = 36524 * c + 1461 * q + 365 * r + n"
  define y where "y = 100 * c + 4 * q + r"
  define mp where "mp = (5 * n + 2) div 153"
  have p: "0 \<le> c" "c \<le> 3" "0 \<le> q" "q \<le> 24" "0 \<le> r" "r \<le> 3" "0 \<le> n" "n \<le> 365" using assms(1) by (simp_all add: era_parts_def)
  have d: "0 \<le> d" "d < 146097" using p era_parts_low [OF assms(1)] unfolding d_def by linarith+
  have y: "0 \<le> y" "y < 400" using p unfolding y_def by linarith+
  have "153 * mp \<le> 5 * n + 2 \<and> 5 * n + 2 < 153 * mp + 153" unfolding mp_def by (rule div_bounds) simp
  then have mp: "0 \<le> mp" "mp \<le> 11" "153 * mp \<le> 5 * n + 2" using p(7,8) by linarith+
  have "5 * before_month mp \<le> 153 * mp + 2 \<and> 153 * mp + 2 < 5 * before_month mp + 5" unfolding before_month_def by (rule div_bounds) simp
  then have bm: "0 \<le> before_month mp" "before_month mp \<le> n" using mp by linarith+
  have z: "(days + 719468) div 146097 = era" "days + 719468 - era * 146097 = d"
    using assms(2) d by (auto simp: d_def [symmetric] intro: int_div_pos_eq)
  have era: "(if 0 \<le> days + 719468 then (days + 719468) sdiv 146097 else (days + 719468 - 146096) sdiv 146097) = era"
    using floor_era [of 146097 146096 "days + 719468"] z(1) by simp
  have yoe: "(to_unsigned d - to_unsigned d div 1460 + to_unsigned d div 36524 - to_unsigned d div 146096) div 365 = to_unsigned y"
    using unsigned_yoe [OF d] year_of_era_parts [OF assms(1)] by (simp add: d_def y_def)
  have nd: "d - before_year y = n" using before_year_parts [OF assms(1)] by (simp add: d_def y_def)
  have "to_unsigned y div 4 = to_unsigned (y div 4)" "to_unsigned y div 100 = to_unsigned (y div 100)"
    using unsigned_div [of y 4] unsigned_div [of y 100] y by simp_all
  then have yday: "to_unsigned d - (365 * to_unsigned y + to_unsigned y div 4 - to_unsigned y div 100) = to_unsigned n"
    using nd by (simp only: unsigned_hom before_year_def)
  have um: "(5 * to_unsigned n + 2) div 153 = to_unsigned mp" using unsigned_div [of "5 * n + 2" 153] p(7,8) unfolding mp_def unsigned_hom by simp
  have "(153 * to_unsigned mp + 2) div 5 = to_unsigned (before_month mp)"
    using unsigned_div [of "153 * mp + 2" 5] mp unfolding before_month_def unsigned_hom by simp
  then have ud: "to_unsigned n - (153 * to_unsigned mp + 2) div 5 + 1 = to_unsigned (n - before_month mp + 1)" by (simp only: unsigned_hom)
  have vals: "uint (to_unsigned y) = y" "to_c_int (uint (to_unsigned mp)) = mp" "to_unsigned mp < 10 \<longleftrightarrow> mp < 10"
    "to_c_int (uint (to_unsigned (n - before_month mp + 1))) = n - before_month mp + 1"
    using y mp bm p(8) by (simp_all add: uint_unsigned to_c_int_exact INT_MIN_def INT_MAX_def word_less_def)
  show ?thesis
    unfolding civil_from_days_def Let_def era z(2) yoe yday um ud vals civil_parts_def y_def [symmetric] mp_def [symmetric] by (simp add: add.commute)
qed


section \<open>The calendar\<close>

text \<open>The Gregorian calendar, as a reference: the length of a month and the day after a day.\<close>

definition leap_year :: "int \<Rightarrow> bool" where
  "leap_year y \<longleftrightarrow> 4 dvd y \<and> (\<not> 100 dvd y \<or> 400 dvd y)"

definition month_length :: "int \<Rightarrow> int \<Rightarrow> int" where
  "month_length y m = (if m = 2 then if leap_year y then 29 else 28 else if m \<in> {4, 6, 9, 11} then 30 else 31)"

definition valid_date :: "int \<Rightarrow> int \<Rightarrow> int \<Rightarrow> bool" where
  "valid_date y m d \<longleftrightarrow> 1 \<le> m \<and> m \<le> 12 \<and> 1 \<le> d \<and> d \<le> month_length y m"

fun next_date :: "int \<times> int \<times> int \<Rightarrow> int \<times> int \<times> int" where
  "next_date (y, m, d) =
     (if d < month_length y m then (y, m, d + 1) else if m < 12 then (y, m + 1, 1) else (y + 1, 1, 1))"

lemma month_cases:
  assumes "1 \<le> m" "(m::int) \<le> 12"
  shows "m \<in> {1, 2, 3, 4, 5, 6, 7, 8, 9, 10, 11, 12}"
proof -
  have "m = 1 \<or> m = 2 \<or> m = 3 \<or> m = 4 \<or> m = 5 \<or> m = 6 \<or> m = 7 \<or> m = 8 \<or> m = 9 \<or> m = 10 \<or> m = 11 \<or> m = 12" using assms by presburger
  then show ?thesis by simp
qed

text \<open>The day of the march year of a date.\<close>

definition year_day :: "int \<Rightarrow> int \<Rightarrow> int" where
  "year_day m d = before_month (march_month m) + d - 1"

lemma year_day_bounds:
  assumes "valid_date y m d"
  shows "0 \<le> year_day m d" "year_day m d \<le> 365" "year_day m d = 365 \<Longrightarrow> m = 2 \<and> leap_year y"
    "153 * march_month m \<le> 5 * year_day m d + 2 \<and> 5 * year_day m d + 2 < 153 * march_month m + 153"
proof -
  have m: "m \<in> {1, 2, 3, 4, 5, 6, 7, 8, 9, 10, 11, 12}" "1 \<le> d" "d \<le> month_length y m"
    using assms month_cases by (simp_all add: valid_date_def)
  note defs = year_day_def before_month_def march_month_def month_length_def
  show "0 \<le> year_day m d" "year_day m d \<le> 365"
    using m by (elim insertE emptyE; simp add: defs split: if_splits)+
  show "m = 2 \<and> leap_year y" if "year_day m d = 365"
    using m that by (elim insertE emptyE; simp add: defs split: if_splits)
  show "153 * march_month m \<le> 5 * year_day m d + 2 \<and> 5 * year_day m d + 2 < 153 * march_month m + 153"
    using m by (elim insertE emptyE; simp add: defs split: if_splits)
qed

lemma div_unique: "b * x \<le> a \<and> a < b * x + b \<Longrightarrow> (a::int) div b = x"
  by (intro int_div_pos_eq [of _ _ _ "a - b * x"]) auto

lemma small_dvd: "0 < x \<Longrightarrow> x \<le> k \<Longrightarrow> (k::int) dvd x \<longleftrightarrow> x = k"
  by (auto dest: zdvd_imp_le)

text \<open>Every day of an era is in one march year, whose last day is the leap day.\<close>

lemma leap_parts:
  assumes "0 \<le> c" "c \<le> 3" "0 \<le> q" "q \<le> 24" "0 \<le> r" "r \<le> 3"
  shows "leap_year (era * 400 + (100 * c + 4 * q + r) + 1) \<longleftrightarrow> r = 3 \<and> (q < 24 \<or> c = 3)"
proof -
  let ?y = "era * 400 + (100 * c + 4 * q + r) + 1"
  have y4: "?y = 4 * (100 * era + 25 * c + q) + (r + 1)" by simp
  have d4: "4 dvd ?y \<longleftrightarrow> r = 3"
  proof -
    have "4 dvd ?y \<longleftrightarrow> 4 dvd r + 1" unfolding y4 by (rule dvd_add_right_iff) simp
    then show ?thesis using assms(5,6) small_dvd [of "r + 1" 4] by auto
  qed
  have d100: "100 dvd ?y \<longleftrightarrow> q = 24" if r: "r = 3"
  proof -
    have "?y = 100 * (4 * era + c) + 4 * (q + 1)" using r by simp
    then have "100 dvd ?y \<longleftrightarrow> 100 dvd 4 * (q + 1)" by (simp only: dvd_add_right_iff dvd_triv_left)
    then show ?thesis using assms(3,4) small_dvd [of "4 * (q + 1)" 100] by auto
  qed
  have d400: "400 dvd ?y \<longleftrightarrow> c = 3" if r: "r = 3" "q = 24"
  proof -
    have "?y = 400 * era + 100 * (c + 1)" using r by simp
    then have "400 dvd ?y \<longleftrightarrow> 400 dvd 100 * (c + 1)" by (simp only: dvd_add_right_iff dvd_triv_left)
    then show ?thesis using assms(1,2) small_dvd [of "100 * (c + 1)" 400] by auto
  qed
  show ?thesis unfolding leap_year_def using d4 d100 d400 assms(4) by (cases "r = 3"; cases "q = 24") auto
qed

lemma year_parts:
  obtains era c q r where "0 \<le> c" "c \<le> 3" "0 \<le> q" "q \<le> 24" "0 \<le> r" "r \<le> 3" "(Y::int) = era * 400 + (100 * c + 4 * q + r)"
proof -
  define e where "e = Y mod 400"
  have e: "Y = Y div 400 * 400 + e" "0 \<le> e" "e < 400" by (simp_all add: e_def)
  define k where "k = e mod 100"
  have k: "e = e div 100 * 100 + k" "0 \<le> k" "k < 100" by (simp_all add: k_def)
  have c: "0 \<le> e div 100" "e div 100 \<le> 3" using k e(2,3) by linarith+
  define r where "r = k mod 4"
  have r: "k = k div 4 * 4 + r" "0 \<le> r" "r < 4" by (simp_all add: r_def)
  have q: "0 \<le> k div 4" "k div 4 \<le> 24" using r k(2,3) by linarith+
  show thesis by (rule that [of "e div 100" "k div 4" r "Y div 400"]) (use c q r e k in linarith)+
qed

lemma date_parts:
  assumes "valid_date y m d"
  obtains era c q r where "era_parts c q r (year_day m d)" "march_year y m = era * 400 + (100 * c + 4 * q + r)"
    "(5 * year_day m d + 2) div 153 = march_month m"
proof (rule year_parts [of "march_year y m"])
  fix era c q r assume p: "0 \<le> c" "c \<le> 3" "0 \<le> q" "q \<le> 24" "0 \<le> r" "r \<le> 3" and Y: "march_year y m = era * 400 + (100 * c + 4 * q + r)"
  note n = year_day_bounds [OF assms]
  have "r = 3 \<and> (q < 24 \<or> c = 3)" if "year_day m d = 365"
  proof -
    have "leap_year (march_year y m + 1)" using n(3) [OF that] by (simp add: march_year_def)
    then show ?thesis using leap_parts [OF p] unfolding Y by blast
  qed
  then have "era_parts c q r (year_day m d)" using p n(1,2) by (simp add: era_parts_def)
  then show thesis using Y div_unique [OF n(4)] by (rule that)
qed

lemma days_of_parts:
  assumes "1 \<le> m" "m \<le> 12" "era_parts c q r (year_day m d)" "march_year y m = era * 400 + (100 * c + 4 * q + r)"
  shows "days_from_civil y m d + 719468 = era * 146097 + (36524 * c + 1461 * q + 365 * r + year_day m d)"
proof -
  have p: "0 \<le> c" "c \<le> 3" "0 \<le> q" "q \<le> 24" "0 \<le> r" "r \<le> 3" "0 \<le> year_day m d" "year_day m d \<le> 365" using assms(3) by (simp_all add: era_parts_def)
  have e: "march_year y m div 400 = era" "march_year y m mod 400 = 100 * c + 4 * q + r"
    unfolding assms(4) using p by (auto intro!: int_div_pos_eq int_mod_pos_eq)
  have "0 \<le> before_year (100 * c + 4 * q + r) + year_day m d" "before_year (100 * c + 4 * q + r) + year_day m d < 2 ^ 32"
    using p unfolding before_year_parts [OF assms(3)] by simp_all
  then show ?thesis using days_from_civil_eq [OF assms(1,2), of y d] before_year_parts [OF assms(3)] unfolding e year_day_def by simp
qed

lemma march_date:
  assumes "1 \<le> m" "m \<le> 12"
  shows "0 \<le> march_month m" "march_month m \<le> 11" "march_month m + (if march_month m < 10 then 3 else -9) = m"
  using assms by (auto simp: march_month_def)

lemma civil_of_days:
  assumes "valid_date y m d"
  shows "\<exists>yday. civil_from_days (days_from_civil y m d) = (y, m, d, yday)"
proof (rule date_parts [OF assms])
  fix era c q r assume p: "era_parts c q r (year_day m d)" "march_year y m = era * 400 + (100 * c + 4 * q + r)"
    and mp: "(5 * year_day m d + 2) div 153 = march_month m"
  have m: "1 \<le> m" "m \<le> 12" using assms by (simp_all add: valid_date_def)
  have "civil_parts era (100 * c + 4 * q + r) (march_month m) (year_day m d - before_month (march_month m) + 1) = (y, m, d)"
    using p(2) march_date(3) [OF m] by (simp add: civil_parts_def Let_def march_year_def year_day_def)
  then show ?thesis using civil_from_days_eq [OF p(1) days_of_parts [OF m p]] unfolding mp by simp
qed

lemma days_of_civil:
  assumes "civil_from_days days = (y, m, d, yday)"
  shows "valid_date y m d" "days_from_civil y m d = days"
proof -
  obtain c q r n where p: "era_parts c q r n" "(days + 719468) mod 146097 = 36524 * c + 1461 * q + 365 * r + n"
    by (rule era_day_parts [of "(days + 719468) mod 146097"]) simp_all
  define era where "era = (days + 719468) div 146097"
  have z: "days + 719468 = era * 146097 + (36524 * c + 1461 * q + 365 * r + n)"
    unfolding era_def p(2) [symmetric] by simp
  define mp where "mp = (5 * n + 2) div 153"
  define b where "b = before_month mp"
  have pp: "0 \<le> c" "c \<le> 3" "0 \<le> q" "q \<le> 24" "0 \<le> r" "r \<le> 3" "0 \<le> n" "n \<le> 365" "n = 365 \<Longrightarrow> r = 3 \<and> (q < 24 \<or> c = 3)"
    using p(1) by (simp_all add: era_parts_def)
  have mp: "153 * mp \<le> 5 * n + 2 \<and> 5 * n + 2 < 153 * mp + 153" unfolding mp_def by (rule div_bounds) simp
  have b: "5 * b \<le> 153 * mp + 2 \<and> 153 * mp + 2 < 5 * b + 5" unfolding b_def before_month_def by (rule div_bounds) simp
  have m11: "0 \<le> mp" "mp \<le> 11" "b \<le> n" using mp b pp(7,8) by linarith+
  have ymd: "m = mp + (if mp < 10 then 3 else -9)" "y = era * 400 + (100 * c + 4 * q + r) + (if m \<le> 2 then 1 else 0)" "d = n - b + 1"
    using assms unfolding civil_from_days_eq [OF p(1) z] mp_def [symmetric] b_def [symmetric] by (auto simp: civil_parts_def Let_def)
  have m: "1 \<le> m" "m \<le> 12" "march_month m = mp" "year_day m d = n" using ymd(1,3) m11(1,2) by (auto simp: march_month_def year_day_def b_def)
  have "n \<le> 364" if "\<not> leap_year y" "m \<le> 2"
  proof -
    have "n \<noteq> 365" using leap_parts [OF pp(1-6), of era] pp(9) ymd(2) that by auto
    then show ?thesis using pp(8) by simp
  qed
  then have "d \<le> month_length y m"
    using month_cases [OF m(1,2)] m(3) ymd(3) mp pp(8) unfolding b_def before_month_def
    by (elim insertE emptyE) (simp_all add: month_length_def march_month_def)
  then show "valid_date y m d" using m(1,2) m11(3) ymd(3) by (simp add: valid_date_def)
  have Y: "march_year y m = era * 400 + (100 * c + 4 * q + r)" using ymd(2) by (simp add: march_year_def)
  have "era_parts c q r (year_day m d)" using p(1) m(4) by simp
  from days_of_parts [OF m(1,2) this Y] show "days_from_civil y m d = days" using z m(4) by simp
qed

text \<open>The days before a march year, and the length of the year.\<close>

definition march_days :: "int \<Rightarrow> int" where
  "march_days Y = Y div 400 * 146097 + before_year (Y mod 400)"

lemma march_days_parts:
  assumes "0 \<le> c" "c \<le> 3" "0 \<le> q" "q \<le> 24" "0 \<le> r" "r \<le> 3"
  shows "march_days (era * 400 + (100 * c + 4 * q + r)) = era * 146097 + 36524 * c + 1461 * q + 365 * r"
proof -
  have p: "era_parts c q r 0" using assms by (simp add: era_parts_def)
  have "(era * 400 + (100 * c + 4 * q + r)) div 400 = era" "(era * 400 + (100 * c + 4 * q + r)) mod 400 = 100 * c + 4 * q + r"
    using assms by (auto intro!: int_div_pos_eq int_mod_pos_eq)
  then show ?thesis unfolding march_days_def using before_year_parts [OF p] by simp
qed

lemma march_days_step: "march_days (Y + 1) = march_days Y + (if leap_year (Y + 1) then 366 else 365)"
proof (rule year_parts [of Y])
  fix era c q r assume p: "0 \<le> c" "c \<le> 3" "0 \<le> q" "q \<le> 24" "0 \<le> r" "r \<le> 3" and Y: "Y = era * 400 + (100 * c + 4 * q + r)"
  note l = leap_parts [OF p, of era, folded Y] and d = march_days_parts [OF p, of era, folded Y]
  consider "r < 3" | "r = 3" "q < 24" | "r = 3" "q = 24" "c < 3" | "r = 3" "q = 24" "c = 3" using p by linarith
  then show ?thesis
  proof cases
    case 1
    have "Y + 1 = era * 400 + (100 * c + 4 * q + (r + 1))" using Y by simp
    then have "march_days (Y + 1) = era * 146097 + 36524 * c + 1461 * q + 365 * (r + 1)" by (simp only:) (rule march_days_parts, use p 1 in simp_all)
    then show ?thesis using d l 1 by simp
  next
    case 2
    have "Y + 1 = era * 400 + (100 * c + 4 * (q + 1) + 0)" using Y 2 by simp
    then have "march_days (Y + 1) = era * 146097 + 36524 * c + 1461 * (q + 1) + 365 * 0" by (simp only:) (rule march_days_parts, use p 2 in simp_all)
    then show ?thesis using d l 2 by simp
  next
    case 3
    have "Y + 1 = era * 400 + (100 * (c + 1) + 4 * 0 + 0)" using Y 3 by simp
    then have "march_days (Y + 1) = era * 146097 + 36524 * (c + 1) + 1461 * 0 + 365 * 0" by (simp only:) (rule march_days_parts, use p 3 in simp_all)
    then show ?thesis using d l 3 by simp
  next
    case 4
    have "Y + 1 = (era + 1) * 400 + (100 * 0 + 4 * 0 + 0)" using Y 4 by simp
    then have "march_days (Y + 1) = (era + 1) * 146097 + 36524 * 0 + 1461 * 0 + 365 * 0" by (simp only:) (rule march_days_parts, simp_all)
    then show ?thesis using d l 4 by simp
  qed
qed

lemma days_valid:
  assumes "valid_date y m d"
  shows "days_from_civil y m d = march_days (march_year y m) + year_day m d - 719468"
proof (rule date_parts [OF assms])
  fix era c q r assume p: "era_parts c q r (year_day m d)" "march_year y m = era * 400 + (100 * c + 4 * q + r)"
  have m: "1 \<le> m" "m \<le> 12" using assms by (simp_all add: valid_date_def)
  have "march_days (march_year y m) = era * 146097 + 36524 * c + 1461 * q + 365 * r"
    unfolding p(2) using p(1) by (intro march_days_parts) (simp_all add: era_parts_def)
  then show ?thesis using days_of_parts [OF m p] by simp
qed

lemma next_date_valid: "valid_date y m d \<Longrightarrow> next_date (y, m, d) = (y', m', d') \<Longrightarrow> valid_date y' m' d'"
  by (auto simp: valid_date_def month_length_def split: if_splits)

lemma next_date_days:
  assumes "valid_date y m d" "next_date (y, m, d) = (y', m', d')"
  shows "days_from_civil y' m' d' = days_from_civil y m d + 1"
proof -
  have m: "m \<in> {1, 2, 3, 4, 5, 6, 7, 8, 9, 10, 11, 12}" "d \<le> month_length y m" using assms(1) month_cases by (simp_all add: valid_date_def)
  show ?thesis
  proof (cases "d < month_length y m")
    case True
    then have "y' = y" "m' = m" "d' = d + 1" using assms(2) by simp_all
    then show ?thesis using days_valid [OF assms(1)] days_valid [OF next_date_valid [OF assms]] by (simp add: year_day_def)
  next
    case False
    then have d: "d = month_length y m" using m(2) by simp
    show ?thesis
      using m(1) assms(2) d march_days_step [of "y - 1"] unfolding days_valid [OF assms(1)] days_valid [OF next_date_valid [OF assms]]
      by (elim insertE emptyE) (auto simp: year_day_def before_month_def march_month_def march_year_def month_length_def split: if_splits)
  qed
qed


section \<open>Broken-down time\<close>

definition date_of :: "tm \<Rightarrow> int \<times> int \<times> int" where
  "date_of x = (tm_year x + 1900, tm_mon x + 1, tm_mday x)"

definition clock_of :: "tm \<Rightarrow> int \<times> int \<times> int" where
  "clock_of x = (tm_hour x, tm_min x, tm_sec x)"

lemma year_days:
  assumes "civil_from_days days = (y, m, d, yday)"
  shows "0 \<le> days - days_from_civil y 1 1" "days - days_from_civil y 1 1 \<le> 365" "yday = days - days_from_civil y 1 1"
proof -
  have v: "valid_date y m d" "days_from_civil y m d = days" by (rule days_of_civil [OF assms])+
  have v1: "valid_date y 1 1" by (simp add: valid_date_def month_length_def)
  note n = year_day_bounds(1,2) [OF v(1)]
  have "0 \<le> days - days_from_civil y 1 1 \<and> days - days_from_civil y 1 1 \<le> 365"
  proof (cases "m \<le> 2")
    case True
    have "306 \<le> year_day m d" using True v(1) by (simp add: year_day_def before_month_def march_month_def valid_date_def) (linarith | presburger)?
    then show ?thesis using True n unfolding v(2) [symmetric] days_valid [OF v(1)] days_valid [OF v1]
      by (simp add: march_year_def year_day_def before_month_def march_month_def)
  next
    case False
    have "year_day m d \<le> 305"
      using False v(1) month_cases [of m] by (auto simp: year_day_def before_month_def march_month_def valid_date_def month_length_def)
    then show ?thesis using False n march_days_step [of "y - 1"] unfolding v(2) [symmetric] days_valid [OF v(1)] days_valid [OF v1]
      by (simp add: march_year_def year_day_def before_month_def march_month_def split: if_splits)
  qed
  then show r: "0 \<le> days - days_from_civil y 1 1" "days - days_from_civil y 1 1 \<le> 365" by simp_all
  have "yday = to_c_int (days - days_from_civil y 1 1)"
    using assms unfolding civil_from_days_def Let_def by auto
  then show "yday = days - days_from_civil y 1 1" using r by (simp add: to_c_int_exact INT_MIN_def INT_MAX_def)
qed

lemma gmtime_r_eq:
  assumes "civil_from_days (t div 86400) = (y, m, d, yday)"
  shows "gmtime_r (Some t) (Some r) =
    (let x = r\<lparr>tm_hour := t mod 86400 div 3600, tm_min := t mod 3600 div 60, tm_sec := t mod 60, tm_wday := (t div 86400 + 4) mod 7\<rparr> in
     if y < INT_MIN + 1900 \<or> INT_MAX + 1900 < y then (False, Some x)
     else (True, Some (x\<lparr>tm_year := y - 1900, tm_yday := yday, tm_mon := m - 1, tm_mday := d, tm_isdst := 0\<rparr>)))"
proof -
  define e where "e = t mod 86400"
  have e: "0 \<le> e" "e < 86400" by (simp_all add: e_def)
  have sp: "(if t smod 86400 < 0 then (t smod 86400 + 86400, t sdiv 86400 - 1) else (t smod 86400, t sdiv 86400)) = (e, t div 86400)"
    using floor_split [of 86400 t] by (simp add: e_def)
  have f: "e mod 3600 = t mod 3600" "t mod 3600 mod 60 = t mod 60" unfolding e_def by (simp_all add: mod_mod_cancel)
  have small: "to_c_int x = x" if "0 \<le> x" "x < 86400" for x using that by (simp add: to_c_int_exact INT_MIN_def INT_MAX_def)
  have eh: "0 \<le> e div 3600" "e div 3600 < 86400" "0 \<le> e mod 3600 div 60" "e mod 3600 div 60 < 86400" "0 \<le> e mod 3600" "e mod 3600 < 3600"
    using e div_bounds [of 3600 e] div_bounds [of 60 "e mod 3600"] by (simp_all add: pos_imp_zdiv_nonneg_iff)
  have w: "(let wday = to_c_int ((t div 86400 + 4) smod 7) in if wday < 0 then wday + 7 else wday) = (t div 86400 + 4) mod 7"
  proof -
    have "\<bar>(t div 86400 + 4) smod 7\<bar> < 7" by (cases "0 \<le> t div 86400 + 4") (simp_all add: sdiv_pos sdiv_neg)
    then have "to_c_int ((t div 86400 + 4) smod 7) = (t div 86400 + 4) smod 7" by (simp add: to_c_int_exact INT_MIN_def INT_MAX_def)
    then show ?thesis using floor_split [of 7 "t div 86400 + 4"] by (simp add: Let_def split: if_splits)
  qed
  have secs: "SECS_PER_DAY = 86400" "SECS_PER_HOUR = 3600" "SECS_PER_MIN = 60" "EPOCH_WDAY = 4"
    by (simp_all add: SECS_PER_DAY_def SECS_PER_HOUR_def SECS_PER_MIN_def EPOCH_WDAY_def)
  have c: "to_c_int (e sdiv 3600) = e div 3600" "e smod 3600 = e mod 3600" "to_c_int (e mod 3600 sdiv 60) = e mod 3600 div 60"
    "to_c_int (e mod 3600 smod 60) = e mod 3600 mod 60"
    using e eh by (simp_all add: sdiv_pos small)
  have yr: "to_c_int (y - 1900) = y - 1900" if "\<not> (y < INT_MIN + 1900 \<or> INT_MAX + 1900 < y)" using that by (simp add: to_c_int_exact)
  show ?thesis
    unfolding gmtime_r_def secs option.case prod.case Let_def sp
    using w yr by (simp add: assms c(1,2) c(3,4) [unfolded f(1)] f e_def [symmetric] Let_def)
qed

lemma mktime_seconds_eq:
  assumes "0 \<le> tm_mon x" "tm_mon x < 12"
  shows "mktime_seconds x = days_from_civil (tm_year x + 1900) (tm_mon x + 1) (tm_mday x) * 86400 + tm_hour x * 3600 + tm_min x * 60 + tm_sec x"
proof -
  have "tm_mon x sdiv 12 = 0" "to_c_int (tm_mon x smod 12) = tm_mon x" using assms by (simp_all add: sdiv_pos to_c_int_exact INT_MIN_def INT_MAX_def)
  then show ?thesis using assms
    by (simp add: mktime_seconds_def SECS_PER_DAY_def SECS_PER_HOUR_def SECS_PER_MIN_def)
qed

definition valid_clock :: "tm \<Rightarrow> bool" where
  "valid_clock x \<longleftrightarrow> 0 \<le> tm_hour x \<and> tm_hour x < 24 \<and> 0 \<le> tm_min x \<and> tm_min x < 60 \<and> 0 \<le> tm_sec x \<and> tm_sec x < 60"

lemma gmtime_mktime:
  assumes "gmtime_r (Some t) (Some r) = (True, Some x)"
  shows "mktime (Some x) = (t, Some x)"
proof -
  obtain y m d yday where c: "civil_from_days (t div 86400) = (y, m, d, yday)" by (metis prod_cases4)
  note v = days_of_civil [OF c]
  have x: "x = r\<lparr>tm_hour := t mod 86400 div 3600, tm_min := t mod 3600 div 60, tm_sec := t mod 60, tm_wday := (t div 86400 + 4) mod 7,
      tm_year := y - 1900, tm_yday := yday, tm_mon := m - 1, tm_mday := d, tm_isdst := 0\<rparr>"
    and yr: "\<not> (y < INT_MIN + 1900 \<or> INT_MAX + 1900 < y)"
    using assms gmtime_r_eq [OF c] by (auto simp: Let_def split: if_splits)
  have "mktime_seconds x = t div 86400 * 86400 + t mod 86400 div 3600 * 3600 + t mod 3600 div 60 * 60 + t mod 60"
    using v by (subst mktime_seconds_eq) (simp_all add: x valid_date_def)
  also have "\<dots> = t div 86400 * 86400 + t mod 86400 div 3600 * 3600 + t mod 86400 mod 3600 div 60 * 60 + t mod 86400 mod 3600 mod 60"
    by (simp add: mod_mod_cancel)
  also have "\<dots> = t" by simp
  finally have s: "mktime_seconds x = t" .
  have "gmtime_r (Some t) (Some x) = (True, Some x)" using yr unfolding gmtime_r_eq [OF c] by (simp add: Let_def x)
  then show ?thesis by (simp add: mktime_def s)
qed

lemma mktime_gmtime:
  assumes "date_of x = (y, m, d)" "valid_date y m d" "valid_clock x" "INT_MIN \<le> tm_year x" "tm_year x \<le> INT_MAX"
  shows "\<exists>t x'. mktime (Some x) = (t, Some x') \<and> gmtime_r (Some t) (Some x) = (True, Some x') \<and> date_of x' = (y, m, d) \<and> clock_of x' = clock_of x"
proof -
  define D where "D = days_from_civil y m d"
  define k where "k = tm_hour x * 3600 + tm_min x * 60 + tm_sec x"
  have e: "y = tm_year x + 1900" "m = tm_mon x + 1" "d = tm_mday x" using assms(1) by (simp_all add: date_of_def)
  have c: "0 \<le> tm_hour x" "tm_hour x < 24" "0 \<le> tm_min x" "tm_min x < 60" "0 \<le> tm_sec x" "tm_sec x < 60" using assms(3) by (simp_all add: valid_clock_def)
  have k: "0 \<le> k" "k < 86400" using c by (simp_all add: k_def)
  have t: "mktime_seconds x = D * 86400 + k" using assms(2) by (subst mktime_seconds_eq) (simp_all add: e valid_date_def D_def k_def)
  have td: "(D * 86400 + k) div 86400 = D" "(D * 86400 + k) mod 86400 = k"
    by (rule int_div_pos_eq [OF _ k], simp) (rule int_mod_pos_eq [OF _ k, of _ D], simp)
  obtain yd where yd: "civil_from_days ((D * 86400 + k) div 86400) = (y, m, d, yd)" using civil_of_days [OF assms(2), folded D_def] td(1) by auto
  define j where "j = tm_min x * 60 + tm_sec x"
  have j: "0 \<le> j" "j < 3600" using c unfolding j_def by linarith+
  have T: "D * 86400 + k = 3600 * (24 * D + tm_hour x) + j" "D * 86400 + k = 60 * (1440 * D + 60 * tm_hour x + tm_min x) + tm_sec x"
    "k = 3600 * tm_hour x + j" "j = 60 * tm_min x + tm_sec x" by (simp_all add: k_def j_def)
  have "(D * 86400 + k) mod 3600 = j" by (rule int_mod_pos_eq [OF T(1) j])
  moreover have "(D * 86400 + k) mod 60 = tm_sec x" by (rule int_mod_pos_eq [OF T(2) c(5,6)])
  moreover have "k div 3600 = tm_hour x" by (rule int_div_pos_eq [OF T(3) j])
  moreover have "j div 60 = tm_min x" by (rule int_div_pos_eq [OF T(4) c(5,6)])
  ultimately have clock: "(D * 86400 + k) mod 86400 div 3600 = tm_hour x" "(D * 86400 + k) mod 3600 div 60 = tm_min x" "(D * 86400 + k) mod 60 = tm_sec x"
    using td(2) by simp_all
  have yr: "\<not> (y < INT_MIN + 1900 \<or> INT_MAX + 1900 < y)" using assms(4,5) e(1) by simp
  define x' where "x' = x\<lparr>tm_wday := (D + 4) mod 7, tm_year := y - 1900, tm_yday := yd, tm_mon := m - 1, tm_mday := d, tm_isdst := 0\<rparr>"
  have g: "gmtime_r (Some (D * 86400 + k)) (Some x) = (True, Some x')"
    unfolding gmtime_r_eq [OF yd] Let_def clock td(1) if_not_P [OF yr] by (simp add: x'_def)
  have "mktime (Some x) = (D * 86400 + k, Some x')" using g t by (simp add: mktime_def Let_def)
  moreover have "date_of x' = (y, m, d)" "clock_of x' = clock_of x" by (simp_all add: x'_def date_of_def clock_of_def)
  ultimately show ?thesis using g by blast
qed

text \<open>For fields of type \<open>int\<close> no intermediate value of \<open>mktime\<close> leaves 64 bits.\<close>

definition int_range :: "int \<Rightarrow> bool" where
  "int_range x \<longleftrightarrow> INT_MIN \<le> x \<and> x \<le> INT_MAX"

lemma days_from_civil_range:
  assumes "\<bar>year\<bar> \<le> 2 ^ 33"
  shows "\<bar>days_from_civil year month day\<bar> < 2 ^ 43"
proof -
  define Y where "Y = year - (if month \<le> 2 then 1 else 0)"
  define w where "w = to_unsigned (Y - Y div 400 * 400) * 365 + to_unsigned (Y - Y div 400 * 400) div 4 - to_unsigned (Y - Y div 400 * 400) div 100 +
    ((153 * to_unsigned (month + (if 2 < month then - 3 else 9)) + 2) div 5 + to_unsigned day - 1)"
  have era: "(if 0 \<le> Y then Y sdiv 400 else (Y - 399) sdiv 400) = Y div 400" by (rule floor_era) simp_all
  have "days_from_civil year month day = Y div 400 * 146097 + uint w - 719468"
    unfolding days_from_civil_def Let_def Y_def [symmetric] era w_def by simp
  moreover have "0 \<le> uint w" "uint w < 4294967296" using uint_lt2p [of w] by simp_all
  moreover have "- (2 ^ 33) - 1 \<le> Y" "Y \<le> 2 ^ 33" using assms by (auto simp: Y_def)
  then have "- 33554432 \<le> Y div 400" "Y div 400 \<le> 33554432" using div_bounds [of 400 Y] by simp_all
  ultimately have "days_from_civil year month day < 8796093022208" "- 8796093022208 < days_from_civil year month day" by linarith+
  then show ?thesis by simp
qed

lemma mktime_in_range:
  assumes "int_range (tm_year x)" "int_range (tm_mon x)" "int_range (tm_hour x)" "int_range (tm_min x)" "int_range (tm_sec x)"
  shows "\<bar>mktime_seconds x\<bar> < 2 ^ 60"
proof -
  define my where "my = (if to_c_int (tm_mon x smod 12) < 0 then tm_mon x sdiv 12 - 1 else tm_mon x sdiv 12)"
  define mi where "mi = (if to_c_int (tm_mon x smod 12) < 0 then to_c_int (tm_mon x smod 12) + 12 else to_c_int (tm_mon x smod 12))"
  have r: "\<bar>tm_year x\<bar> \<le> 2 ^ 31" "\<bar>tm_mon x\<bar> \<le> 2 ^ 31" "\<bar>tm_hour x\<bar> \<le> 2 ^ 31" "\<bar>tm_min x\<bar> \<le> 2 ^ 31" "\<bar>tm_sec x\<bar> \<le> 2 ^ 31"
    using assms by (auto simp: int_range_def INT_MIN_def INT_MAX_def)
  have "\<bar>tm_mon x sdiv 12\<bar> \<le> 2 ^ 31"
    using r(2) div_bounds [of 12 "tm_mon x"] div_bounds [of 12 "- tm_mon x"] by (cases "0 \<le> tm_mon x") (simp_all add: sdiv_pos sdiv_neg)
  then have "- (2 ^ 31) - 1 \<le> my" "my \<le> 2 ^ 31" unfolding my_def by (auto simp: abs_le_iff)
  then have "\<bar>tm_year x + 1900 + my\<bar> \<le> 2 ^ 33" using r(1) by (simp add: abs_le_iff)
  then have "\<bar>days_from_civil (tm_year x + 1900 + my) (mi + 1) (tm_mday x)\<bar> < 2 ^ 43" by (rule days_from_civil_range)
  moreover have "mktime_seconds x = days_from_civil (tm_year x + 1900 + my) (mi + 1) (tm_mday x) * 86400 + tm_hour x * 3600 + tm_min x * 60 + tm_sec x"
    by (simp add: mktime_seconds_def my_def mi_def Let_def SECS_PER_DAY_def SECS_PER_HOUR_def SECS_PER_MIN_def)
  ultimately show ?thesis using r(3-5) by (simp add: abs_le_iff abs_less_iff)
qed


section \<open>Properties\<close>

text \<open>
  (C15) Conversion between time and calendar is lossless: \<open>mktime\<close> gives back the time that \<open>gmtime_r\<close> broke down and leaves the structure as it is, for
  every time whose year an \<open>int\<close> can hold, also before 1970; and \<open>gmtime_r\<close> gives back every valid date and time of day that \<open>mktime\<close> took.
\<close>

theorem gmtime_mktime_roundtrip:
  "(gmtime_r (Some t) (Some r) = (True, Some x) \<longrightarrow> mktime (Some x) = (t, Some x)) \<and>
   (date_of z = (y, m, d) \<and> valid_date y m d \<and> valid_clock z \<and> int_range (tm_year z) \<longrightarrow>
     (\<exists>t' z'. mktime (Some z) = (t', Some z') \<and> gmtime_r (Some t') (Some z) = (True, Some z') \<and> date_of z' = (y, m, d) \<and> clock_of z' = clock_of z))"
proof (intro conjI impI)
  show "mktime (Some x) = (t, Some x)" if "gmtime_r (Some t) (Some r) = (True, Some x)" by (rule gmtime_mktime [OF that])
  show "\<exists>t' z'. mktime (Some z) = (t', Some z') \<and> gmtime_r (Some t') (Some z) = (True, Some z') \<and> date_of z' = (y, m, d) \<and> clock_of z' = clock_of z"
    if "date_of z = (y, m, d) \<and> valid_date y m d \<and> valid_clock z \<and> int_range (tm_year z)"
    by (rule mktime_gmtime) (use that in \<open>simp_all add: int_range_def\<close>)
qed

definition zero_tm :: tm where
  "zero_tm = \<lparr>tm_sec = 0, tm_min = 0, tm_hour = 0, tm_mday = 0, tm_mon = 0, tm_year = 0, tm_wday = 0, tm_yday = 0, tm_isdst = 0\<rparr>"

definition moon_tm :: tm where
  "moon_tm = \<lparr>tm_sec = 40, tm_min = 17, tm_hour = 20, tm_mday = 20, tm_mon = 6, tm_year = 69, tm_wday = 0, tm_yday = 200, tm_isdst = 0\<rparr>"

lemma moon_gmtime: "gmtime_r (Some (- 14182940)) (Some zero_tm) = (True, Some moon_tm)"
  by code_simp

theorem gmtime_mktime_roundtrip_witness:
  "mktime (Some moon_tm) = (- 14182940, Some moon_tm) \<and> valid_date 1969 7 20 \<and>
   (\<exists>t' z'. mktime (Some moon_tm) = (t', Some z') \<and> clock_of z' = (20, 17, 40))"
proof -
  have v: "valid_date 1969 7 20" by (simp add: valid_date_def month_length_def)
  show ?thesis using gmtime_mktime_roundtrip [of "- 14182940" zero_tm moon_tm moon_tm 1969 7 20] moon_gmtime v
    by (simp add: date_of_def clock_of_def valid_clock_def int_range_def moon_tm_def INT_MIN_def INT_MAX_def)
qed

text \<open>
  (C16) \<open>gmtime_r\<close> follows the Gregorian calendar: time 0 is Thursday 1970-01-01 00:00:00, and a day later the time of day is the same, the date is the next date of the
  calendar, the weekday the next one, and the day of the year counts on from 0 on the first of January.
\<close>

theorem gmtime_calendar:
  assumes "gmtime_r (Some t) (Some r) = (True, Some x)" "gmtime_r (Some (t + 86400)) (Some r') = (True, Some x')"
  shows "date_of x' = next_date (date_of x) \<and> clock_of x' = clock_of x \<and> tm_wday x' = (tm_wday x + 1) mod 7 \<and>
    tm_yday x' = (if tm_year x' = tm_year x then tm_yday x + 1 else 0) \<and>
    (t = 0 \<longrightarrow> date_of x = (1970, 1, 1) \<and> clock_of x = (0, 0, 0) \<and> tm_wday x = 4 \<and> tm_yday x = 0)"
proof -
  obtain y m d yd where c: "civil_from_days (t div 86400) = (y, m, d, yd)" by (metis prod_cases4)
  obtain y' m' d' where n: "next_date (y, m, d) = (y', m', d')" by (metis prod_cases3)
  note v = days_of_civil [OF c]
  have t: "(t + 86400) div 86400 = t div 86400 + 1" "(t + 86400) mod 86400 = t mod 86400" "(t + 86400) mod 3600 = t mod 3600" "(t + 86400) mod 60 = t mod 60"
    by (simp_all add: mod_add_eq [of t, symmetric])
  obtain yd' where c': "civil_from_days ((t + 86400) div 86400) = (y', m', d', yd')"
    using civil_of_days [OF next_date_valid [OF v(1) n]] next_date_days [OF v(1) n] v(2) t(1) by auto
  note g = assms(1) [unfolded gmtime_r_eq [OF c] Let_def] assms(2) [unfolded gmtime_r_eq [OF c'] Let_def t(2,3,4)]
  have yd: "yd' = (if y' = y then yd + 1 else 0)"
  proof (cases "y' = y")
    case True
    then show ?thesis using year_days(3) [OF c] year_days(3) [OF c'] t(1) by simp
  next
    case False
    then have "m' = 1" "d' = 1" using n by (auto split: if_splits)
    then show ?thesis using year_days(3) [OF c'] days_of_civil(2) [OF c'] False by simp
  qed
  have w: "((t + 86400) div 86400 + 4) mod 7 = ((t div 86400 + 4) mod 7 + 1) mod 7" unfolding t(1) by (simp add: mod_simps algebra_simps)
  have "civil_from_days 0 = (1970, 1, 1, 0)" by code_simp
  then have "t = 0 \<Longrightarrow> y = 1970 \<and> m = 1 \<and> d = 1 \<and> yd = 0" using c by simp
  then have z: "t = 0 \<Longrightarrow> y = 1970 \<and> m = 1 \<and> d = 1 \<and> yd = 0" .
  have x: "x = r\<lparr>tm_hour := t mod 86400 div 3600, tm_min := t mod 3600 div 60, tm_sec := t mod 60, tm_wday := (t div 86400 + 4) mod 7,
      tm_year := y - 1900, tm_yday := yd, tm_mon := m - 1, tm_mday := d, tm_isdst := 0\<rparr>"
    using g(1) by (simp split: if_splits)
  have x': "x' = r'\<lparr>tm_hour := t mod 86400 div 3600, tm_min := t mod 3600 div 60, tm_sec := t mod 60, tm_wday := ((t + 86400) div 86400 + 4) mod 7,
      tm_year := y' - 1900, tm_yday := yd', tm_mon := m' - 1, tm_mday := d', tm_isdst := 0\<rparr>"
    using g(2) by (simp split: if_splits)
  have "date_of x' = next_date (date_of x)" using n by (simp add: x x' date_of_def)
  moreover have "clock_of x' = clock_of x" by (simp add: x x' clock_of_def)
  moreover have "tm_wday x' = (tm_wday x + 1) mod 7" using w by (simp add: x x')
  moreover have "tm_yday x' = (if tm_year x' = tm_year x then tm_yday x + 1 else 0)" using yd by (simp add: x x')
  ultimately show ?thesis using z by (simp add: x date_of_def clock_of_def)
qed

theorem gmtime_calendar_witness:
  "date_of (moon_tm\<lparr>tm_mday := 21, tm_wday := 1, tm_yday := 201\<rparr>) = next_date (1969, 7, 20)"
proof -
  have "gmtime_r (Some (- 14182940 + 86400)) (Some zero_tm) = (True, Some (moon_tm\<lparr>tm_mday := 21, tm_wday := 1, tm_yday := 201\<rparr>))" by code_simp
  from gmtime_calendar [OF moon_gmtime this] show ?thesis by (simp add: date_of_def moon_tm_def)
qed


end
