(* ===== verification/Linked_List.thy ===== *)
theory Linked_List
  imports Prelude
begin

text \<open>
  The doubly linked list of \<open>libs/data/list.c\<close>. Nodes and list heads live in a store, addressed by numbers; a node
  records the list that owns it. Both builds are modelled: \<open>validate\<close> is \<open>LIST_VALIDATE_NODES\<close>, which is set in debug builds.
  Creating and freeing nodes and lists is left to the allocator.
\<close>

section \<open>Model\<close>

type_synonym nid = nat
type_synonym lid = nat

record list_node =
  ln_data :: "nat ptr"
  ln_next :: "nid ptr"
  ln_prev :: "nid ptr"
  ln_owner :: "lid ptr"

record linked_list =
  ll_length :: size_t
  ll_head :: "nid ptr"
  ll_tail :: "nid ptr"

record list_heap =
  nodes :: "nid \<Rightarrow> list_node"
  lists :: "lid \<Rightarrow> linked_list"

definition upd_node :: "nid \<Rightarrow> (list_node \<Rightarrow> list_node) \<Rightarrow> list_heap \<Rightarrow> list_heap" where
  "upd_node n f h = h\<lparr>nodes := (nodes h)(n := f (nodes h n))\<rparr>"

definition upd_list :: "lid \<Rightarrow> (linked_list \<Rightarrow> linked_list) \<Rightarrow> list_heap \<Rightarrow> list_heap" where
  "upd_list l f h = h\<lparr>lists := (lists h)(l := f (lists h l))\<rparr>"

text \<open>The loops along the \<open>next\<close> links. They need not end on a store with a cycle.\<close>

partial_function (option) contains_from :: "list_heap \<Rightarrow> nid ptr \<Rightarrow> nid \<Rightarrow> bool exec" where
  "contains_from h it node =
     (case it of
        None \<Rightarrow> Some False
      | Some i \<Rightarrow> if i = node then Some True else contains_from h (ln_next (nodes h i)) node)"

definition list_contains_node :: "list_heap \<Rightarrow> lid ptr \<Rightarrow> nid ptr \<Rightarrow> bool exec" where
  "list_contains_node h list node =
     (case (list, node) of
        (Some l, Some n) \<Rightarrow> contains_from h (ll_head (lists h l)) n
      | _ \<Rightarrow> Some False)"

partial_function (option) find_from :: "list_heap \<Rightarrow> nid ptr \<Rightarrow> nat ptr \<Rightarrow> nid ptr exec" where
  "find_from h it data =
     (case it of
        None \<Rightarrow> Some None
      | Some i \<Rightarrow> if ln_data (nodes h i) = data then Some (Some i) else find_from h (ln_next (nodes h i)) data)"

definition list_find :: "list_heap \<Rightarrow> lid \<Rightarrow> nat ptr \<Rightarrow> nid ptr exec" where
  "list_find h list data = find_from h (ll_head (lists h list)) data"

text \<open>A node that no list holds.\<close>

definition linkable :: "list_heap \<Rightarrow> lid \<Rightarrow> nid \<Rightarrow> bool" where
  "linkable h l n \<longleftrightarrow> ln_owner (nodes h n) = None \<and>
     \<not> (ln_next (nodes h n) \<noteq> None \<or> ln_prev (nodes h n) \<noteq> None \<or> ll_head (lists h l) = Some n \<or> ll_tail (lists h l) = Some n)"

text \<open>The last statements of the two insertions.\<close>

definition own_node :: "lid \<Rightarrow> nid \<Rightarrow> list_heap \<Rightarrow> list_heap" where
  "own_node l n h = upd_list l (\<lambda>x. x\<lparr>ll_length := sz_add (ll_length x) 1\<rparr>) (upd_node n (\<lambda>x. x\<lparr>ln_owner := Some l\<rparr>) h)"

definition list_append :: "bool \<Rightarrow> list_heap \<Rightarrow> lid ptr \<Rightarrow> nid ptr \<Rightarrow> (bool \<times> list_heap) exec" where
  "list_append validate h list node =
     (case (list, node) of
        (Some l, Some n) \<Rightarrow>
          do { dup \<leftarrow> (if validate then list_contains_node h list node else Some False);
               if dup \<or> \<not> linkable h l n then Some (False, h)
               else let h = upd_node n (\<lambda>x. x\<lparr>ln_next := None\<rparr>) h in
                 do { h \<leftarrow> (if ll_length (lists h l) = 0
                             then Some (upd_list l (\<lambda>x. x\<lparr>ll_head := Some n, ll_tail := Some n\<rparr>) (upd_node n (\<lambda>x. x\<lparr>ln_prev := None\<rparr>) h))
                             else do { t \<leftarrow> ll_tail (lists h l);
                                       let h = upd_node t (\<lambda>x. x\<lparr>ln_next := Some n\<rparr>) h;
                                           h = upd_node n (\<lambda>x. x\<lparr>ln_prev := Some t\<rparr>) h in
                                       Some (upd_list l (\<lambda>x. x\<lparr>ll_tail := Some n\<rparr>) h) });
                      Some (True, own_node l n h) } }
      | _ \<Rightarrow> Some (False, h))"

definition list_push :: "list_heap \<Rightarrow> lid ptr \<Rightarrow> nid ptr \<Rightarrow> (bool \<times> list_heap) exec" where
  "list_push h list node =
     (case (list, node) of
        (Some l, Some n) \<Rightarrow>
          if \<not> linkable h l n then Some (False, h)
          else let h = upd_node n (\<lambda>x. x\<lparr>ln_prev := None\<rparr>) h in
            do { h \<leftarrow> (if ll_length (lists h l) = 0
                        then Some (upd_list l (\<lambda>x. x\<lparr>ll_head := Some n, ll_tail := Some n\<rparr>) (upd_node n (\<lambda>x. x\<lparr>ln_next := None\<rparr>) h))
                        else do { t \<leftarrow> ll_head (lists h l);
                                  let h = upd_node t (\<lambda>x. x\<lparr>ln_prev := Some n\<rparr>) h;
                                      h = upd_node n (\<lambda>x. x\<lparr>ln_next := Some t\<rparr>) h in
                                  Some (upd_list l (\<lambda>x. x\<lparr>ll_head := Some n\<rparr>) h) });
                 Some (True, own_node l n h) }
      | _ \<Rightarrow> Some (False, h))"

definition links_valid :: "list_heap \<Rightarrow> lid \<Rightarrow> nid \<Rightarrow> bool" where
  "links_valid h l n =
     (let x = nodes h n in
      if ln_owner x \<noteq> Some l then False
      else if (case ln_prev x of None \<Rightarrow> False | Some p \<Rightarrow> ln_next (nodes h p) \<noteq> Some n) then False
      else if (case ln_next x of None \<Rightarrow> False | Some q \<Rightarrow> ln_prev (nodes h q) \<noteq> Some n) then False
      else if ll_head (lists h l) \<noteq> Some n \<and> ln_prev x = None then False
      else if ll_tail (lists h l) \<noteq> Some n \<and> ln_next x = None then False
      else True)"

text \<open>The bounded search for the predecessor.\<close>

fun search_node :: "list_heap \<Rightarrow> nid \<Rightarrow> nat \<Rightarrow> nid ptr \<Rightarrow> nid ptr \<Rightarrow> nid ptr \<times> nid ptr" where
  "search_node h node limit prev None = (prev, None)"
| "search_node h node limit prev (Some i) =
     (if i = node then (prev, Some i)
      else case limit of
             0 \<Rightarrow> (prev, Some i)
           | Suc k \<Rightarrow> search_node h node k (Some i) (ln_next (nodes h i)))"

text \<open>Bridging the gap between two neighbours.\<close>

definition set_next_or_head :: "lid \<Rightarrow> nid ptr \<Rightarrow> nid ptr \<Rightarrow> list_heap \<Rightarrow> list_heap" where
  "set_next_or_head l prev nxt h =
     (case prev of
        Some p \<Rightarrow> upd_node p (\<lambda>x. x\<lparr>ln_next := nxt\<rparr>) h
      | None \<Rightarrow> upd_list l (\<lambda>x. x\<lparr>ll_head := nxt\<rparr>) h)"

definition set_prev_or_tail :: "lid \<Rightarrow> nid ptr \<Rightarrow> nid ptr \<Rightarrow> list_heap \<Rightarrow> list_heap" where
  "set_prev_or_tail l nxt prev h =
     (case nxt of
        Some q \<Rightarrow> upd_node q (\<lambda>x. x\<lparr>ln_prev := prev\<rparr>) h
      | None \<Rightarrow> upd_list l (\<lambda>x. x\<lparr>ll_tail := prev\<rparr>) h)"

definition unlink_node :: "lid \<Rightarrow> nid \<Rightarrow> nid ptr \<Rightarrow> nid ptr \<Rightarrow> list_heap \<Rightarrow> list_heap" where
  "unlink_node l n prev nxt h =
     (let h = set_prev_or_tail l nxt prev (set_next_or_head l prev nxt h);
          h = upd_node n (\<lambda>x. x\<lparr>ln_prev := None, ln_next := None, ln_owner := None\<rparr>) h in
      upd_list l (\<lambda>x. x\<lparr>ll_length := sz_sub (ll_length x) 1\<rparr>) h)"

definition list_remove :: "bool \<Rightarrow> list_heap \<Rightarrow> lid ptr \<Rightarrow> nid ptr \<Rightarrow> (bool \<times> list_heap) exec" where
  "list_remove validate h list node =
     (case (list, node) of
        (Some l, Some n) \<Rightarrow>
          if ll_length (lists h l) = 0 then Some (False, h)
          else let (found, prev) =
                     (if links_valid h l n then (True, ln_prev (nodes h n))
                      else let limit = (if ll_length (lists h l) \<noteq> 0 then ll_length (lists h l) else 1);
                               (prev, nxt) = search_node h n limit None (ll_head (lists h l)) in
                           (nxt = Some n, prev)) in
            if \<not> found then Some (False, h)
            else do { ok \<leftarrow> (if validate then list_contains_node h list node else Some True);
                      if \<not> ok then Some (False, h)
                      else Some (True, unlink_node l n prev (ln_next (nodes h n)) h) }
      | _ \<Rightarrow> Some (False, h))"

text \<open>Setting the links of the two nodes before the neighbours follow.\<close>

definition cross_links :: "nid \<Rightarrow> nid \<Rightarrow> list_heap \<Rightarrow> list_heap" where
  "cross_links left right h =
     (let lp = ln_prev (nodes h left); ln = ln_next (nodes h left);
          rp = ln_prev (nodes h right); rn = ln_next (nodes h right) in
      if ln = Some right then
        upd_node right (\<lambda>x. x\<lparr>ln_prev := lp, ln_next := Some left\<rparr>) (upd_node left (\<lambda>x. x\<lparr>ln_prev := Some right, ln_next := rn\<rparr>) h)
      else if rn = Some left then
        upd_node left (\<lambda>x. x\<lparr>ln_prev := rp, ln_next := Some right\<rparr>) (upd_node right (\<lambda>x. x\<lparr>ln_prev := Some left, ln_next := ln\<rparr>) h)
      else
        upd_node right (\<lambda>x. x\<lparr>ln_prev := lp, ln_next := ln\<rparr>) (upd_node left (\<lambda>x. x\<lparr>ln_prev := rp, ln_next := rn\<rparr>) h))"

text \<open>The neighbours, or the ends of the list, are pointed at a node that took its new place.\<close>

definition settle_node :: "lid \<Rightarrow> nid \<Rightarrow> list_heap \<Rightarrow> list_heap" where
  "settle_node l n h =
     (let h = set_next_or_head l (ln_prev (nodes h n)) (Some n) h in
      set_prev_or_tail l (ln_next (nodes h n)) (Some n) h)"

definition list_swap :: "list_heap \<Rightarrow> nid ptr \<Rightarrow> nid ptr \<Rightarrow> (bool \<times> list_heap) exec" where
  "list_swap h left right =
     (case (left, right) of
        (Some a, Some b) \<Rightarrow>
          if a = b then Some (False, h)
          else (case ln_owner (nodes h a) of
                  None \<Rightarrow> Some (False, h)
                | Some l \<Rightarrow>
                    if Some l \<noteq> ln_owner (nodes h b) then Some (False, h)
                    else Some (True, settle_node l b (settle_node l a (cross_links a b h))))
      | _ \<Rightarrow> Some (False, h))"

definition list_pop :: "bool \<Rightarrow> list_heap \<Rightarrow> lid ptr \<Rightarrow> (nid ptr \<times> list_heap) exec" where
  "list_pop validate h list =
     (case list of
        None \<Rightarrow> Some (None, h)
      | Some l \<Rightarrow>
          if ll_length (lists h l) = 0 then Some (None, h)
          else let tail = ll_tail (lists h l) in
            do { (ok, h) \<leftarrow> list_remove validate h list tail; Some (if ok then tail else None, h) })"

definition list_pop_front :: "bool \<Rightarrow> list_heap \<Rightarrow> lid ptr \<Rightarrow> (nid ptr \<times> list_heap) exec" where
  "list_pop_front validate h list =
     (case list of
        None \<Rightarrow> Some (None, h)
      | Some l \<Rightarrow>
          if ll_length (lists h l) = 0 then Some (None, h)
          else let head = ll_head (lists h l) in
            do { (ok, h) \<leftarrow> list_remove validate h list head; Some (if ok then head else None, h) })"


section \<open>Segments\<close>

lemma upd_node_sel [simp]: "nodes (upd_node n f h) = (nodes h)(n := f (nodes h n))" "lists (upd_node n f h) = lists h"
  by (simp_all add: upd_node_def)

lemma upd_list_sel [simp]: "nodes (upd_list l f h) = nodes h" "lists (upd_list l f h) = (lists h)(l := f (lists h l))"
  by (simp_all add: upd_list_def)

definition first_ptr :: "nid list \<Rightarrow> nid ptr \<Rightarrow> nid ptr" where
  "first_ptr xs q = (case xs of [] \<Rightarrow> q | x # _ \<Rightarrow> Some x)"

definition last_ptr :: "nid list \<Rightarrow> nid ptr \<Rightarrow> nid ptr" where
  "last_ptr xs p = (if xs = [] then p else Some (last xs))"

lemma first_ptr_simps [simp]: "first_ptr [] q = q" "first_ptr (x # xs) q = Some x"
  by (simp_all add: first_ptr_def)

lemma last_ptr_simps [simp]: "last_ptr [] p = p" "last_ptr (x # xs) p = last_ptr xs (Some x)"
  by (simp_all add: last_ptr_def)

lemma first_ptr_append [simp]: "first_ptr (xs @ ys) q = first_ptr xs (first_ptr ys q)"
  by (cases xs) simp_all

lemma last_ptr_append [simp]: "last_ptr (xs @ ys) p = last_ptr ys (last_ptr xs p)"
  by (simp add: last_ptr_def)

lemma first_ptr_cases: "first_ptr xs q = Some y \<longleftrightarrow> (xs = [] \<and> q = Some y) \<or> (xs \<noteq> [] \<and> hd xs = y)"
  by (cases xs) auto

lemma last_ptr_cases: "last_ptr xs p = Some y \<longleftrightarrow> (xs = [] \<and> p = Some y) \<or> (xs \<noteq> [] \<and> last xs = y)"
  by (auto simp: last_ptr_def)

text \<open>The nodes \<open>xs\<close> of list \<open>l\<close> are linked in order, between the neighbours \<open>p\<close> and \<open>q\<close>.\<close>

fun dseg :: "lid \<Rightarrow> (nid \<Rightarrow> list_node) \<Rightarrow> nid ptr \<Rightarrow> nid list \<Rightarrow> nid ptr \<Rightarrow> bool" where
  "dseg l nd p [] q \<longleftrightarrow> True"
| "dseg l nd p (x # xs) q \<longleftrightarrow>
     ln_prev (nd x) = p \<and> ln_next (nd x) = first_ptr xs q \<and> ln_owner (nd x) = Some l \<and> dseg l nd (Some x) xs q"

lemma dseg_append [simp]:
  "dseg l nd p (xs @ ys) q \<longleftrightarrow> dseg l nd p xs (first_ptr ys q) \<and> dseg l nd (last_ptr xs p) ys q"
  by (induction xs arbitrary: p) auto

lemma dseg_cong: "(\<And>x. x \<in> set xs \<Longrightarrow> nd' x = nd x) \<Longrightarrow> dseg l nd' p xs q = dseg l nd p xs q"
  by (induction xs arbitrary: p) simp_all

lemma dseg_upd [simp]: "n \<notin> set xs \<Longrightarrow> dseg l (nd(n := x)) p xs q = dseg l nd p xs q"
  by (rule dseg_cong) auto

lemma dseg_owner: "dseg l nd p xs q \<Longrightarrow> x \<in> set xs \<Longrightarrow> ln_owner (nd x) = Some l"
  by (induction xs arbitrary: p) auto

lemma dseg_set_next:
  assumes "dseg l nd p xs q" "distinct xs" "xs \<noteq> []"
  shows "dseg l (nd(last xs := (nd (last xs))\<lparr>ln_next := q'\<rparr>)) p xs q'"
  using assms by (cases xs rule: rev_cases) simp_all

lemma dseg_set_prev:
  assumes "dseg l nd p xs q" "distinct xs" "xs \<noteq> []"
  shows "dseg l (nd(hd xs := (nd (hd xs))\<lparr>ln_prev := p'\<rparr>)) p' xs q"
  using assms by (cases xs) simp_all


section \<open>Well-formed stores\<close>

text \<open>
  \<open>L l\<close> are the nodes of list \<open>l\<close>, in order. Node addresses are below \<open>NODE_LIMIT\<close>, as a node takes 32 bytes of a 64-bit address space; so
  a length does not wrap.
\<close>

definition NODE_LIMIT :: nat where "NODE_LIMIT = 2 ^ 59"

definition dll :: "list_heap \<Rightarrow> lid \<Rightarrow> nid list \<Rightarrow> bool" where
  "dll h l xs \<longleftrightarrow> distinct xs \<and> lists h l = \<lparr>ll_length = length xs, ll_head = first_ptr xs None, ll_tail = last_ptr xs None\<rparr> \<and>
     dseg l (nodes h) None xs None"

definition linked :: "(lid \<Rightarrow> nid list) \<Rightarrow> nid set" where
  "linked L = (\<Union>l. set (L l))"

definition list_ok :: "list_heap \<Rightarrow> (lid \<Rightarrow> nid list) \<Rightarrow> bool" where
  "list_ok h L \<longleftrightarrow> (\<forall>l. dll h l (L l)) \<and> linked L \<subseteq> {..<NODE_LIMIT} \<and>
     (\<forall>n. n \<notin> linked L \<longrightarrow> ln_next (nodes h n) = None \<and> ln_prev (nodes h n) = None \<and> ln_owner (nodes h n) = None)"

lemma list_okD:
  assumes "list_ok h L"
  shows "distinct (L l)" "lists h l = \<lparr>ll_length = length (L l), ll_head = first_ptr (L l) None, ll_tail = last_ptr (L l) None\<rparr>"
    "dseg l (nodes h) None (L l) None"
  using assms by (auto simp: list_ok_def dll_def)

lemma list_ok_limit: "list_ok h L \<Longrightarrow> set (L l) \<subseteq> {..<NODE_LIMIT}"
  unfolding list_ok_def linked_def by blast

lemma owner_iff:
  assumes "list_ok h L"
  shows "ln_owner (nodes h n) = Some l \<longleftrightarrow> n \<in> set (L l)" "ln_owner (nodes h n) = None \<longleftrightarrow> n \<notin> linked L"
proof -
  have o: "ln_owner (nodes h n) = Some k" if "n \<in> set (L k)" for k by (rule dseg_owner [OF list_okD(3) [OF assms] that])
  moreover have "ln_owner (nodes h n) = None" if "n \<notin> linked L" using assms that by (simp add: list_ok_def)
  ultimately show "ln_owner (nodes h n) = None \<longleftrightarrow> n \<notin> linked L" by (auto simp: linked_def)
  then show "ln_owner (nodes h n) = Some l \<longleftrightarrow> n \<in> set (L l)" using o by (force simp: linked_def)
qed

lemma disjoint_lists:
  assumes "list_ok h L" "n \<in> set (L l)" "n \<in> set (L k)"
  shows "k = l"
  using owner_iff(1) [OF assms(1), of n] assms(2,3) by (metis option.inject)

lemma length_small:
  assumes "list_ok h L"
  shows "length (L l) \<le> NODE_LIMIT"
proof -
  have "card (set (L l)) \<le> NODE_LIMIT" using card_mono [OF _ list_ok_limit [OF assms], of l] by simp
  then show ?thesis using distinct_card [OF list_okD(1) [OF assms]] by metis
qed

text \<open>An operation on list \<open>l\<close> that gives it the nodes \<open>xs\<close> and leaves the others alone.\<close>

lemma list_ok_upd:
  assumes ok: "list_ok h L" and d: "dll h' l xs" and lim: "set xs \<subseteq> {..<NODE_LIMIT}"
    and other: "\<And>k. k \<noteq> l \<Longrightarrow> lists h' k = lists h k" "\<And>n. n \<notin> set (L l) \<Longrightarrow> n \<notin> set xs \<Longrightarrow> nodes h' n = nodes h n"
    and new: "\<And>k. k \<noteq> l \<Longrightarrow> set xs \<inter> set (L k) = {}"
    and gone: "\<And>n. n \<in> set (L l) \<Longrightarrow> n \<notin> set xs \<Longrightarrow> ln_next (nodes h' n) = None \<and> ln_prev (nodes h' n) = None \<and> ln_owner (nodes h' n) = None"
  shows "list_ok h' (L(l := xs))"
proof -
  have sub: "set xs \<subseteq> linked (L(l := xs))" unfolding linked_def using UN_upper [of l UNIV "\<lambda>k. set ((L(l := xs)) k)"] by simp
  have "dll h' k ((L(l := xs)) k)" for k
  proof (cases "k = l")
    case False
    have "nodes h' n = nodes h n" if "n \<in> set (L k)" for n
      using other(2) [of n] disjoint_lists [OF ok that, of l] new [OF False] that False by auto
    then have "dseg k (nodes h') None (L k) None" using list_okD(3) [OF ok] dseg_cong [of "L k" "nodes h'" "nodes h"] by blast
    then show ?thesis using list_okD(1,2) [OF ok] other(1) [OF False] False by (simp add: dll_def)
  qed (use d in simp)
  moreover have "linked (L(l := xs)) \<subseteq> {..<NODE_LIMIT}"
    using lim list_ok_limit [OF ok] unfolding linked_def by (intro UN_least) (simp split: if_split)
  moreover have "ln_next (nodes h' n) = None \<and> ln_prev (nodes h' n) = None \<and> ln_owner (nodes h' n) = None" if n: "n \<notin> linked (L(l := xs))" for n
  proof (cases "n \<in> set (L l)")
    case True
    moreover have "n \<notin> set xs" using n sub by blast
    ultimately show ?thesis by (rule gone)
  next
    case False
    have "n \<notin> set xs" using n sub by blast
    moreover have "n \<notin> set (L k)" for k using n False by (cases "k = l") (auto simp: linked_def split: if_splits)
    then have "n \<notin> linked L" by (simp add: linked_def)
    ultimately show ?thesis using other(2) [OF False] ok by (simp add: list_ok_def)
  qed
  ultimately show ?thesis by (simp add: list_ok_def)
qed

text \<open>The loops end on a well-formed store.\<close>

lemma contains_from_dseg: "dseg l (nodes h) p xs None \<Longrightarrow> contains_from h (first_ptr xs None) n = Some (n \<in> set xs)"
  by (induction xs arbitrary: p) (auto simp: contains_from.simps)

lemma find_from_dseg:
  "dseg l (nodes h) p xs None \<Longrightarrow> find_from h (first_ptr xs None) d = Some (List.find (\<lambda>x. ln_data (nodes h x) = d) xs)"
  by (induction xs arbitrary: p) (auto simp: find_from.simps)

lemma list_contains_node_ok: "list_ok h L \<Longrightarrow> list_contains_node h (Some l) (Some n) = Some (n \<in> set (L l))"
  using contains_from_dseg [OF list_okD(3)] by (simp add: list_contains_node_def list_okD(2))

lemma list_find_ok: "list_ok h L \<Longrightarrow> list_find h l d = Some (List.find (\<lambda>x. ln_data (nodes h x) = d) (L l))"
  using find_from_dseg [OF list_okD(3)] by (simp add: list_find_def list_okD(2))


section \<open>Insertion\<close>

lemma linkable_iff:
  assumes "list_ok h L"
  shows "linkable h l n \<longleftrightarrow> n \<notin> linked L"
proof -
  have "ll_head (lists h l) \<noteq> Some n \<and> ll_tail (lists h l) \<noteq> Some n" if "n \<notin> linked L"
  proof -
    have "n \<notin> set (L l)" using that by (simp add: linked_def)
    then have "first_ptr (L l) None \<noteq> Some n" "last_ptr (L l) None \<noteq> Some n" using hd_in_set last_in_set by (force simp: first_ptr_cases last_ptr_cases)+
    then show ?thesis using list_okD(2) [OF assms, of l] by simp
  qed
  then show ?thesis using assms owner_iff(2) [OF assms, of n] by (auto simp: linkable_def list_ok_def)
qed

lemma length_step: "list_ok h L \<Longrightarrow> sz_add (length (L l)) 1 = Suc (length (L l))"
  using length_small [of h L l] by (simp add: sz_add_def NODE_LIMIT_def SIZE_MAX_def)

lemma list_append_ok:
  assumes ok: "list_ok h L" and n: "n < NODE_LIMIT" "n \<notin> linked L"
  obtains h' where "list_append v h (Some l) (Some n) = Some (True, h')" "list_ok h' (L(l := L l @ [n]))" "\<And>m. ln_data (nodes h' m) = ln_data (nodes h m)"
proof -
  have nl: "n \<notin> set (L k)" for k using n(2) by (simp add: linked_def)
  have dup: "(if v then list_contains_node h (Some l) (Some n) else Some False) = Some False"
    using list_contains_node_ok [OF ok] nl by simp
  note D = list_okD [OF ok, of l]
  define h1 where "h1 = upd_node n (\<lambda>x. x\<lparr>ln_next := None\<rparr>) h"
  define h2 where "h2 = (if L l = [] then upd_list l (\<lambda>x. x\<lparr>ll_head := Some n, ll_tail := Some n\<rparr>) (upd_node n (\<lambda>x. x\<lparr>ln_prev := None\<rparr>) h1)
    else upd_list l (\<lambda>x. x\<lparr>ll_tail := Some n\<rparr>) (upd_node n (\<lambda>x. x\<lparr>ln_prev := Some (last (L l))\<rparr>) (upd_node (last (L l)) (\<lambda>x. x\<lparr>ln_next := Some n\<rparr>) h1)))"
  have ne: "last (L l) \<noteq> n" if "L l \<noteq> []" using nl [of l] that last_in_set by metis
  have run: "list_append v h (Some l) (Some n) = Some (True, own_node l n h2)"
    using dup n(2) linkable_iff [OF ok] D(2) by (simp add: list_append_def h1_def h2_def Let_def last_ptr_def)
  have s: "dseg l (nodes h2) None (L l) (Some n)"
    using D nl dseg_set_next [OF D(3,1), of "Some n"] ne
    by (cases "L l = []") (simp_all add: h2_def h1_def fun_upd_twist)
  have x: "nodes h2 n = (nodes h n)\<lparr>ln_next := None, ln_prev := last_ptr (L l) None\<rparr>"
    "lists h2 l = \<lparr>ll_length = length (L l), ll_head = first_ptr (L l) (Some n), ll_tail = Some n\<rparr>"
    using D(2) ne by (cases "L l = []"; simp add: h2_def h1_def last_ptr_def first_ptr_def split: list.split)+
  have d: "dll (own_node l n h2) l (L l @ [n])"
    using D(1) nl s x length_step [OF ok, of l] by (simp add: dll_def own_node_def)
  have "list_ok (own_node l n h2) (L(l := L l @ [n]))"
  proof (rule list_ok_upd [OF ok d])
    show "set (L l @ [n]) \<subseteq> {..<NODE_LIMIT}" using list_ok_limit [OF ok, of l] n by auto
    show "lists (own_node l n h2) k = lists h k" if "k \<noteq> l" for k using that by (simp add: own_node_def h2_def h1_def)
    show "nodes (own_node l n h2) m = nodes h m" if "m \<notin> set (L l)" "m \<notin> set (L l @ [n])" for m
      using that by (auto simp: own_node_def h2_def h1_def)
    show "set (L l @ [n]) \<inter> set (L k) = {}" if "k \<noteq> l" for k using nl disjoint_lists [OF ok] that by auto
  qed auto
  moreover have "ln_data (nodes (own_node l n h2) m) = ln_data (nodes h m)" for m by (simp add: own_node_def h2_def h1_def)
  ultimately show thesis using run that by blast
qed

lemma list_append_linked:
  assumes "list_ok h L" "n \<in> linked L"
  shows "list_append v h (Some l) (Some n) = Some (False, h)" "list_push h (Some l) (Some n) = Some (False, h)"
  using assms list_contains_node_ok [OF assms(1)] linkable_iff [OF assms(1)] by (simp_all add: list_append_def list_push_def)

lemma list_push_ok:
  assumes ok: "list_ok h L" and n: "n < NODE_LIMIT" "n \<notin> linked L"
  obtains h' where "list_push h (Some l) (Some n) = Some (True, h')" "list_ok h' (L(l := n # L l))" "\<And>m. ln_data (nodes h' m) = ln_data (nodes h m)"
proof -
  have nl: "n \<notin> set (L k)" for k using n(2) by (simp add: linked_def)
  note D = list_okD [OF ok, of l]
  define h1 where "h1 = upd_node n (\<lambda>x. x\<lparr>ln_prev := None\<rparr>) h"
  define h2 where "h2 = (if L l = [] then upd_list l (\<lambda>x. x\<lparr>ll_head := Some n, ll_tail := Some n\<rparr>) (upd_node n (\<lambda>x. x\<lparr>ln_next := None\<rparr>) h1)
    else upd_list l (\<lambda>x. x\<lparr>ll_head := Some n\<rparr>) (upd_node n (\<lambda>x. x\<lparr>ln_next := Some (hd (L l))\<rparr>) (upd_node (hd (L l)) (\<lambda>x. x\<lparr>ln_prev := Some n\<rparr>) h1)))"
  have ne: "hd (L l) \<noteq> n" if "L l \<noteq> []" using nl [of l] that list.set_sel(1) by metis
  have hd: "first_ptr (L l) None = Some (hd (L l))" if "L l \<noteq> []" using that by (simp add: first_ptr_cases)
  have run: "list_push h (Some l) (Some n) = Some (True, own_node l n h2)"
    using n(2) linkable_iff [OF ok] D(2) hd by (simp add: list_push_def h1_def h2_def Let_def)
  have s: "dseg l (nodes h2) (Some n) (L l) None"
    using D nl dseg_set_prev [OF D(3,1), of "Some n"] ne
    by (cases "L l = []") (simp_all add: h2_def h1_def fun_upd_twist)
  have x: "nodes h2 n = (nodes h n)\<lparr>ln_prev := None, ln_next := first_ptr (L l) None\<rparr>"
    "lists h2 l = \<lparr>ll_length = length (L l), ll_head = Some n, ll_tail = last_ptr (L l) (Some n)\<rparr>"
    using D(2) ne hd by (cases "L l = []"; simp add: h2_def h1_def last_ptr_def)+
  have d: "dll (own_node l n h2) l (n # L l)"
    using D(1) nl s x length_step [OF ok, of l] by (simp add: dll_def own_node_def)
  have "list_ok (own_node l n h2) (L(l := n # L l))"
  proof (rule list_ok_upd [OF ok d])
    show "set (n # L l) \<subseteq> {..<NODE_LIMIT}" using list_ok_limit [OF ok, of l] n by auto
    show "lists (own_node l n h2) k = lists h k" if "k \<noteq> l" for k using that by (simp add: own_node_def h2_def h1_def)
    show "nodes (own_node l n h2) m = nodes h m" if "m \<notin> set (L l)" "m \<notin> set (n # L l)" for m
      using that by (auto simp: own_node_def h2_def h1_def)
    show "set (n # L l) \<inter> set (L k) = {}" if "k \<noteq> l" for k using nl disjoint_lists [OF ok] that by auto
  qed auto
  moreover have "ln_data (nodes (own_node l n h2) m) = ln_data (nodes h m)" for m by (simp add: own_node_def h2_def h1_def)
  ultimately show thesis using run that by blast
qed


section \<open>Removal\<close>

lemma last_ptr_Some: "xs \<noteq> [] \<Longrightarrow> last_ptr xs p = Some (last xs)"
  by (simp add: last_ptr_def)

lemma first_ptr_Some: "xs \<noteq> [] \<Longrightarrow> first_ptr xs q = Some (hd xs)"
  by (simp add: first_ptr_cases)

text \<open>Two segments that get linked to each other.\<close>

definition bridge :: "lid \<Rightarrow> nid list \<Rightarrow> nid list \<Rightarrow> list_heap \<Rightarrow> list_heap" where
  "bridge l as bs h = set_prev_or_tail l (first_ptr bs None) (last_ptr as None) (set_next_or_head l (last_ptr as None) (first_ptr bs None) h)"

lemma bridge_sel:
  "ln_owner (nodes (bridge l as bs h) m) = ln_owner (nodes h m)" "ln_data (nodes (bridge l as bs h) m) = ln_data (nodes h m)"
  "m \<notin> set as \<Longrightarrow> m \<notin> set bs \<Longrightarrow> nodes (bridge l as bs h) m = nodes h m" "k \<noteq> l \<Longrightarrow> lists (bridge l as bs h) k = lists h k"
proof -
  show "ln_owner (nodes (bridge l as bs h) m) = ln_owner (nodes h m)" "ln_data (nodes (bridge l as bs h) m) = ln_data (nodes h m)"
    "k \<noteq> l \<Longrightarrow> lists (bridge l as bs h) k = lists h k"
    by (simp_all add: bridge_def set_prev_or_tail_def set_next_or_head_def split: option.split)
  assume "m \<notin> set as" "m \<notin> set bs"
  then have "last_ptr as None \<noteq> Some m" "first_ptr bs None \<noteq> Some m" using hd_in_set last_in_set by (force simp: first_ptr_cases last_ptr_cases)+
  then show "nodes (bridge l as bs h) m = nodes h m"
    by (auto simp: bridge_def set_prev_or_tail_def set_next_or_head_def split: option.split)
qed

lemma bridge_list:
  "lists (bridge l as bs h) l = (lists h l)\<lparr>ll_head := (if as = [] then first_ptr bs None else ll_head (lists h l)),
     ll_tail := (if bs = [] then last_ptr as None else ll_tail (lists h l))\<rparr>"
  by (cases "as = []"; cases "bs = []") (simp_all add: bridge_def set_prev_or_tail_def set_next_or_head_def last_ptr_Some first_ptr_Some)

lemma bridge_dseg:
  assumes "dseg l (nodes h) None as q" "dseg l (nodes h) p bs None" "distinct (as @ bs)"
  shows "dseg l (nodes (bridge l as bs h)) None (as @ bs) None"
proof -
  define h1 where "h1 = set_next_or_head l (last_ptr as None) (first_ptr bs None) h"
  have 1: "dseg l (nodes h1) None as (first_ptr bs None) \<and> dseg l (nodes h1) p bs None"
  proof (cases "as = []")
    case False
    then have "last as \<notin> set bs" using assms(3) by (auto dest: last_in_set)
    then show ?thesis using dseg_set_next [OF assms(1) _ False] assms(2,3) False
      by (simp add: h1_def set_next_or_head_def last_ptr_Some)
  qed (use assms in \<open>simp add: h1_def set_next_or_head_def\<close>)
  have bh: "bridge l as bs h = set_prev_or_tail l (first_ptr bs None) (last_ptr as None) h1" by (simp add: bridge_def h1_def)
  have "dseg l (nodes (bridge l as bs h)) None as (first_ptr bs None) \<and> dseg l (nodes (bridge l as bs h)) (last_ptr as None) bs None"
  proof (cases "bs = []")
    case False
    then have "hd bs \<notin> set as" using assms(3) by (auto dest: hd_in_set)
    then show ?thesis using dseg_set_prev [OF conjunct2 [OF 1] _ False] 1 assms(3) False
      by (simp add: bh set_prev_or_tail_def first_ptr_Some)
  next
    case True
    then show ?thesis using 1 unfolding bh by (simp add: set_prev_or_tail_def)
  qed
  then show ?thesis by simp
qed

lemma list_remove_linked:
  assumes ok: "list_ok h L" and n: "n \<in> set (L l)"
  obtains h' where "list_remove v h (Some l) (Some n) = Some (True, h')" "list_ok h' (L(l := remove1 n (L l)))" "\<And>m. ln_data (nodes h' m) = ln_data (nodes h m)"
proof -
  note D = list_okD [OF ok, of l]
  obtain as bs where L: "L l = as @ n # bs" using n by (meson split_list)
  have nd: "n \<notin> set as" "n \<notin> set bs" "distinct (as @ bs)" using D(1) L by auto
  have r: "remove1 n (L l) = as @ bs" using nd L by (simp add: remove1_append)
  have sg: "dseg l (nodes h) None as (Some n)" "ln_prev (nodes h n) = last_ptr as None" "ln_next (nodes h n) = first_ptr bs None"
    "ln_owner (nodes h n) = Some l" "dseg l (nodes h) (Some n) bs None" using D(3) L by simp_all
  have prv: "ln_next (nodes h p) = Some n" if "last_ptr as None = Some p" for p using sg(1) that by (cases as rule: rev_cases) simp_all
  have nxt: "ln_prev (nodes h q) = Some n" if "first_ptr bs None = Some q" for q using sg(5) that by (cases bs) simp_all
  have ends: "ll_head (lists h l) = first_ptr as (Some n)" "ll_tail (lists h l) = last_ptr bs (Some n)" "ll_length (lists h l) = Suc (length as + length bs)"
    using D(2) L by simp_all
  have lv: "links_valid h l n"
    using sg(2,3,4) prv nxt ends
    by (auto simp: links_valid_def Let_def last_ptr_def first_ptr_def split: option.splits if_splits list.splits)
  define h' where "h' = unlink_node l n (last_ptr as None) (first_ptr bs None) h"
  have run: "list_remove v h (Some l) (Some n) = Some (True, h')"
    using lv ends(3) sg(2,3) list_contains_node_ok [OF ok, of l n] n by (simp add: list_remove_def h'_def)
  have h': "h' = upd_list l (\<lambda>x. x\<lparr>ll_length := sz_sub (ll_length x) 1\<rparr>) (upd_node n (\<lambda>x. x\<lparr>ln_prev := None, ln_next := None, ln_owner := None\<rparr>) (bridge l as bs h))"
    by (simp add: h'_def unlink_node_def bridge_def Let_def)
  have "sz_sub (Suc (length as + length bs)) 1 = length as + length bs"
    using length_small [OF ok, of l] L by (simp add: sz_sub_def NODE_LIMIT_def SIZE_MAX_def)
  then have ls: "lists h' l = \<lparr>ll_length = length (as @ bs), ll_head = first_ptr (as @ bs) None, ll_tail = last_ptr (as @ bs) None\<rparr>"
    using ends D(2) L unfolding h' by (cases as; cases bs) (simp_all add: bridge_list last_ptr_def)
  have d: "dll h' l (as @ bs)"
    using bridge_dseg [OF sg(1,5) nd(3)] nd ls by (simp add: dll_def h')
  have "list_ok h' (L(l := as @ bs))"
  proof (rule list_ok_upd [OF ok d])
    show "set (as @ bs) \<subseteq> {..<NODE_LIMIT}" using list_ok_limit [OF ok, of l] L by auto
    show "lists h' k = lists h k" if "k \<noteq> l" for k using that by (simp add: h' bridge_sel)
    show "nodes h' m = nodes h m" if "m \<notin> set (L l)" "m \<notin> set (as @ bs)" for m using that L by (auto simp: h' bridge_sel)
    show "set (as @ bs) \<inter> set (L k) = {}" if "k \<noteq> l" for k using disjoint_lists [OF ok, of _ l k] that L by auto
    show "ln_next (nodes h' m) = None \<and> ln_prev (nodes h' m) = None \<and> ln_owner (nodes h' m) = None" if "m \<in> set (L l)" "m \<notin> set (as @ bs)" for m
      using that L by (auto simp: h')
  qed
  moreover have "ln_data (nodes h' m) = ln_data (nodes h m)" for m by (simp add: h' bridge_sel)
  ultimately show thesis using run that r by metis
qed

lemma search_node_dseg:
  assumes "dseg l (nodes h) p xs None" "n \<notin> set xs"
  shows "snd (search_node h n k q (first_ptr xs None)) \<noteq> Some n"
  using assms by (induction xs arbitrary: p k q) (auto split: nat.split)

lemma list_remove_unlinked:
  assumes ok: "list_ok h L" and n: "n \<notin> set (L l)"
  shows "list_remove v h (Some l) (Some n) = Some (False, h)"
proof -
  have "\<not> links_valid h l n" using owner_iff(1) [OF ok, of n l] n by (simp add: links_valid_def Let_def)
  moreover have "snd (search_node h n k None (ll_head (lists h l))) \<noteq> Some n" for k
    using search_node_dseg [OF list_okD(3) [OF ok] n] list_okD(2) [OF ok, of l] by simp
  ultimately show ?thesis by (simp add: list_remove_def Let_def case_prod_beta)
qed


section \<open>Exchange\<close>

text \<open>A segment, node by node.\<close>

lemma dseg_nodes:
  "dseg l nd p xs q \<longleftrightarrow> (\<forall>us m vs. xs = us @ m # vs \<longrightarrow>
     ln_prev (nd m) = last_ptr us p \<and> ln_next (nd m) = first_ptr vs q \<and> ln_owner (nd m) = Some l)"
proof
  assume "dseg l nd p xs q"
  then show "\<forall>us m vs. xs = us @ m # vs \<longrightarrow> ln_prev (nd m) = last_ptr us p \<and> ln_next (nd m) = first_ptr vs q \<and> ln_owner (nd m) = Some l" by auto
next
  assume "\<forall>us m vs. xs = us @ m # vs \<longrightarrow> ln_prev (nd m) = last_ptr us p \<and> ln_next (nd m) = first_ptr vs q \<and> ln_owner (nd m) = Some l"
  then show "dseg l nd p xs q"
  proof (induction xs arbitrary: p)
    case (Cons x xs)
    have "ln_prev (nd x) = p \<and> ln_next (nd x) = first_ptr xs q \<and> ln_owner (nd x) = Some l" using Cons.prems by (metis append_Nil last_ptr_simps(1))
    moreover have "dseg l nd (Some x) xs q"
    proof (rule Cons.IH, intro allI impI)
      fix us m vs assume "xs = us @ m # vs"
      then have "x # xs = (x # us) @ m # vs" by simp
      then show "ln_prev (nd m) = last_ptr us (Some x) \<and> ln_next (nd m) = first_ptr vs q \<and> ln_owner (nd m) = Some l" using Cons.prems by (metis last_ptr_simps(2))
    qed
    ultimately show ?case by simp
  qed simp
qed

lemma settle_sel:
  assumes "ln_prev (nodes h n) \<noteq> Some n"
  shows "ln_next (nodes (settle_node l n h) m) = (if ln_prev (nodes h n) = Some m then Some n else ln_next (nodes h m))"
    "ln_prev (nodes (settle_node l n h) m) = (if ln_next (nodes h n) = Some m then Some n else ln_prev (nodes h m))"
    "ln_owner (nodes (settle_node l n h) m) = ln_owner (nodes h m)" "ln_data (nodes (settle_node l n h) m) = ln_data (nodes h m)"
    "ll_head (lists (settle_node l n h) l) = (if ln_prev (nodes h n) = None then Some n else ll_head (lists h l))"
    "ll_tail (lists (settle_node l n h) l) = (if ln_next (nodes h n) = None then Some n else ll_tail (lists h l))"
    "ll_length (lists (settle_node l n h) l) = ll_length (lists h l)" "k \<noteq> l \<Longrightarrow> lists (settle_node l n h) k = lists h k"
  using assms by (cases "ln_prev (nodes h n)"; cases "ln_next (nodes h n)";
    auto simp: settle_node_def set_next_or_head_def set_prev_or_tail_def Let_def)+

text \<open>The links of two nodes \<open>x\<close> and \<open>y\<close> that follow each other in a list, whichever is the first argument.\<close>

lemma cross_sel:
  assumes d: "dseg l (nodes h) None (as @ x # bs @ y # cs) None" "distinct (as @ x # bs @ y # cs)" and ab: "(a, b) = (x, y) \<or> (a, b) = (y, x)"
  defines "h' \<equiv> cross_links a b h"
  shows "ln_next (nodes h' m) = (if m = x then first_ptr cs None else if m = y then first_ptr bs (Some x) else ln_next (nodes h m))"
    "ln_prev (nodes h' m) = (if m = x then last_ptr bs (Some y) else if m = y then last_ptr as None else ln_prev (nodes h m))"
    "ln_owner (nodes h' m) = ln_owner (nodes h m)" "ln_data (nodes h' m) = ln_data (nodes h m)" "lists h' = lists h"
proof -
  have l: "ln_prev (nodes h x) = last_ptr as None" "ln_next (nodes h x) = first_ptr bs (Some y)"
    "ln_prev (nodes h y) = last_ptr bs (Some x)" "ln_next (nodes h y) = first_ptr cs None" using d(1) by simp_all
  have ne: "x \<noteq> y" "first_ptr cs None \<noteq> Some x" "first_ptr cs None \<noteq> Some y" using d(2) hd_in_set by (auto simp: first_ptr_cases)
  have bs: "first_ptr bs (Some y) = Some y \<longleftrightarrow> bs = []" using d(2) by (cases bs) auto
  show "lists h' = lists h" by (simp add: h'_def cross_links_def Let_def)
  show "ln_next (nodes h' m) = (if m = x then first_ptr cs None else if m = y then first_ptr bs (Some x) else ln_next (nodes h m))"
    "ln_prev (nodes h' m) = (if m = x then last_ptr bs (Some y) else if m = y then last_ptr as None else ln_prev (nodes h m))"
    "ln_owner (nodes h' m) = ln_owner (nodes h m)" "ln_data (nodes h' m) = ln_data (nodes h m)"
    using ab l ne bs by (cases "bs = []"; elim disjE; simp add: h'_def cross_links_def last_ptr_def first_ptr_Some)+
qed

lemma ptr_notin: "w \<notin> set xs \<Longrightarrow> last_ptr xs None \<noteq> Some w" "w \<notin> set xs \<Longrightarrow> first_ptr xs None \<noteq> Some w"
  using hd_in_set last_in_set by (force simp: first_ptr_cases last_ptr_cases)+

lemma ptr_empty: "last_ptr xs None = None \<longleftrightarrow> xs = []" "first_ptr xs None = None \<longleftrightarrow> xs = []"
  by (simp_all add: last_ptr_def first_ptr_def split: list.split)

lemma ptr_default: "last_ptr xs (Some y) = (if xs = [] then Some y else last_ptr xs None)" "first_ptr xs (Some y) = (if xs = [] then Some y else first_ptr xs None)"
  by (simp_all add: last_ptr_def first_ptr_Some)

lemma settle_both:
  assumes d: "dseg l (nodes h) None (as @ x # bs @ y # cs) None" "distinct (as @ x # bs @ y # cs)" and ab: "(a, b) = (x, y) \<or> (a, b) = (y, x)"
  defines "f \<equiv> settle_node l b (settle_node l a (cross_links a b h))"
  shows "ln_next (nodes f m) = (if m = x then first_ptr cs None else if m = y then first_ptr bs (Some x) else
      if last_ptr as None = Some m then Some y else if last_ptr bs None = Some m then Some x else ln_next (nodes h m))"
    "ln_prev (nodes f m) = (if m = x then last_ptr bs (Some y) else if m = y then last_ptr as None else
      if first_ptr cs None = Some m then Some x else if first_ptr bs None = Some m then Some y else ln_prev (nodes h m))"
    "ln_owner (nodes f m) = ln_owner (nodes h m)" "ln_data (nodes f m) = ln_data (nodes h m)" "k \<noteq> l \<Longrightarrow> lists f k = lists h k"
    "ll_head (lists f l) = (if as = [] then Some y else ll_head (lists h l))" "ll_tail (lists f l) = (if cs = [] then Some x else ll_tail (lists h l))"
    "ll_length (lists f l) = ll_length (lists h l)"
proof -
  note c = cross_sel [OF d ab]
  have n: "last_ptr as None \<noteq> Some x" "first_ptr bs None \<noteq> Some x" "last_ptr bs None \<noteq> Some x" "first_ptr cs None \<noteq> Some x"
    "last_ptr as None \<noteq> Some y" "first_ptr bs None \<noteq> Some y" "last_ptr bs None \<noteq> Some y" "first_ptr cs None \<noteq> Some y" "x \<noteq> y"
    using d(2) ptr_notin by auto
  have dis: "last_ptr as None \<noteq> Some w \<or> last_ptr bs None \<noteq> Some w" "first_ptr cs None \<noteq> Some w \<or> first_ptr bs None \<noteq> Some w" for w
    using d(2) ptr_notin(1) [of w as] ptr_notin(1) [of w bs] ptr_notin(2) [of w bs] ptr_notin(2) [of w cs] by auto
  define g where "g = settle_node l a (cross_links a b h)"
  have p: "ln_prev (nodes (cross_links a b h) a) \<noteq> Some a" using ab n by (auto simp: c ptr_default)
  note g = settle_sel [OF p, where l = l, folded g_def]
  have q: "ln_prev (nodes g b) \<noteq> Some b" using ab n by (auto simp: g c ptr_default)
  note f = settle_sel [OF q, where l = l, unfolded g_def, folded f_def, folded g_def]
  show "ln_next (nodes f m) = (if m = x then first_ptr cs None else if m = y then first_ptr bs (Some x) else
      if last_ptr as None = Some m then Some y else if last_ptr bs None = Some m then Some x else ln_next (nodes h m))"
    unfolding f g c ptr_default using ab n dis(1) [of m] by (elim disjE) (simp_all split: if_split)
  show "ln_prev (nodes f m) = (if m = x then last_ptr bs (Some y) else if m = y then last_ptr as None else
      if first_ptr cs None = Some m then Some x else if first_ptr bs None = Some m then Some y else ln_prev (nodes h m))"
    unfolding f g c ptr_default using ab n dis(2) [of m] by (elim disjE) (simp_all split: if_split)
  show "ln_owner (nodes f m) = ln_owner (nodes h m)" "ln_data (nodes f m) = ln_data (nodes h m)" "k \<noteq> l \<Longrightarrow> lists f k = lists h k"
    "ll_length (lists f l) = ll_length (lists h l)" by (simp_all add: f g c)
  show "ll_head (lists f l) = (if as = [] then Some y else ll_head (lists h l))" "ll_tail (lists f l) = (if cs = [] then Some x else ll_tail (lists h l))"
    unfolding f g c ptr_default using ab n by (elim disjE; simp add: ptr_empty)+
qed

text \<open>The list with two of its nodes exchanged.\<close>

definition swap_nodes :: "nid \<Rightarrow> nid \<Rightarrow> nid list \<Rightarrow> nid list" where
  "swap_nodes a b = map (\<lambda>x. if x = a then b else if x = b then a else x)"

lemma swap_nodes_split:
  assumes "distinct (as @ x # bs @ y # cs)" "(a, b) = (x, y) \<or> (a, b) = (y, x)"
  shows "swap_nodes a b (as @ x # bs @ y # cs) = as @ y # bs @ x # cs"
proof -
  have "map (\<lambda>z. if z = a then b else if z = b then a else z) zs = zs" if "x \<notin> set zs" "y \<notin> set zs" for zs
    using that assms(2) by (intro map_idI) auto
  then show ?thesis using assms by (auto simp: swap_nodes_def)
qed

lemma swap_dseg:
  assumes d: "dseg l (nodes h) None (as @ x # bs @ y # cs) None" "distinct (as @ x # bs @ y # cs)" and ab: "(a, b) = (x, y) \<or> (a, b) = (y, x)"
  defines "f \<equiv> settle_node l b (settle_node l a (cross_links a b h))"
  shows "dseg l (nodes f) None (as @ y # bs @ x # cs) None"
proof -
  note f = settle_both [OF d ab, folded f_def]
  have sg: "dseg l (nodes h) None as (Some x)" "dseg l (nodes h) (Some x) bs (Some y)" "dseg l (nodes h) (Some y) cs None"
    "ln_owner (nodes h x) = Some l" "ln_owner (nodes h y) = Some l" using d(1) by simp_all
  have out: "m \<noteq> x" "m \<noteq> y" if "m \<in> set as \<or> m \<in> set bs \<or> m \<in> set cs" for m using d(2) that by auto
  have "dseg l (nodes f) None as (Some y)"
    unfolding dseg_nodes
  proof (intro allI impI)
    fix us m vs assume m: "as = us @ m # vs"
    note o = sg(1) [unfolded dseg_nodes, rule_format, OF m] and i = out [of m]
    have "last_ptr as None = Some m \<longleftrightarrow> vs = []" using d(2) m by (cases vs rule: rev_cases) auto
    moreover have "last_ptr bs None \<noteq> Some m" "first_ptr bs None \<noteq> Some m" "first_ptr cs None \<noteq> Some m" using d(2) m ptr_notin by auto
    ultimately show "ln_prev (nodes f m) = last_ptr us None \<and> ln_next (nodes f m) = first_ptr vs (Some y) \<and> ln_owner (nodes f m) = Some l"
      using o i m by (simp add: f first_ptr_Some)
  qed
  moreover have "dseg l (nodes f) (Some y) bs (Some x)"
    unfolding dseg_nodes
  proof (intro allI impI)
    fix us m vs assume m: "bs = us @ m # vs"
    note o = sg(2) [unfolded dseg_nodes, rule_format, OF m] and i = out [of m]
    have "last_ptr bs None = Some m \<longleftrightarrow> vs = []" using d(2) m by (cases vs rule: rev_cases) auto
    moreover have "first_ptr bs None = Some m \<longleftrightarrow> us = []" using d(2) m by (cases us) auto
    moreover have "last_ptr as None \<noteq> Some m" "first_ptr cs None \<noteq> Some m" using d(2) m ptr_notin by auto
    ultimately show "ln_prev (nodes f m) = last_ptr us (Some y) \<and> ln_next (nodes f m) = first_ptr vs (Some x) \<and> ln_owner (nodes f m) = Some l"
      using o i m by (simp add: f first_ptr_Some last_ptr_Some)
  qed
  moreover have "dseg l (nodes f) (Some x) cs None"
    unfolding dseg_nodes
  proof (intro allI impI)
    fix us m vs assume m: "cs = us @ m # vs"
    note o = sg(3) [unfolded dseg_nodes, rule_format, OF m] and i = out [of m]
    have "first_ptr cs None = Some m \<longleftrightarrow> us = []" using d(2) m by (cases us) auto
    moreover have "last_ptr as None \<noteq> Some m" "first_ptr bs None \<noteq> Some m" "last_ptr bs None \<noteq> Some m" using d(2) m ptr_notin by auto
    ultimately show "ln_prev (nodes f m) = last_ptr us (Some x) \<and> ln_next (nodes f m) = first_ptr vs None \<and> ln_owner (nodes f m) = Some l"
      using o i m by (simp add: f last_ptr_Some)
  qed
  ultimately show ?thesis using f sg(4,5) d(2) by simp
qed

lemma split_two:
  assumes "a \<in> set xs" "b \<in> set xs" "a \<noteq> b"
  obtains as x bs y cs where "xs = as @ x # bs @ y # cs" "(a, b) = (x, y) \<or> (a, b) = (y, x)"
proof -
  obtain as cs where a: "xs = as @ a # cs" using assms(1) by (meson split_list)
  then consider "b \<in> set as" | "b \<in> set cs" using assms(2,3) by auto
  then show thesis
  proof cases
    case 1
    then obtain us vs where "as = us @ b # vs" by (meson split_list)
    then show thesis using that [of us b vs a cs] a by simp
  next
    case 2
    then obtain us vs where "cs = us @ b # vs" by (meson split_list)
    then show thesis using that [of as a us b vs] a by simp
  qed
qed

lemma list_swap_ok:
  assumes ok: "list_ok h L" and ab: "a \<in> set (L l)" "b \<in> set (L l)" "a \<noteq> b"
  obtains h' where "list_swap h (Some a) (Some b) = Some (True, h')" "list_ok h' (L(l := swap_nodes a b (L l)))" "\<And>m. ln_data (nodes h' m) = ln_data (nodes h m)"
proof (rule split_two [OF ab])
  fix as x bs y cs assume L: "L l = as @ x # bs @ y # cs" and xy: "(a, b) = (x, y) \<or> (a, b) = (y, x)"
  note D = list_okD [OF ok, of l, unfolded L]
  define f where "f = settle_node l b (settle_node l a (cross_links a b h))"
  note s = settle_both [OF D(3,1) xy, folded f_def]
  have run: "list_swap h (Some a) (Some b) = Some (True, f)"
    using ab owner_iff(1) [OF ok, of a l] owner_iff(1) [OF ok, of b l] by (simp add: list_swap_def f_def)
  have "lists f l = \<lparr>ll_length = length (as @ y # bs @ x # cs), ll_head = first_ptr (as @ y # bs @ x # cs) None, ll_tail = last_ptr (as @ y # bs @ x # cs) None\<rparr>"
    using s(6-8) D(2) by (cases as; cases cs rule: rev_cases) simp_all
  then have d: "dll f l (as @ y # bs @ x # cs)" using swap_dseg [OF D(3,1) xy, folded f_def] D(1) by (auto simp: dll_def)
  have "list_ok f (L(l := as @ y # bs @ x # cs))"
  proof (rule list_ok_upd [OF ok d])
    show "set (as @ y # bs @ x # cs) \<subseteq> {..<NODE_LIMIT}" using list_ok_limit [OF ok, of l] L by auto
    show "lists f k = lists h k" if "k \<noteq> l" for k using s(5) that by simp
    show "nodes f m = nodes h m" if "m \<notin> set (L l)" "m \<notin> set (as @ y # bs @ x # cs)" for m
    proof -
      have "last_ptr as None \<noteq> Some m" "last_ptr bs None \<noteq> Some m" "first_ptr bs None \<noteq> Some m" "first_ptr cs None \<noteq> Some m" "m \<noteq> x" "m \<noteq> y"
        using that ptr_notin by auto
      then show ?thesis using s(1-4) [of m] by (intro list_node.equality) simp_all
    qed
    show "set (as @ y # bs @ x # cs) \<inter> set (L k) = {}" if "k \<noteq> l" for k using disjoint_lists [OF ok, of _ l k] that L by auto
  qed (use L in auto)
  then show thesis using that [OF run] swap_nodes_split [OF D(1) xy] L s(4) by simp
qed


section \<open>Refinement\<close>

text \<open>Calls on the lists, and what they do to the lists as sequences of nodes.\<close>

datatype list_op = Append lid nid | Push lid nid | Remove lid nid | Pop lid | Pop_Front lid | Swap nid nid | Find lid "nat ptr"

datatype list_res = Done bool | Node "nid ptr"

fun op_fits :: "list_op \<Rightarrow> bool" where
  "op_fits (Append l n) \<longleftrightarrow> n < NODE_LIMIT"
| "op_fits (Push l n) \<longleftrightarrow> n < NODE_LIMIT"
| "op_fits _ \<longleftrightarrow> True"

fun list_call :: "bool \<Rightarrow> list_heap \<Rightarrow> list_op \<Rightarrow> (list_res \<times> list_heap) exec" where
  "list_call v h (Append l n) = do { (b, h) \<leftarrow> list_append v h (Some l) (Some n); Some (Done b, h) }"
| "list_call v h (Push l n) = do { (b, h) \<leftarrow> list_push h (Some l) (Some n); Some (Done b, h) }"
| "list_call v h (Remove l n) = do { (b, h) \<leftarrow> list_remove v h (Some l) (Some n); Some (Done b, h) }"
| "list_call v h (Pop l) = do { (p, h) \<leftarrow> list_pop v h (Some l); Some (Node p, h) }"
| "list_call v h (Pop_Front l) = do { (p, h) \<leftarrow> list_pop_front v h (Some l); Some (Node p, h) }"
| "list_call v h (Swap a b) = do { (b, h) \<leftarrow> list_swap h (Some a) (Some b); Some (Done b, h) }"
| "list_call v h (Find l d) = do { p \<leftarrow> list_find h l d; Some (Node p, h) }"

fun list_spec :: "(nid \<Rightarrow> nat ptr) \<Rightarrow> (lid \<Rightarrow> nid list) \<Rightarrow> list_op \<Rightarrow> list_res \<times> (lid \<Rightarrow> nid list)" where
  "list_spec dat L (Append l n) = (if n \<in> linked L then (Done False, L) else (Done True, L(l := L l @ [n])))"
| "list_spec dat L (Push l n) = (if n \<in> linked L then (Done False, L) else (Done True, L(l := n # L l)))"
| "list_spec dat L (Remove l n) = (Done (n \<in> set (L l)), L(l := remove1 n (L l)))"
| "list_spec dat L (Pop l) = (Node (if L l = [] then None else Some (last (L l))), L(l := butlast (L l)))"
| "list_spec dat L (Pop_Front l) = (Node (if L l = [] then None else Some (hd (L l))), L(l := tl (L l)))"
| "list_spec dat L (Swap a b) =
     (Done (a \<noteq> b \<and> (\<exists>l. a \<in> set (L l) \<and> b \<in> set (L l))),
      \<lambda>l. if a \<in> set (L l) \<and> b \<in> set (L l) then swap_nodes a b (L l) else L l)"
| "list_spec dat L (Find l d) = (Node (List.find (\<lambda>n. dat n = d) (L l)), L)"

fun list_calls :: "bool \<Rightarrow> list_heap \<Rightarrow> list_op list \<Rightarrow> (list_res list \<times> list_heap) exec" where
  "list_calls v h [] = Some ([], h)"
| "list_calls v h (op # ops) = do { (r, h) \<leftarrow> list_call v h op; (rs, h) \<leftarrow> list_calls v h ops; Some (r # rs, h) }"

fun list_specs :: "(nid \<Rightarrow> nat ptr) \<Rightarrow> (lid \<Rightarrow> nid list) \<Rightarrow> list_op list \<Rightarrow> list_res list \<times> (lid \<Rightarrow> nid list)" where
  "list_specs dat L [] = ([], L)"
| "list_specs dat L (op # ops) = (let (r, L) = list_spec dat L op; (rs, L) = list_specs dat L ops in (r # rs, L))"

lemma remove1_ends: "distinct xs \<Longrightarrow> xs \<noteq> [] \<Longrightarrow> remove1 (last xs) xs = butlast xs" "xs \<noteq> [] \<Longrightarrow> remove1 (hd xs) xs = tl xs"
  by (cases xs rule: rev_cases; simp add: remove1_append) (cases xs; simp)

definition same_data :: "list_heap \<Rightarrow> list_heap \<Rightarrow> bool" where
  "same_data h h' \<longleftrightarrow> (\<forall>m. ln_data (nodes h' m) = ln_data (nodes h m))"

lemma list_pop_refines:
  assumes "list_ok h L"
  shows "\<exists>h'. list_pop v h (Some l) = Some (if L l = [] then None else Some (last (L l)), h') \<and> list_ok h' (L(l := butlast (L l))) \<and> same_data h h'"
    "\<exists>h'. list_pop_front v h (Some l) = Some (if L l = [] then None else Some (hd (L l)), h') \<and> list_ok h' (L(l := tl (L l))) \<and> same_data h h'"
proof -
  note D = list_okD [OF assms, of l]
  have "(\<exists>h'. list_pop v h (Some l) = Some (if L l = [] then None else Some (last (L l)), h') \<and> list_ok h' (L(l := butlast (L l))) \<and> same_data h h') \<and>
    (\<exists>h'. list_pop_front v h (Some l) = Some (if L l = [] then None else Some (hd (L l)), h') \<and> list_ok h' (L(l := tl (L l))) \<and> same_data h h')"
  proof (cases "L l = []")
    case True
    then have "L(l := []) = L" by auto
    then show ?thesis using True D(2) assms by (simp add: list_pop_def list_pop_front_def same_data_def)
  next
    case False
    obtain h1 where h1: "list_remove v h (Some l) (Some (last (L l))) = Some (True, h1)" "list_ok h1 (L(l := remove1 (last (L l)) (L l)))" "same_data h h1"
      using list_remove_linked [OF assms, of "last (L l)" l v] False by (auto simp: same_data_def)
    obtain h2 where h2: "list_remove v h (Some l) (Some (hd (L l))) = Some (True, h2)" "list_ok h2 (L(l := remove1 (hd (L l)) (L l)))" "same_data h h2"
      using list_remove_linked [OF assms, of "hd (L l)" l v] False by (auto simp: same_data_def)
    note r = remove1_ends(1) [OF D(1) False] remove1_ends(2) [OF False]
    show ?thesis
      using h1(1,3) h2(1,3) h1(2) [unfolded r] h2(2) [unfolded r] False D(2) by (simp add: list_pop_def list_pop_front_def last_ptr_Some first_ptr_Some)
  qed
  then show "\<exists>h'. list_pop v h (Some l) = Some (if L l = [] then None else Some (last (L l)), h') \<and> list_ok h' (L(l := butlast (L l))) \<and> same_data h h'"
    "\<exists>h'. list_pop_front v h (Some l) = Some (if L l = [] then None else Some (hd (L l)), h') \<and> list_ok h' (L(l := tl (L l))) \<and> same_data h h'" by blast+
qed

lemma list_swap_refines:
  assumes "list_ok h L"
  shows "\<exists>h'. list_swap h (Some a) (Some b) = Some (a \<noteq> b \<and> (\<exists>l. a \<in> set (L l) \<and> b \<in> set (L l)), h') \<and>
    list_ok h' (\<lambda>l. if a \<in> set (L l) \<and> b \<in> set (L l) then swap_nodes a b (L l) else L l) \<and> same_data h h'"
proof (cases "a \<noteq> b \<and> (\<exists>l. a \<in> set (L l) \<and> b \<in> set (L l))")
  case True
  then obtain l where l: "a \<in> set (L l)" "b \<in> set (L l)" "a \<noteq> b" by blast
  have "L(l := swap_nodes a b (L l)) = (\<lambda>l. if a \<in> set (L l) \<and> b \<in> set (L l) then swap_nodes a b (L l) else L l)"
    using l disjoint_lists [OF assms] by (auto simp: fun_eq_iff)
  moreover obtain h' where "list_swap h (Some a) (Some b) = Some (True, h')" "list_ok h' (L(l := swap_nodes a b (L l)))" "same_data h h'"
    using list_swap_ok [OF assms l] by (auto simp: same_data_def)
  ultimately show ?thesis using True by auto
next
  case False
  have "(\<lambda>l. if a \<in> set (L l) \<and> b \<in> set (L l) then swap_nodes a b (L l) else L l) = L"
    using False by (auto simp: fun_eq_iff swap_nodes_def intro!: map_idI)
  moreover have "ln_owner (nodes h a) = Some l \<Longrightarrow> ln_owner (nodes h b) = Some l \<Longrightarrow> a = b" for l using False owner_iff(1) [OF assms] by blast
  then have "list_swap h (Some a) (Some b) = Some (False, h)" by (cases "ln_owner (nodes h a)") (auto simp: list_swap_def)
  ultimately show ?thesis using False assms by (simp add: same_data_def)
qed

lemma list_call_refines:
  assumes ok: "list_ok h L" and fits: "op_fits op"
  shows "\<exists>h'. list_call v h op = Some (fst (list_spec (\<lambda>n. ln_data (nodes h n)) L op), h') \<and> list_ok h' (snd (list_spec (\<lambda>n. ln_data (nodes h n)) L op)) \<and> same_data h h'"
proof (cases op)
  case (Append l n)
  show ?thesis
  proof (cases "n \<in> linked L")
    case True
    then show ?thesis using list_append_linked [OF ok] Append ok by (simp add: same_data_def)
  next
    case False
    obtain h' where "list_append v h (Some l) (Some n) = Some (True, h')" "list_ok h' (L(l := L l @ [n]))" "same_data h h'"
      using list_append_ok [OF ok _ False, of v l] fits Append by (auto simp: same_data_def)
    then show ?thesis using Append False by simp
  qed
next
  case (Push l n)
  show ?thesis
  proof (cases "n \<in> linked L")
    case True
    then show ?thesis using list_append_linked [OF ok] Push ok by (simp add: same_data_def)
  next
    case False
    obtain h' where "list_push h (Some l) (Some n) = Some (True, h')" "list_ok h' (L(l := n # L l))" "same_data h h'"
      using list_push_ok [OF ok _ False, of l] fits Push by (auto simp: same_data_def)
    then show ?thesis using Push False by simp
  qed
next
  case (Remove l n)
  show ?thesis
  proof (cases "n \<in> set (L l)")
    case True
    obtain h' where "list_remove v h (Some l) (Some n) = Some (True, h')" "list_ok h' (L(l := remove1 n (L l)))" "same_data h h'"
      using list_remove_linked [OF ok True, of v] by (auto simp: same_data_def)
    then show ?thesis using Remove True by simp
  next
    case False
    then have "L(l := remove1 n (L l)) = L" by (auto simp: remove1_idem)
    then show ?thesis using list_remove_unlinked [OF ok False] Remove False ok by (simp add: same_data_def)
  qed
next
  case (Swap a b)
  then show ?thesis using list_swap_refines [OF ok, of a b] by auto
next
  case (Pop l)
  then show ?thesis using list_pop_refines(1) [OF ok, of v l] by auto
next
  case (Pop_Front l)
  then show ?thesis using list_pop_refines(2) [OF ok, of v l] by auto
next
  case (Find l d)
  then show ?thesis using list_find_ok [OF ok, of l d] ok by (simp add: same_data_def)
qed

text \<open>
  (C39) The linked list implements sequences of nodes: on a well-formed store, any sequence of calls on any lists returns and gives exactly the results
  and the lists that the operations on sequences give, in both builds; in particular a node that is in a list is never
  linked a second time, and a node of another list is never unlinked.
\<close>

theorem list_refines:
  assumes "list_ok h L" "list_all op_fits ops"
  shows "\<exists>h'. list_calls v h ops = Some (fst (list_specs (\<lambda>n. ln_data (nodes h n)) L ops), h') \<and>
    list_ok h' (snd (list_specs (\<lambda>n. ln_data (nodes h n)) L ops))"
  using assms
proof (induction ops arbitrary: h L)
  case (Cons op ops)
  obtain r L1 where s: "list_spec (\<lambda>n. ln_data (nodes h n)) L op = (r, L1)" by (metis surj_pair)
  obtain h1 where h1: "list_call v h op = Some (r, h1)" "list_ok h1 L1" "same_data h h1"
    using list_call_refines [OF Cons.prems(1), of op v] Cons.prems(2) s by auto
  have dat: "(\<lambda>n. ln_data (nodes h1 n)) = (\<lambda>n. ln_data (nodes h n))" using h1(3) by (simp add: same_data_def)
  obtain h2 where "list_calls v h1 ops = Some (fst (list_specs (\<lambda>n. ln_data (nodes h n)) L1 ops), h2)" "list_ok h2 (snd (list_specs (\<lambda>n. ln_data (nodes h n)) L1 ops))"
    using Cons.IH [OF h1(2)] Cons.prems(2) unfolding dat by auto
  then show ?case using h1(1) s by (auto simp: Let_def case_prod_beta)
qed simp

definition empty_store :: list_heap where
  "empty_store = \<lparr>nodes = \<lambda>n. \<lparr>ln_data = Some (2 * n), ln_next = None, ln_prev = None, ln_owner = None\<rparr>,
     lists = \<lambda>l. \<lparr>ll_length = 0, ll_head = None, ll_tail = None\<rparr>\<rparr>"

lemma empty_store_ok: "list_ok empty_store (\<lambda>_. [])"
  by (simp add: list_ok_def dll_def linked_def empty_store_def)

theorem list_refines_witness:
  "\<exists>h'. list_calls True empty_store [Append 0 7, Push 0 5, Append 1 7, Append 0 9, Swap 5 9, Remove 1 9, Pop_Front 0, Find 0 (Some 14), Pop 0] =
     Some ([Done True, Done True, Done False, Done True, Done True, Done False, Node (Some 9), Node (Some 7), Node (Some 5)], h')"
proof -
  let ?ops = "[Append 0 7, Push 0 5, Append 1 7, Append 0 9, Swap 5 9, Remove 1 9, Pop_Front 0, Find 0 (Some 14), Pop 0]"
  have f: "list_all op_fits ?ops" by (simp add: NODE_LIMIT_def)
  have x: "(\<exists>l. (l = 0 \<longrightarrow> P) \<and> l = (0::nat)) = P" for P by auto
  have "fst (list_specs (\<lambda>n. ln_data (nodes empty_store n)) (\<lambda>_. []) ?ops) =
      [Done True, Done True, Done False, Done True, Done True, Done False, Node (Some 9), Node (Some 7), Node (Some 5)]"
    by (simp add: linked_def swap_nodes_def empty_store_def)
  then show ?thesis using list_refines [OF empty_store_ok f, of True] by metis
qed

end
