(* ===== verification/Spec2Isabelle.thy ===== *)
theory Spec2Isabelle
  imports Bitmap_Alloc Ring_Buffer Ring_Queue Vector Hashmap Sleep_Heap Sched_Balance Sessions Civil_Time Linked_List
begin

text \<open>
  Verification of the core of apheleiaOS, a small Unix-like kernel with its libraries.

  \<^bold>\<open>Structure of the program.\<close> Under \<open>src/libs\<close> are the libraries shared by the kernel and user
  land: the containers (\<open>libs/data\<close>), the block allocator (\<open>libs/alloc\<close>), parsers, terminal
  emulation and the C library. Under \<open>src/kernel\<close> are the scheduler (\<open>kernel/sched\<close>: run queues,
  signals, credentials, descriptors, waiting), the system layer (\<open>kernel/sys\<close>: VFS, system calls,
  terminals, devices), the file systems and the architecture ports. Under \<open>src/userland\<close> are
  the programs.

  \<^bold>\<open>Theories.\<close>

  \<^item> \<open>Prelude\<close>: machine integers, checked memory access, buffers of fixed-size slots.
  \<^item> \<open>Bitmap\<close> and \<open>Bitmap_Alloc\<close>: \<open>libs/data/bitmap.c\<close> and \<open>libs/alloc/bitmap.c\<close>.
  \<^item> \<open>Queue_Interface\<close>: the contracts of the rings as locales; \<open>Ring_IO\<close>, \<open>Ring_Buffer\<close> and
    \<open>Ring_Queue\<close>: the three rings of \<open>libs/data/ring.c\<close>, interpreting them.
  \<^item> \<open>Vector\<close>: the growable array of \<open>libs/data/vector.c\<close>.
  \<^item> \<open>Map_Interface\<close>: the contract of a finite map as a locale; \<open>Hashmap\<close>: the integer map of
    \<open>libs/data/hashmap.c\<close>, interpreting it.

  \<^bold>\<open>Conventions.\<close> \<open>size_t\<close> is a natural number below \<open>2 ^ 64\<close> with wrapping operators where the code
  does not exclude a wrap; other fixed-width integers are words. A pointer that the code compares
  with NULL is an option. A function that accesses memory returns None on an access out of
  bounds, so that a result \<open>Some\<close> in a theorem includes memory safety. Allocation from the C
  library is a parameter: whether it succeeds, and the uninitialised block it returns.
\<close>

end
